(* ===== verification/Prelude.thy ===== *)
theory Prelude
  imports Main "HOL-Library.Word"
begin

text \<open>
  The vocabulary shared by every component of the development.

  \<^item> Machine integers are words of their width: \<open>u8\<close>, \<open>u32\<close>, \<open>u64\<close>, and \<open>i64\<close> for a
    64-bit word that the code reads as two's complement (\<open>sint\<close>). A \<open>usize\<close> that only
    counts elements of an in-memory collection is a \<open>nat\<close>.
  \<^item> A byte string (\<open>Vec<u8>\<close>, \<open>&[u8]\<close>) is a list of \<open>u8\<close>.
  \<^item> \<open>onda_error\<close> is the error enum of \<open>src/src/error.rs\<close> with one constructor more,
    \<open>Panic\<close>, for the panics of the language (an index out of range, an \<open>expect\<close> that
    fails). \<open>'a result\<close> is the crate's \<open>Result\<close>, and \<open>rbind\<close> its question mark
    operator. Formatted messages keep their fixed text only.
  \<^item> \<open>ordering\<close> is \<open>std::cmp::Ordering\<close> with the methods the code calls.
  \<^item> The slice operations of the standard library that the code relies on:
    \<open>partition_point\<close>, \<open>sort_by\<close>, \<open>dedup_by\<close>, \<open>windows2\<close> and \<open>slice_cmp\<close>.

  The locale \<open>key_order\<close> is the contract of \<open>Comparator::compare\<close> (a total order whose
  \<open>Equal\<close> is equality). It is polymorphic, so that the order of user keys, of internal
  keys and of composite sort keys are all instances of it, and it makes the order
  lemmas of the library available for every such comparison.
\<close>

section \<open>Machine integers and byte strings\<close>

type_synonym u8 = "8 word"
type_synonym u32 = "32 word"
type_synonym u64 = "64 word"
type_synonym i64 = "64 word"
type_synonym bytes = "u8 list"

named_theorems wire_simps \<open>round-trip equations of the byte codecs\<close>
named_theorems key_simps \<open>rewrite rules that normalise comparisons of keys\<close>

abbreviation u64_max :: u64 where
  "u64_max \<equiv> - 1"

definition saturating_sub :: "nat \<Rightarrow> nat \<Rightarrow> nat" where
  "saturating_sub a b = (if a < b then 0 else a - b)"

lemma saturating_sub_eq [simp]: "saturating_sub a b = a - b"
  by (simp add: saturating_sub_def)

section \<open>Errors and results\<close>

datatype onda_error =
    Memory string
  | InvalidArgs string
  | NotFound
  | Io string
  | Corruption string
  | Exists string
  | Conflict string
  | TooLarge string
  | MemoryLimit string
  | InvalidDb string
  | Locked string
  | ReadOnly string
  | Busy string
  | Poisoned string
  | UnsupportedFormat string
  | FormatUpgradeUnsupported string
  | NotEntity string
  | Unknown string
  | Panic

type_synonym 'a result = "onda_error + 'a"

definition rbind :: "'a result \<Rightarrow> ('a \<Rightarrow> 'b result) \<Rightarrow> 'b result" where
  "rbind r f = (case r of Inl e \<Rightarrow> Inl e | Inr x \<Rightarrow> f x)"

lemma rbind_simps [simp]:
  "rbind (Inl e) f = Inl e"
  "rbind (Inr x) f = f x"
  by (simp_all add: rbind_def)

lemma rbind_Inr_iff: "rbind r f = Inr y \<longleftrightarrow> (\<exists>x. r = Inr x \<and> f x = Inr y)"
  by (cases r) auto

lemma rbind_Inl_iff: "rbind r f = Inl e \<longleftrightarrow> r = Inl e \<or> (\<exists>x. r = Inr x \<and> f x = Inl e)"
  by (cases r) auto

text \<open>\<open>ok_or\<close>: an option with the error to report for \<open>None\<close>.\<close>

definition ok_or :: "'a option \<Rightarrow> onda_error \<Rightarrow> 'a result" where
  "ok_or opt e = (case opt of None \<Rightarrow> Inl e | Some x \<Rightarrow> Inr x)"

lemma ok_or_simps [simp]:
  "ok_or None e = Inl e"
  "ok_or (Some x) e = Inr x"
  by (simp_all add: ok_or_def)

lemma ok_or_Inr_iff [simp]: "ok_or opt e = Inr x \<longleftrightarrow> opt = Some x"
  by (cases opt) auto

lemma ok_or_Inl_iff [simp]: "ok_or opt e = Inl e' \<longleftrightarrow> opt = None \<and> e = e'"
  by (cases opt) auto

section \<open>Orderings\<close>

datatype ordering = Less | Equal | Greater

fun reverse_ord :: "ordering \<Rightarrow> ordering" where
  "reverse_ord Less = Greater"
| "reverse_ord Equal = Equal"
| "reverse_ord Greater = Less"

definition is_lt :: "ordering \<Rightarrow> bool" where
  "is_lt c \<longleftrightarrow> c = Less"

definition is_le :: "ordering \<Rightarrow> bool" where
  "is_le c \<longleftrightarrow> c \<noteq> Greater"

definition is_gt :: "ordering \<Rightarrow> bool" where
  "is_gt c \<longleftrightarrow> c = Greater"

definition is_ge :: "ordering \<Rightarrow> bool" where
  "is_ge c \<longleftrightarrow> c \<noteq> Less"

definition is_eq :: "ordering \<Rightarrow> bool" where
  "is_eq c \<longleftrightarrow> c = Equal"

lemmas ordering_tests = is_lt_def is_le_def is_gt_def is_ge_def is_eq_def

lemma ordering_test_simps [simp]:
  "is_lt Less" "\<not> is_lt Equal" "\<not> is_lt Greater"
  "is_le Less" "is_le Equal" "\<not> is_le Greater"
  "\<not> is_gt Less" "\<not> is_gt Equal" "is_gt Greater"
  "\<not> is_ge Less" "is_ge Equal" "is_ge Greater"
  "\<not> is_eq Less" "is_eq Equal" "\<not> is_eq Greater"
  by (simp_all add: ordering_tests)

definition then_with :: "ordering \<Rightarrow> ordering \<Rightarrow> ordering" where
  "then_with c d = (case c of Equal \<Rightarrow> d | _ \<Rightarrow> c)"

lemma then_with_simps [simp]:
  "then_with Less d = Less"
  "then_with Equal d = d"
  "then_with Greater d = Greater"
  by (simp_all add: then_with_def)

lemma then_with_Equal: "then_with c d = Equal \<longleftrightarrow> c = Equal \<and> d = Equal"
  by (cases c) (auto simp: then_with_def)

text \<open>\<open>Ord::cmp\<close> on a type with a linear order, and on slices.\<close>

definition ord_cmp :: "'a::linorder \<Rightarrow> 'a \<Rightarrow> ordering" where
  "ord_cmp a b = (if a < b then Less else if b < a then Greater else Equal)"

lemma ord_cmp_Suc [simp]: "ord_cmp (Suc m) (Suc n) = ord_cmp m n"
  by (simp add: ord_cmp_def)

fun slice_cmp :: "'a::linorder list \<Rightarrow> 'a list \<Rightarrow> ordering" where
  "slice_cmp [] [] = Equal"
| "slice_cmp [] (_ # _) = Less"
| "slice_cmp (_ # _) [] = Greater"
| "slice_cmp (a # as) (b # bs) = then_with (ord_cmp a b) (slice_cmp as bs)"

section \<open>The contract of a comparison\<close>

locale key_order =
  fixes cmp :: "'a \<Rightarrow> 'a \<Rightarrow> ordering"
  assumes cmp_Equal: "cmp a b = Equal \<longleftrightarrow> a = b"
    and cmp_reverse: "cmp a b = reverse_ord (cmp b a)"
    and cmp_trans: "is_le (cmp a b) \<Longrightarrow> is_le (cmp b c) \<Longrightarrow> is_le (cmp a c)"
begin

lemma is_eq_iff [key_simps]: "is_eq (cmp a b) \<longleftrightarrow> a = b"
  by (simp add: is_eq_def cmp_Equal)

lemma is_gt_iff [key_simps]: "is_gt (cmp a b) \<longleftrightarrow> is_lt (cmp b a)"
  using cmp_reverse [of b a] by (cases "cmp a b") (auto simp: ordering_tests)

lemma is_ge_iff [key_simps]: "is_ge (cmp a b) \<longleftrightarrow> is_le (cmp b a)"
  using cmp_reverse [of b a] by (cases "cmp a b") (auto simp: ordering_tests)

lemma cmp_refl [simp]: "cmp a a = Equal"
  by (simp add: cmp_Equal)

lemma cmp_lt_not_le: "is_lt (cmp a b) \<longleftrightarrow> \<not> is_le (cmp b a)"
  using cmp_reverse [of b a] by (cases "cmp a b") (auto simp: ordering_tests)

sublocale key: linorder "\<lambda>a b. is_le (cmp a b)" "\<lambda>a b. is_lt (cmp a b)"
proof
  fix x y z
  show "is_lt (cmp x y) \<longleftrightarrow> is_le (cmp x y) \<and> \<not> is_le (cmp y x)"
    using cmp_reverse [of y x] by (cases "cmp x y") (auto simp: ordering_tests)
  show "is_le (cmp x x)" by (simp add: is_le_def)
  show "is_le (cmp x y) \<Longrightarrow> is_le (cmp y z) \<Longrightarrow> is_le (cmp x z)"
    by (rule cmp_trans)
  show "is_le (cmp x y) \<Longrightarrow> is_le (cmp y x) \<Longrightarrow> x = y"
    using cmp_reverse [of y x] by (cases "cmp x y") (auto simp: ordering_tests cmp_Equal)
  show "is_le (cmp x y) \<or> is_le (cmp y x)"
    using cmp_reverse [of y x] by (cases "cmp x y") (auto simp: ordering_tests)
qed

lemma cmp_cases:
  obtains "is_lt (cmp a b)" | "a = b" | "is_lt (cmp b a)"
  using key.less_linear by blast

end

subsection \<open>Building orders from orders\<close>

lemma key_order_ord_cmp: "key_order (ord_cmp :: 'a::linorder \<Rightarrow> 'a \<Rightarrow> ordering)"
  by unfold_locales (auto simp: ord_cmp_def ordering_tests split: if_splits)

lemma key_order_reverse:
  assumes "key_order c"
  shows "key_order (\<lambda>a b. c b a)"
proof -
  from assms have r: "\<And>a b. c a b = reverse_ord (c b a)" and e: "\<And>a b. c a b = Equal \<longleftrightarrow> a = b"
    and t: "\<And>a b d. is_le (c a b) \<Longrightarrow> is_le (c b d) \<Longrightarrow> is_le (c a d)"
    unfolding key_order_def by blast+
  show ?thesis
  proof
    fix a b d
    show "c b a = Equal \<longleftrightarrow> a = b" using e [of b a] by auto
    show "c b a = reverse_ord (c a b)" by (rule r)
    show "is_le (c b a) \<Longrightarrow> is_le (c d b) \<Longrightarrow> is_le (c d a)" using t by blast
  qed
qed

lemma key_order_then_with:
  assumes c: "key_order c" and d: "key_order d"
    and inj: "\<And>a b. f a = f b \<Longrightarrow> g a = g b \<Longrightarrow> a = b"
  shows "key_order (\<lambda>a b. then_with (c (f a) (f b)) (d (g a) (g b)))"
proof -
  from c have cr: "\<And>a b. c a b = reverse_ord (c b a)" and ce: "\<And>a b. c a b = Equal \<longleftrightarrow> a = b"
    and ct: "\<And>x y z. is_le (c x y) \<Longrightarrow> is_le (c y z) \<Longrightarrow> is_le (c x z)"
    unfolding key_order_def by blast+
  from d have dr: "\<And>a b. d a b = reverse_ord (d b a)" and de: "\<And>a b. d a b = Equal \<longleftrightarrow> a = b"
    and dt: "\<And>x y z. is_le (d x y) \<Longrightarrow> is_le (d y z) \<Longrightarrow> is_le (d x z)"
    unfolding key_order_def by blast+
  have le_iff: "is_le (then_with (c x y) (d u v)) \<longleftrightarrow>
      is_le (c x y) \<and> (x = y \<longrightarrow> is_le (d u v))" for x y u v
    using ce [of x y] by (cases "c x y") (auto simp: then_with_def is_le_def)
  have anti: "x = y" if "is_le (c x y)" "is_le (c y x)" for x y
    using that cr [of y x] ce [of x y] by (cases "c x y") (auto simp: is_le_def)
  show ?thesis
  proof
    fix x y z
    show "then_with (c (f x) (f y)) (d (g x) (g y)) = Equal \<longleftrightarrow> x = y"
      by (auto simp: then_with_Equal ce de dest: inj)
    show "then_with (c (f x) (f y)) (d (g x) (g y)) =
        reverse_ord (then_with (c (f y) (f x)) (d (g y) (g x)))"
      using cr [of "f x" "f y"] dr [of "g x" "g y"]
      by (cases "c (f y) (f x)") (auto simp: then_with_def)
    show "is_le (then_with (c (f x) (f y)) (d (g x) (g y))) \<Longrightarrow>
        is_le (then_with (c (f y) (f z)) (d (g y) (g z))) \<Longrightarrow>
        is_le (then_with (c (f x) (f z)) (d (g x) (g z)))"
      unfolding le_iff using ct [of "f x" "f y" "f z"] dt [of "g x" "g y" "g z"]
        anti [of "f x" "f y"] anti [of "f y" "f z"] by (metis ct)
  qed
qed

lemma key_order_inj:
  assumes "key_order c" and "\<And>a b. f a = f b \<Longrightarrow> a = b"
  shows "key_order (\<lambda>a b. c (f a) (f b))"
  using assms unfolding key_order_def by metis

lemma slice_cmp_Equal: "slice_cmp a b = Equal \<longleftrightarrow> a = b"
  by (induction a b rule: slice_cmp.induct)
     (auto simp: then_with_def ord_cmp_def split: if_splits)

lemma slice_cmp_reverse: "slice_cmp a b = reverse_ord (slice_cmp b a)"
  by (induction a b rule: slice_cmp.induct)
     (auto simp: then_with_def ord_cmp_def split: if_splits)

lemma slice_cmp_trans:
  "is_le (slice_cmp a b) \<Longrightarrow> is_le (slice_cmp b c) \<Longrightarrow> is_le (slice_cmp a c)"
proof (induction a b arbitrary: c rule: slice_cmp.induct)
  case (4 x xs y ys)
  then show ?case
    by (cases c) (auto simp: then_with_def ord_cmp_def is_le_def split: if_splits)
qed (auto simp: is_le_def, (case_tac c; simp)+)

lemma key_order_slice_cmp: "key_order (slice_cmp :: 'a::linorder list \<Rightarrow> 'a list \<Rightarrow> ordering)"
  by unfold_locales (auto simp: slice_cmp_Equal intro: slice_cmp_reverse slice_cmp_trans)

section \<open>Slice operations\<close>

text \<open>
  \<open>partition_point\<close> on a slice that is partitioned by the predicate (which its contract
  requires), the stable \<open>sort_by\<close>, \<open>dedup_by\<close> of consecutive equals and \<open>windows(2)\<close>.
\<close>

definition partition_point :: "('a \<Rightarrow> bool) \<Rightarrow> 'a list \<Rightarrow> nat" where
  "partition_point P xs = length (takeWhile P xs)"

fun insert_by :: "('a \<Rightarrow> 'a \<Rightarrow> ordering) \<Rightarrow> 'a \<Rightarrow> 'a list \<Rightarrow> 'a list" where
  "insert_by c x [] = [x]"
| "insert_by c x (y # ys) = (if is_le (c x y) then x # y # ys else y # insert_by c x ys)"

fun sort_by :: "('a \<Rightarrow> 'a \<Rightarrow> ordering) \<Rightarrow> 'a list \<Rightarrow> 'a list" where
  "sort_by c [] = []"
| "sort_by c (x # xs) = insert_by c x (sort_by c xs)"

fun dedup_by :: "('a \<Rightarrow> 'a \<Rightarrow> bool) \<Rightarrow> 'a list \<Rightarrow> 'a list" where
  "dedup_by same [] = []"
| "dedup_by same [x] = [x]"
| "dedup_by same (x # y # ys) =
     (if same y x then dedup_by same (x # ys) else x # dedup_by same (y # ys))"

definition windows2 :: "'a list \<Rightarrow> ('a \<times> 'a) list" where
  "windows2 xs = zip xs (tl xs)"

lemma partition_point_le [simp]: "partition_point P xs \<le> length xs"
  by (simp add: partition_point_def length_takeWhile_le)

lemma partition_point_simps [simp]:
  "partition_point P [] = 0"
  "partition_point P (x # xs) = (if P x then Suc (partition_point P xs) else 0)"
  by (simp_all add: partition_point_def)

lemma take_partition_point: "take (partition_point P xs) xs = takeWhile P xs"
  by (metis partition_point_def append_eq_conv_conj takeWhile_dropWhile_id)

lemma drop_partition_point: "drop (partition_point P xs) xs = dropWhile P xs"
  by (metis partition_point_def dropWhile_eq_drop)

lemma set_insert_by [simp]: "set (insert_by c x xs) = insert x (set xs)"
  by (induction xs) auto

lemma set_sort_by [simp]: "set (sort_by c xs) = set xs"
  by (induction xs) auto

lemma length_insert_by [simp]: "length (insert_by c x xs) = Suc (length xs)"
  by (induction xs) auto

lemma length_sort_by [simp]: "length (sort_by c xs) = length xs"
  by (induction xs) auto

lemma windows2_simps [simp]:
  "windows2 [] = []" "windows2 [x] = []" "windows2 (x # y # ys) = (x, y) # windows2 (y # ys)"
  by (simp_all add: windows2_def)

lemma set_windows2: "(a, b) \<in> set (windows2 xs) \<Longrightarrow> a \<in> set xs \<and> b \<in> set xs"
  by (induction xs rule: induct_list012) auto

lemma find_Some_in: "find P xs = Some x \<Longrightarrow> P x \<and> x \<in> set xs"
  by (auto simp: find_Some_iff)

context key_order
begin

abbreviation (input) sorted_le :: "'a list \<Rightarrow> bool" where
  "sorted_le \<equiv> sorted_wrt (\<lambda>a b. is_le (cmp a b))"

abbreviation (input) sorted_lt :: "'a list \<Rightarrow> bool" where
  "sorted_lt \<equiv> sorted_wrt (\<lambda>a b. is_lt (cmp a b))"

lemma sorted_insert_by: "sorted_le xs \<Longrightarrow> sorted_le (insert_by cmp x xs)"
  by (induction xs) (auto simp: key.not_le key.less_imp_le intro: key.order_trans)

lemma sorted_sort_by: "sorted_le (sort_by cmp xs)"
  by (induction xs) (auto intro: sorted_insert_by)

lemma dedup_sorted:
  assumes "sorted_le xs"
  shows "set (dedup_by (\<lambda>a b. is_eq (cmp a b)) xs) = set xs \<and>
    sorted_lt (dedup_by (\<lambda>a b. is_eq (cmp a b)) xs)"
  using assms
proof (induction "\<lambda>a b. is_eq (cmp a b)" xs rule: dedup_by.induct)
  case (3 x y ys)
  show ?case
  proof (cases "x = y")
    case True
    with 3 show ?thesis by (auto simp: is_eq_iff)
  next
    case False
    with 3 have ih: "set (dedup_by (\<lambda>a b. is_eq (cmp a b)) (y # ys)) = set (y # ys)"
      "sorted_lt (dedup_by (\<lambda>a b. is_eq (cmp a b)) (y # ys))"
      by (auto simp: is_eq_iff)
    have "is_lt (cmp x z)" if "z \<in> set (y # ys)" for z
      using 3(3) that False by (auto simp: key.le_less intro: key.less_trans)
    with False ih show ?thesis by (auto simp: is_eq_iff)
  qed
qed auto

lemma sorted_lt_windows2:
  "sorted_lt xs \<Longrightarrow> (a, b) \<in> set (windows2 xs) \<Longrightarrow>
     is_lt (cmp a b) \<and> a \<in> set xs \<and> b \<in> set xs \<and> (\<forall>x\<in>set xs. is_le (cmp x a) \<or> is_le (cmp b x))"
proof (induction xs rule: induct_list012)
  case (3 x y zs)
  from 3(4) consider "a = x" "b = y" | "(a, b) \<in> set (windows2 (y # zs))" by auto
  then show ?case
  proof cases
    case 1
    with 3(3) show ?thesis by (auto simp: key.less_imp_le)
  next
    case 2
    with 3 have ih: "is_lt (cmp a b)" "a \<in> set (y # zs)" "b \<in> set (y # zs)"
      "\<forall>x\<in>set (y # zs). is_le (cmp x a) \<or> is_le (cmp b x)" by auto
    have "is_lt (cmp x a)" using 3(3) ih(2) by auto
    with ih show ?thesis by (auto simp: key.less_imp_le)
  qed
qed auto

lemma windows2_covers:
  assumes "sorted_lt xs" and "lo \<in> set xs" and "hi \<in> set xs"
    and "is_le (cmp lo k)" and "is_lt (cmp k hi)"
  shows "\<exists>(a, b)\<in>set (windows2 xs). is_le (cmp a k) \<and> is_lt (cmp k b)"
  using assms
proof (induction xs arbitrary: lo rule: induct_list012)
  case (2 x)
  then show ?case using key.less_le_trans key.less_irrefl by fastforce
next
  case (3 x y zs)
  show ?case
  proof (cases "is_lt (cmp k y)")
    case True
    have "is_le (cmp x lo)" using 3(3,4) by (auto simp: key.less_imp_le)
    with 3(6) True show ?thesis by (auto intro: key.order_trans)
  next
    case False
    then have y: "is_le (cmp y k)" by (simp add: key.not_less)
    have "hi \<in> set (y # zs)"
    proof (rule ccontr)
      assume "hi \<notin> set (y # zs)"
      with 3(5) have "hi = x" by simp
      with 3(3) 3(7) y show False by (meson key.less_asym key.le_less_trans key.not_less list.set_intros(1) sorted_wrt.simps(2))
    qed
    with 3(2) [of y] 3(3,7) y have "\<exists>(a, b)\<in>set (windows2 (y # zs)). is_le (cmp a k) \<and> is_lt (cmp k b)"
      by auto
    then show ?thesis by auto
  qed
qed simp

end

end
