(* ===== verification/Errors.thy ===== *)
theory Errors
  imports Prelude
begin

text \<open>
  The error enum's code tables of \<open>src/src/error.rs\<close>: the numeric code of each variant,
  the reconstruction of an error from a code (a group-commit leader hands its followers
  only the code) and the stable kind string. An error that crosses threads as a code keeps
  its variant.
\<close>

definition code :: "onda_error \<Rightarrow> int" where
  "code e = (case e of
     Memory _ \<Rightarrow> -1 | InvalidArgs _ \<Rightarrow> -2 | NotFound \<Rightarrow> -3 | Io _ \<Rightarrow> -4 | Corruption _ \<Rightarrow> -5
   | Exists _ \<Rightarrow> -6 | Conflict _ \<Rightarrow> -7 | TooLarge _ \<Rightarrow> -8 | MemoryLimit _ \<Rightarrow> -9
   | InvalidDb _ \<Rightarrow> -10 | Unknown _ \<Rightarrow> -11 | Locked _ \<Rightarrow> -12 | ReadOnly _ \<Rightarrow> -13 | Busy _ \<Rightarrow> -14
   | Poisoned _ \<Rightarrow> -15 | UnsupportedFormat _ \<Rightarrow> -16 | FormatUpgradeUnsupported _ \<Rightarrow> -17
   | NotEntity _ \<Rightarrow> -18 | Panic \<Rightarrow> 0)"

definition from_code :: "int \<Rightarrow> onda_error" where
  "from_code c =
     (if c = -1 then Memory ''''
      else if c = -2 then InvalidArgs ''''
      else if c = -3 then NotFound
      else if c = -4 then Io ''io error''
      else if c = -5 then Corruption ''''
      else if c = -6 then Exists ''''
      else if c = -7 then Conflict ''''
      else if c = -8 then TooLarge ''''
      else if c = -9 then MemoryLimit ''''
      else if c = -10 then InvalidDb ''''
      else if c = -12 then Locked ''''
      else if c = -13 then ReadOnly ''''
      else if c = -14 then Busy ''''
      else if c = -15 then Poisoned ''''
      else if c = -16 then UnsupportedFormat ''''
      else if c = -17 then FormatUpgradeUnsupported ''''
      else if c = -18 then NotEntity ''''
      else Unknown ''code'')"

definition error_kind :: "onda_error \<Rightarrow> string" where
  "error_kind e = (case e of
     Memory _ \<Rightarrow> ''memory'' | InvalidArgs _ \<Rightarrow> ''invalid_args'' | NotFound \<Rightarrow> ''not_found''
   | Io _ \<Rightarrow> ''io'' | Corruption _ \<Rightarrow> ''corruption'' | Exists _ \<Rightarrow> ''exists''
   | Conflict _ \<Rightarrow> ''conflict'' | TooLarge _ \<Rightarrow> ''too_large'' | MemoryLimit _ \<Rightarrow> ''memory_limit''
   | InvalidDb _ \<Rightarrow> ''invalid_db'' | Locked _ \<Rightarrow> ''locked'' | ReadOnly _ \<Rightarrow> ''readonly''
   | Busy _ \<Rightarrow> ''busy'' | Poisoned _ \<Rightarrow> ''poisoned'' | UnsupportedFormat _ \<Rightarrow> ''unsupported_format''
   | FormatUpgradeUnsupported _ \<Rightarrow> ''format_upgrade_unsupported''
   | NotEntity _ \<Rightarrow> ''not_entity'' | Unknown _ \<Rightarrow> ''unknown'' | Panic \<Rightarrow> '''')"

definition duplicate :: "onda_error \<Rightarrow> onda_error" where
  "duplicate e = (case e of
     Memory m \<Rightarrow> Memory m | InvalidArgs m \<Rightarrow> InvalidArgs m | NotFound \<Rightarrow> NotFound | Io m \<Rightarrow> Io m
   | Corruption m \<Rightarrow> Corruption m | Exists m \<Rightarrow> Exists m | Conflict m \<Rightarrow> Conflict m
   | TooLarge m \<Rightarrow> TooLarge m | MemoryLimit m \<Rightarrow> MemoryLimit m | InvalidDb m \<Rightarrow> InvalidDb m
   | Locked m \<Rightarrow> Locked m | ReadOnly m \<Rightarrow> ReadOnly m | Busy m \<Rightarrow> Busy m | Poisoned m \<Rightarrow> Poisoned m
   | Unknown m \<Rightarrow> Unknown m | UnsupportedFormat m \<Rightarrow> UnsupportedFormat m
   | FormatUpgradeUnsupported m \<Rightarrow> FormatUpgradeUnsupported m | NotEntity m \<Rightarrow> NotEntity m
   | Panic \<Rightarrow> Panic)"

lemma code_range: "e \<noteq> Panic \<Longrightarrow> - 18 \<le> code e \<and> code e \<le> - 1"
  by (cases e) (simp_all add: code_def)

section \<open>Properties\<close>

text \<open>
  C36. An error survives the trip through its numeric code: for every variant the code
  writes, \<^const>\<open>from_code\<close> of \<^const>\<open>code\<close> has the same kind and the same code, and two errors
  have the same code exactly if they have the same kind.
\<close>

theorem error_code_roundtrip:
  assumes "e \<noteq> Panic"
  shows "error_kind (from_code (code e)) = error_kind e \<and> code (from_code (code e)) = code e \<and>
    (e' \<noteq> Panic \<longrightarrow> (code e = code e' \<longleftrightarrow> error_kind e = error_kind e'))"
proof -
  have trip: "error_kind (from_code (code x)) = error_kind x" "code (from_code (code x)) = code x"
    if "x \<noteq> Panic" for x
    using that by (cases x; simp add: code_def from_code_def error_kind_def)+
  have "code e = code e'" if "error_kind e = error_kind e'" "e' \<noteq> Panic"
    using assms that by (cases e; cases e') (simp_all add: code_def error_kind_def)
  with trip assms show ?thesis by metis
qed

theorem error_code_roundtrip_witness:
  "error_kind (from_code (code (Busy ''x''))) = ''busy'' \<and> code (Busy ''x'') \<noteq> code (Locked ''x'')"
  using error_code_roundtrip [of "Busy ''x''" "Locked ''x''"]
  by (simp add: error_kind_def)

end
