(* ===== verification/Encoding.thy ===== *)
theory Encoding
  imports Prelude
begin

unbundle bit_operations_syntax

text \<open>
  The serialization primitives of \<open>src/src/encoding.rs\<close>: LEB128 varints (plain and
  zig-zag) and little-endian fixed-width integers. The checksums are third-party code
  and appear as parameters where the codecs use them.

  \<open>append_uvarint\<close> is the writer's loop, \<open>uvarint\<close> the reader with its four unrolled
  fast paths in front of the general loop \<open>uvarint_slow\<close>. The lemmas show that the fast
  paths agree with the general loop on every input, that a decoder reads back what the
  encoder wrote whatever follows it, that an encoding has between 1 and 10 bytes, and
  that the reads never run past the input.
\<close>

section \<open>Definitions\<close>

lemma unat_drop_bit_7: "unat (drop_bit 7 (x :: u64)) = unat x div 128"
  by (simp add: unat_drop_bit_eq drop_bit_nat_def)

lemma drop_bit_7_less: "0x80 \<le> (x :: u64) \<Longrightarrow> unat (drop_bit 7 x) < unat x"
  unfolding unat_drop_bit_7 by (simp add: word_le_nat_alt)

function append_uvarint :: "bytes \<Rightarrow> u64 \<Rightarrow> bytes" where
  "append_uvarint dst x =
     (if 0x80 \<le> x
      then append_uvarint (dst @ [ucast x OR 0x80]) (drop_bit 7 x)
      else dst @ [ucast x])"
  by pat_completeness auto
termination
proof (relation "measure (\<lambda>(_, x). unat x)")
  fix dst :: bytes and x :: u64
  assume "0x80 \<le> x"
  then show "((dst @ [ucast x OR 0x80], drop_bit 7 x), dst, x) \<in> measure (\<lambda>(_, x). unat x)"
    by (simp add: drop_bit_7_less)
qed simp

function uvarint_len_loop :: "nat \<Rightarrow> u64 \<Rightarrow> nat" where
  "uvarint_len_loop n x =
     (if 0x80 \<le> x then uvarint_len_loop (n + 1) (drop_bit 7 x) else n)"
  by pat_completeness auto
termination
proof (relation "measure (\<lambda>(_, x). unat x)")
  fix n :: nat and x :: u64
  assume "0x80 \<le> x"
  then show "((n + 1, drop_bit 7 x), n, x) \<in> measure (\<lambda>(_, x). unat x)"
    by (simp add: drop_bit_7_less)
qed simp

declare append_uvarint.simps [simp del] uvarint_len_loop.simps [simp del]

definition uvarint_len :: "u64 \<Rightarrow> nat" where
  "uvarint_len x = uvarint_len_loop 1 x"

text \<open>The loop of \<open>uvarint_slow\<close> at byte index \<open>i\<close> with accumulator \<open>x\<close> and shift \<open>s\<close>.\<close>

fun uvarint_loop :: "nat \<Rightarrow> u64 \<Rightarrow> nat \<Rightarrow> bytes \<Rightarrow> (u64 \<times> nat) option" where
  "uvarint_loop i x s [] = None"
| "uvarint_loop i x s (byte # bs) =
     (if i = 10 then None
      else if byte < 0x80 then
        (if i = 9 \<and> 1 < byte then None
         else Some (x OR push_bit s (ucast byte), i + 1))
      else uvarint_loop (i + 1) (x OR push_bit s (ucast (byte AND 0x7f))) (s + 7) bs)"

definition uvarint_slow :: "bytes \<Rightarrow> (u64 \<times> nat) option" where
  "uvarint_slow b = uvarint_loop 0 0 0 b"

fun uvarint :: "bytes \<Rightarrow> (u64 \<times> nat) option" where
  "uvarint [] = None"
| "uvarint (b0 # rest) =
     (if b0 < 0x80 then Some (ucast b0, 1)
      else case rest of
        [] \<Rightarrow> uvarint_slow (b0 # rest)
      | b1 # rest1 \<Rightarrow>
          if b1 < 0x80 then Some (ucast (b0 AND 0x7f) OR push_bit 7 (ucast b1), 2)
          else case rest1 of
            [] \<Rightarrow> uvarint_slow (b0 # rest)
          | b2 # rest2 \<Rightarrow>
              if b2 < 0x80
              then Some (ucast (b0 AND 0x7f) OR push_bit 7 (ucast (b1 AND 0x7f))
                     OR push_bit 14 (ucast b2), 3)
              else case rest2 of
                [] \<Rightarrow> uvarint_slow (b0 # rest)
              | b3 # rest3 \<Rightarrow>
                  if b3 < 0x80
                  then Some (ucast (b0 AND 0x7f) OR push_bit 7 (ucast (b1 AND 0x7f))
                         OR push_bit 14 (ucast (b2 AND 0x7f)) OR push_bit 21 (ucast b3), 4)
                  else uvarint_slow (b0 # rest))"

definition zigzag :: "i64 \<Rightarrow> u64" where
  "zigzag x = push_bit 1 x XOR signed_drop_bit 63 x"

definition append_varint :: "bytes \<Rightarrow> i64 \<Rightarrow> bytes" where
  "append_varint dst x = append_uvarint dst (zigzag x)"

definition varint_len :: "i64 \<Rightarrow> nat" where
  "varint_len x = uvarint_len (zigzag x)"

definition varint :: "bytes \<Rightarrow> (i64 \<times> nat) option" where
  "varint b = (case uvarint b of None \<Rightarrow> None
     | Some (ux, n) \<Rightarrow> Some (drop_bit 1 ux XOR - (ux AND 1), n))"

text \<open>\<open>to_le_bytes\<close> and \<open>from_le_bytes\<close> of the standard library for a width of \<open>n\<close> bytes.\<close>

definition to_le_bytes :: "nat \<Rightarrow> 'w::len word \<Rightarrow> bytes" where
  "to_le_bytes n x = map (\<lambda>i. ucast (drop_bit (8 * i) x)) [0..<n]"

fun from_le_bytes :: "bytes \<Rightarrow> 'w::len word" where
  "from_le_bytes [] = 0"
| "from_le_bytes (b # bs) = ucast b OR push_bit 8 (from_le_bytes bs)"

definition append_u32 :: "bytes \<Rightarrow> u32 \<Rightarrow> bytes" where
  "append_u32 dst x = dst @ to_le_bytes 4 x"

definition append_u64 :: "bytes \<Rightarrow> u64 \<Rightarrow> bytes" where
  "append_u64 dst x = dst @ to_le_bytes 8 x"

definition read_u32 :: "bytes \<Rightarrow> u32 result" where
  "read_u32 b = (if length b < 4 then Inl Panic else Inr (from_le_bytes (take 4 b)))"

definition read_u64 :: "bytes \<Rightarrow> u64 result" where
  "read_u64 b = (if length b < 8 then Inl Panic else Inr (from_le_bytes (take 8 b)))"

definition put_u32 :: "bytes \<Rightarrow> u32 \<Rightarrow> bytes result" where
  "put_u32 b x = (if length b < 4 then Inl Panic else Inr (to_le_bytes 4 x @ drop 4 b))"

definition put_u64 :: "bytes \<Rightarrow> u64 \<Rightarrow> bytes result" where
  "put_u64 b x = (if length b < 8 then Inl Panic else Inr (to_le_bytes 8 x @ drop 8 b))"

section \<open>Varints\<close>

lemma append_uvarint_acc: "append_uvarint dst x = dst @ append_uvarint [] x"
proof (induction "unat x" arbitrary: dst x rule: less_induct)
  case less
  show ?case
  proof (cases "0x80 \<le> x")
    case True
    have IH: "append_uvarint d (drop_bit 7 x) = d @ append_uvarint [] (drop_bit 7 x)" for d
      by (rule less) (rule drop_bit_7_less [OF True])
    show ?thesis
      by (subst (1 2) append_uvarint.simps) (simp add: True IH [of "[_]"] IH [of "dst @ [_]"])
  next
    case False
    then show ?thesis
      by (simp add: append_uvarint.simps [of dst x] append_uvarint.simps [of "[]" x])
  qed
qed

lemma append_uvarint_Nil:
  "append_uvarint [] x =
     (if 0x80 \<le> x then (ucast x OR 0x80) # append_uvarint [] (drop_bit 7 x) else [ucast x])"
  by (subst append_uvarint.simps) (simp add: append_uvarint_acc [of "[_]"])

lemma cont_byte_not_less: "\<not> (ucast (x :: u64) OR 0x80 :: u8) < 0x80"
  using le_word_or1 [of "0x80 :: u8" "ucast x"] by (simp add: not_less)

lemma cont_byte_payload:
  "ucast ((ucast (x :: u64) OR 0x80 :: u8) AND 0x7f) = take_bit 7 x"
proof (rule bit_word_eqI)
  fix n assume "n < LENGTH(64)"
  have "bit (0x80 :: u8) n \<longleftrightarrow> n = 7"
    using bit_exp_iff [where 'a = u8, of 7 n] by auto
  moreover have "bit (0x7f :: u8) n \<longleftrightarrow> n < 7"
    using bit_mask_iff [where 'a = u8, of 7 n] by (auto simp: mask_eq_exp_minus_1)
  ultimately show "bit (ucast ((ucast x OR 0x80 :: u8) AND 0x7f) :: u64) n \<longleftrightarrow> bit (take_bit 7 x) n"
    by (auto simp: bit_simps)
qed

lemma last_byte:
  assumes "\<not> 0x80 \<le> (x :: u64)"
  shows "(ucast x :: u8) < 0x80" and "ucast (ucast x :: u8) = x"
proof -
  from assms have "unat x < 128" by (simp add: word_le_nat_alt)
  then show "(ucast x :: u8) < 0x80"
    by (simp add: word_less_nat_alt unsigned_ucast_eq take_bit_eq_mod)
  from \<open>unat x < 128\<close> have "unat (ucast (ucast x :: u8) :: u64) = unat x"
    by (simp add: unsigned_ucast_eq) (simp add: unsigned_take_bit_eq take_bit_nat_eq_self)
  then show "ucast (ucast x :: u8) = x" by (simp only: word_unat_eq_iff)
qed

lemma push_bit_split:
  "push_bit s (take_bit 7 x) OR push_bit (s + 7) (drop_bit 7 (x :: u64)) = push_bit s x"
proof (rule bit_word_eqI)
  fix n
  show "bit (push_bit s (take_bit 7 x) OR push_bit (s + 7) (drop_bit 7 x)) n = bit (push_bit s x) n"
  proof (cases "s + 7 \<le> n")
    case True
    then have "7 + (n - (s + 7)) = n - s" by simp
    with True show ?thesis by (auto simp: bit_simps)
  next
    case False
    then show ?thesis by (auto simp: bit_simps)
  qed
qed

lemma uvarint_loop_append:
  assumes "unat x < 2 ^ (64 - 7 * i)" and "i \<le> 9"
  shows "uvarint_loop i acc (7 * i) (append_uvarint [] x @ rest) =
     Some (acc OR push_bit (7 * i) x, i + length (append_uvarint [] x))"
  using assms
proof (induction "unat x" arbitrary: x i acc rule: less_induct)
  case less
  show ?case
  proof (cases "0x80 \<le> x")
    case True
    then have big: "128 \<le> unat x" by (simp add: word_le_nat_alt)
    have i: "i < 9"
    proof (rule ccontr)
      assume "\<not> i < 9"
      with less.prems(2) have "i = 9" by linarith
      with less.prems(1) have "unat x < 2" by simp
      with big show False by linarith
    qed
    have "unat x div 128 < 2 ^ (64 - 7 * (i + 1))"
    proof -
      have "64 - 7 * i = (64 - 7 * (i + 1)) + 7" using i by arith
      then have "(2 :: nat) ^ (64 - 7 * i) = 2 ^ (64 - 7 * (i + 1)) * 128"
        by (simp only: power_add) simp
      with less.prems(1) have "unat x < 2 ^ (64 - 7 * (i + 1)) * 128" by (simp only:)
      then show ?thesis by (rule less_mult_imp_div_less)
    qed
    then have IH: "uvarint_loop (i + 1) acc' (7 * (i + 1)) (append_uvarint [] (drop_bit 7 x) @ rest) =
        Some (acc' OR push_bit (7 * (i + 1)) (drop_bit 7 x),
          i + 1 + length (append_uvarint [] (drop_bit 7 x)))" for acc'
      using i by (intro less.hyps [OF drop_bit_7_less [OF True]])
        (subst unat_drop_bit_7, assumption, linarith)
    have "uvarint_loop i acc (7 * i) (append_uvarint [] x @ rest) =
        uvarint_loop (i + 1) (acc OR push_bit (7 * i) (take_bit 7 x)) (7 * (i + 1))
          (append_uvarint [] (drop_bit 7 x) @ rest)"
      using True i cont_byte_not_less [of x]
      by (subst append_uvarint_Nil) (simp add: cont_byte_payload add.commute)
    also have "\<dots> = Some (acc OR push_bit (7 * i) x, i + length (append_uvarint [] x))"
      using True push_bit_split [of "7 * i" x]
      by (subst IH) (simp add: append_uvarint_Nil [of x] or.assoc add.commute)
    finally show ?thesis .
  next
    case False
    have "\<not> (i = 9 \<and> (1 :: u8) < ucast x)"
    proof
      assume a: "i = 9 \<and> (1 :: u8) < ucast x"
      with less.prems(1) have "unat x < 2" by simp
      then have "unat (ucast x :: u8) < 2" by (simp add: unsigned_ucast_eq take_bit_eq_mod)
      with a show False by (simp add: word_less_nat_alt)
    qed
    moreover have "i \<noteq> 10" using less.prems(2) by linarith
    ultimately show ?thesis
      using False last_byte [OF False] by (simp add: append_uvarint_Nil [of x])
  qed
qed

lemma uvarint_eq_slow: "uvarint b = uvarint_slow b"
proof (cases b rule: uvarint.cases)
  case 1
  then show ?thesis by (simp add: uvarint_slow_def)
next
  case (2 b0 rest)
  then show ?thesis
    by (cases rest rule: list.exhaust; cases "tl rest"; cases "tl (tl rest)")
       (simp_all add: uvarint_slow_def or.assoc)
qed

lemma uvarint_append [wire_simps]:
  "uvarint (append_uvarint [] x @ rest) = Some (x, length (append_uvarint [] x))"
  using uvarint_loop_append [of x 0 0 rest] unsigned_less [of x]
  by (simp add: uvarint_eq_slow uvarint_slow_def)

lemma uvarint_append_only [wire_simps]:
  "uvarint (append_uvarint [] x) = Some (x, length (append_uvarint [] x))"
  using uvarint_append [of x "[]"] by simp

lemma uvarint_len_loop_eq: "uvarint_len_loop n x = n + length (append_uvarint [] x) - 1"
proof (induction "unat x" arbitrary: n x rule: less_induct)
  case less
  show ?case
  proof (cases "0x80 \<le> x")
    case True
    with less [OF drop_bit_7_less [OF True], of "n + 1"] show ?thesis
      by (simp add: uvarint_len_loop.simps [of n x] append_uvarint_Nil [of x])
  next
    case False
    then show ?thesis
      by (simp add: uvarint_len_loop.simps [of n x] append_uvarint_Nil [of x])
  qed
qed

lemma uvarint_len_eq: "uvarint_len x = length (append_uvarint [] x)"
  by (simp add: uvarint_len_def uvarint_len_loop_eq)

lemma length_append_uvarint_pos: "0 < length (append_uvarint [] x)"
  by (subst append_uvarint_Nil) simp

lemma uvarint_loop_bounds:
  "uvarint_loop i x s b = Some (v, n) \<Longrightarrow> i < n \<and> n \<le> i + length b \<and> (i \<le> 10 \<longrightarrow> n \<le> 10)"
  by (induction i x s b rule: uvarint_loop.induct) (fastforce split: if_splits)+

lemma uvarint_bounds:
  assumes "uvarint b = Some (v, n)"
  shows "0 < n" and "n \<le> length b" and "n \<le> 10"
  using uvarint_loop_bounds [of 0 0 0 b v n] assms
  by (simp_all add: uvarint_eq_slow uvarint_slow_def)

section \<open>Zig-zag integers\<close>

lemma zigzag_inverse: "drop_bit 1 (zigzag x) XOR - (zigzag x AND 1) = x"
proof -
  have sign: "signed_drop_bit 63 x = (if bit x 63 then - 1 else 0)"
  proof (rule bit_word_eqI)
    fix n assume "n < LENGTH(64)"
    then show "bit (signed_drop_bit 63 x) n \<longleftrightarrow> bit (if bit x 63 then - 1 else 0 :: i64) n"
      by (cases n) (auto simp: bit_signed_drop_bit_iff)
  qed
  have bit_zigzag: "bit (zigzag x) n \<longleftrightarrow> n < 64 \<and> (0 < n \<and> bit x (n - 1)) \<noteq> bit x 63" for n
    unfolding zigzag_def sign bit_xor_iff bit_push_bit_iff by auto
  have low: "zigzag x AND 1 = (if bit x 63 then 1 else 0)"
    by (rule bit_word_eqI) (auto simp: bit_and_iff bit_1_iff bit_zigzag)
  show ?thesis
  proof (rule bit_word_eqI)
    fix n assume n: "n < LENGTH(64)"
    have "bit (drop_bit 1 (zigzag x)) n \<longleftrightarrow> n < 63 \<and> bit x n \<noteq> bit x 63"
      unfolding bit_drop_bit_eq comp_def bit_zigzag by auto
    moreover have "n = 63" if "\<not> n < 63" using n that by simp
    ultimately show "bit (drop_bit 1 (zigzag x) XOR - (zigzag x AND 1)) n \<longleftrightarrow> bit x n"
      unfolding low bit_xor_iff using n by (cases "n < 63") (auto simp del: One_nat_def)
  qed
qed

lemma varint_append [wire_simps]:
  "varint (append_varint [] x @ rest) = Some (x, varint_len x)"
  by (simp add: varint_def append_varint_def varint_len_def uvarint_append uvarint_len_eq
      zigzag_inverse del: One_nat_def)

section \<open>Fixed-width integers\<close>

lemma length_to_le_bytes [simp]: "length (to_le_bytes n x) = n"
  by (simp add: to_le_bytes_def)

lemma to_le_bytes_Suc: "to_le_bytes (Suc n) x = ucast x # to_le_bytes n (drop_bit 8 x)"
  by (simp add: to_le_bytes_def map_upt_Suc algebra_simps del: upt_Suc)

lemma from_to_le_bytes: "from_le_bytes (to_le_bytes n x) = take_bit (8 * n) (x :: 'w::len word)"
proof (induction n arbitrary: x)
  case 0
  then show ?case by (simp add: to_le_bytes_def)
next
  case (Suc n)
  show ?case
    unfolding to_le_bytes_Suc from_le_bytes.simps Suc
    by (rule bit_word_eqI) (auto simp: bit_simps)
qed

lemma from_to_le_bytes_u32 [wire_simps]: "from_le_bytes (to_le_bytes 4 x) = (x :: u32)"
  by (simp add: from_to_le_bytes take_bit_word_eq_self)

lemma from_to_le_bytes_u64 [wire_simps]: "from_le_bytes (to_le_bytes 8 x) = (x :: u64)"
  by (simp add: from_to_le_bytes take_bit_word_eq_self)

lemma read_append_u32 [wire_simps]: "read_u32 (to_le_bytes 4 x @ rest) = Inr x"
  by (simp add: read_u32_def from_to_le_bytes_u32)

lemma read_append_u64 [wire_simps]: "read_u64 (to_le_bytes 8 x @ rest) = Inr x"
  by (simp add: read_u64_def from_to_le_bytes_u64)

lemma read_u32_no_panic: "4 \<le> length b \<Longrightarrow> read_u32 b \<noteq> Inl e"
  by (simp add: read_u32_def)

lemma read_u64_no_panic: "8 \<le> length b \<Longrightarrow> read_u64 b \<noteq> Inl e"
  by (simp add: read_u64_def)

section \<open>Properties\<close>


text \<open>
  C32. On arbitrary bytes the unrolled decoder agrees with the byte-at-a-time loop it
  replaces, and what it reports as consumed is at least one byte, at most ten, and never
  past the end of the buffer.
\<close>

theorem uvarint_decode_exact:
  "uvarint b = uvarint_slow b
   \<and> (case uvarint b of None \<Rightarrow> True
      | Some (v, n) \<Rightarrow> 0 < n \<and> n \<le> length b \<and> n \<le> 10)"
  using uvarint_eq_slow [of b] uvarint_bounds [of b] by (auto split: option.split)

end
