(* ===== verification/Key_Comparator.thy ===== *)
theory Key_Comparator
  imports Prelude
begin

unbundle bit_operations_syntax

text \<open>
  The key comparators of \<open>src/src/comparator.rs\<close>: the six built-ins, a custom closure,
  and their resolution by persisted name. Every built-in is shown to satisfy the
  contract \<open>key_order\<close> that the trait documents; the other components are verified for
  any comparator with that contract, so each of their lemmas holds for each built-in.
\<close>

section \<open>Definitions\<close>

datatype comparator =
    Bytewise
  | ReverseBytewise
  | Lexicographic
  | Uint64Cmp
  | Int64Cmp
  | CaseInsensitive
  | FnComparator string "bytes \<Rightarrow> bytes \<Rightarrow> ordering"

text \<open>\<open>u64::from_be_bytes\<close> of the first 8 bytes; the callers check the length first.\<close>

definition from_be_bytes :: "bytes \<Rightarrow> u64" where
  "from_be_bytes b = foldl (\<lambda>acc x. acc * 256 + ucast x) 0 b"

definition be_u64 :: "bytes \<Rightarrow> u64" where
  "be_u64 b = from_be_bytes (take 8 b)"

definition int64_rank :: "bytes \<Rightarrow> bytes \<times> u8 \<times> i64" where
  "int64_rank k =
     (if length k = 8 \<and> k ! 0 AND 0x80 \<noteq> 0 then (replicate 8 0, 0, be_u64 k) else (k, 1, 0))"

text \<open>\<open>Ord\<close> of the tuple \<open>(&[u8], u8, i64)\<close>: field by field, the last one signed.\<close>

definition rank_cmp :: "bytes \<times> u8 \<times> i64 \<Rightarrow> bytes \<times> u8 \<times> i64 \<Rightarrow> ordering" where
  "rank_cmp p q =
     then_with (slice_cmp (fst p) (fst q))
       (then_with (ord_cmp (fst (snd p)) (fst (snd q)))
          (ord_cmp (sint (snd (snd p))) (sint (snd (snd q)))))"

definition to_ascii_lowercase :: "u8 \<Rightarrow> u8" where
  "to_ascii_lowercase c = (if 0x41 \<le> c \<and> c \<le> 0x5A then c OR 0x20 else c)"

text \<open>
  The loop over the common prefix of \<open>a\<close> and \<open>b\<close>: the first pair of bytes that differ
  ignoring case decides, and \<open>Equal\<close> means the loop ran to its end.
\<close>

fun fold_case_cmp :: "bytes \<Rightarrow> bytes \<Rightarrow> ordering" where
  "fold_case_cmp (x # xs) (y # ys) =
     (case ord_cmp (to_ascii_lowercase x) (to_ascii_lowercase y) of
        Equal \<Rightarrow> fold_case_cmp xs ys
      | non_eq \<Rightarrow> non_eq)"
| "fold_case_cmp _ _ = Equal"

definition case_insensitive_cmp :: "bytes \<Rightarrow> bytes \<Rightarrow> ordering" where
  "case_insensitive_cmp a b =
     then_with (fold_case_cmp a b) (then_with (ord_cmp (length a) (length b)) (slice_cmp a b))"

fun compare :: "comparator \<Rightarrow> bytes \<Rightarrow> bytes \<Rightarrow> ordering" where
  "compare Bytewise a b = slice_cmp a b"
| "compare ReverseBytewise a b = slice_cmp b a"
| "compare Lexicographic a b = slice_cmp a b"
| "compare Uint64Cmp a b =
     (if length a = 8 \<and> length b = 8 then ord_cmp (be_u64 a) (be_u64 b) else slice_cmp a b)"
| "compare Int64Cmp a b =
     (if length a = 8 \<and> length b = 8 then ord_cmp (sint (be_u64 a)) (sint (be_u64 b))
      else rank_cmp (int64_rank a) (int64_rank b))"
| "compare CaseInsensitive a b = case_insensitive_cmp a b"
| "compare (FnComparator _ f) a b = f a b"

fun comparator_name :: "comparator \<Rightarrow> string" where
  "comparator_name Bytewise = ''memcmp''"
| "comparator_name ReverseBytewise = ''reverse''"
| "comparator_name Lexicographic = ''lexicographic''"
| "comparator_name Uint64Cmp = ''uint64''"
| "comparator_name Int64Cmp = ''int64''"
| "comparator_name CaseInsensitive = ''case_insensitive''"
| "comparator_name (FnComparator n _) = n"

fun is_bytewise :: "comparator \<Rightarrow> bool" where
  "is_bytewise Bytewise = True"
| "is_bytewise Lexicographic = True"
| "is_bytewise _ = False"

definition comparator_by_name :: "string \<Rightarrow> comparator option" where
  "comparator_by_name n =
     (if n = '''' \<or> n = ''memcmp'' then Some Bytewise
      else if n = ''reverse'' then Some ReverseBytewise
      else if n = ''lexicographic'' then Some Lexicographic
      else if n = ''uint64'' then Some Uint64Cmp
      else if n = ''int64'' then Some Int64Cmp
      else if n = ''case_insensitive'' then Some CaseInsensitive
      else None)"

definition resolve_comparator :: "string \<Rightarrow> comparator list \<Rightarrow> comparator option" where
  "resolve_comparator n registry =
     (case comparator_by_name n of
        Some c \<Rightarrow> Some c
      | None \<Rightarrow> find (\<lambda>c. comparator_name c = n) registry)"

definition default_comparator :: comparator where
  "default_comparator = Bytewise"

section \<open>The numeric comparators\<close>

text \<open>The number a byte string stands for in big-endian notation.\<close>

fun be_nat :: "bytes \<Rightarrow> nat" where
  "be_nat [] = 0"
| "be_nat (x # b) = unat x * 256 ^ length b + be_nat b"

lemma unat_byte_less: "unat (x :: u8) < 256"
  using unsigned_less [of x] by simp

lemma be_nat_less: "be_nat b < 256 ^ length b"
proof (induction b)
  case Nil
  then show ?case by simp
next
  case (Cons x b)
  have "unat x * 256 ^ length b + be_nat b < (unat x + 1) * 256 ^ length b"
    using Cons by simp
  also have "\<dots> \<le> 256 * 256 ^ length b"
    using unat_byte_less [of x] by (intro mult_right_mono) simp_all
  finally show ?case by (simp add: be_nat.simps)
qed

lemma from_be_bytes_eq: "from_be_bytes b = of_nat (be_nat b)"
proof -
  have "foldl (\<lambda>acc x. acc * 256 + ucast x) acc b = (acc * 256 ^ length b + of_nat (be_nat b) :: u64)"
    for acc
    by (induction b arbitrary: acc) (simp_all add: algebra_simps)
  from this [of 0] show ?thesis by (simp add: from_be_bytes_def)
qed

lemma unat_be_u64: "length b = 8 \<Longrightarrow> unat (be_u64 b) = be_nat b"
  using be_nat_less [of b]
  by (simp add: be_u64_def from_be_bytes_eq unat_of_nat)

lemma be_nat_slice_cmp:
  "length a = length b \<Longrightarrow> slice_cmp a b = ord_cmp (be_nat a) (be_nat b)"
proof (induction a b rule: slice_cmp.induct)
  case (4 x xs y ys)
  let ?p = "256 ^ length ys :: nat"
  from 4 have len: "length xs = length ys" by simp
  have bounds: "be_nat xs < ?p" "be_nat ys < ?p"
    using be_nat_less [of xs] be_nat_less [of ys] len by simp_all
  have mono: "unat u * ?p + m < unat v * ?p + n" if "u < v" "m < ?p" for u v :: u8 and m n
  proof -
    from that have "unat u + 1 \<le> unat v" by (simp add: word_less_nat_alt)
    then have "(unat u + 1) * ?p \<le> unat v * ?p" by (rule mult_right_mono) simp
    with that(2) show ?thesis by (simp add: algebra_simps)
  qed
  show ?case
  proof (cases "x = y")
    case True
    with 4 len show ?thesis
      by (simp add: be_nat.simps then_with_def ord_cmp_def)
  next
    case False
    then consider "x < y" | "y < x" by fastforce
    then show ?thesis
      using mono [of x y "be_nat xs" "be_nat ys"] mono [of y x "be_nat ys" "be_nat xs"] bounds len
      by cases (auto simp: be_nat.simps then_with_def ord_cmp_def)
  qed
qed (auto simp: ord_cmp_def)

lemma uint64_is_bytewise: "compare Uint64Cmp a b = compare Bytewise a b"
  using be_nat_slice_cmp [of a b]
  by (auto simp: ord_cmp_def word_less_nat_alt unat_be_u64)

lemma odd_unat_div_128: "odd (unat (x :: u8) div 128) \<longleftrightarrow> 128 \<le> unat x"
proof (cases "unat x < 128")
  case False
  then have "unat x div 128 = 1"
    using unat_byte_less [of x] by (simp add: div_nat_eqI)
  with False show ?thesis by simp
qed simp

lemma sign_bit_iff: "(x :: u8) AND 0x80 \<noteq> 0 \<longleftrightarrow> 128 \<le> unat x"
proof -
  have "x AND 0x80 \<noteq> 0 \<longleftrightarrow> bit x 7"
    using and_exp_eq_0_iff_not_bit [of x 7] by simp
  also have "\<dots> \<longleftrightarrow> odd (unat x div 128)"
    using bit_iff_odd [of "unat x" 7] by (simp add: bit_unsigned_iff)
  also have "\<dots> \<longleftrightarrow> 128 \<le> unat x"
    by (rule odd_unat_div_128)
  finally show ?thesis .
qed

lemma sint_be_u64:
  assumes "length k = 8"
  shows "sint (be_u64 k) = (if k ! 0 AND 0x80 \<noteq> 0 then int (be_nat k) - 2 ^ 64 else int (be_nat k))"
proof -
  from assms obtain x t where k: "k = x # t" and t: "length t = 7"
    by (cases k) auto
  have small: "be_nat t < 256 ^ 7" using be_nat_less [of t] t by simp
  have "bit (be_u64 k) 63 \<longleftrightarrow> bit (unat (be_u64 k)) 63"
    by (simp add: bit_unsigned_iff)
  also have "\<dots> \<longleftrightarrow> odd (be_nat k div 2 ^ 63)"
    by (simp only: unat_be_u64 [OF assms] bit_iff_odd)
  also have "\<dots> \<longleftrightarrow> 128 \<le> unat x"
  proof -
    have "be_nat k div 2 ^ 63 = unat x div 128"
    proof -
      have "be_nat k div 2 ^ 63 = be_nat k div 256 ^ 7 div 128"
        by (simp add: div_mult2_eq [symmetric])
      also have "be_nat k div 256 ^ 7 = unat x"
        using small t by (simp add: k)
      finally show ?thesis .
    qed
    then show ?thesis by (simp only: odd_unat_div_128)
  qed
  finally have neg: "bit (be_u64 k) 63 \<longleftrightarrow> k ! 0 AND 0x80 \<noteq> 0"
    by (simp add: k sign_bit_iff)
  have "sint (be_u64 k) = uint (be_u64 k) - 2 ^ 64 * of_bool (bit (be_u64 k) 63)"
    by (simp add: sint_uint signed_take_bit_eq_take_bit_minus bit_unsigned_iff
        take_bit_int_eq_self unsigned_less [of "be_u64 k", simplified])
  then show ?thesis
    unfolding neg by (simp add: uint_nat unat_be_u64 [OF assms])
qed

lemma replicate_0_be_nat: "be_nat (replicate n 0) = 0"
  by (induction n) simp_all

lemma int64_rank_8:
  assumes "length a = 8" and "length b = 8"
  shows "ord_cmp (sint (be_u64 a)) (sint (be_u64 b)) = rank_cmp (int64_rank a) (int64_rank b)"
proof -
  have lt: "be_nat a < 2 ^ 64" "be_nat b < 2 ^ 64"
    using be_nat_less [of a] be_nat_less [of b] assms by simp_all
  have zero: "slice_cmp (replicate 8 0) b = ord_cmp 0 (be_nat b)"
    "slice_cmp a (replicate 8 0) = ord_cmp (be_nat a) 0"
    using be_nat_slice_cmp [of "replicate 8 0" b] be_nat_slice_cmp [of a "replicate 8 0"] assms
    by (simp_all only: replicate_0_be_nat length_replicate)
  have same: "slice_cmp (replicate 8 0 :: bytes) (replicate 8 0) = Equal"
    by (simp only: slice_cmp_Equal)
  show ?thesis
    using lt be_nat_slice_cmp [of a b] assms
    unfolding rank_cmp_def int64_rank_def sint_be_u64 [OF assms(1)] sint_be_u64 [OF assms(2)]
    by (auto simp: ord_cmp_def then_with_def zero same sint_be_u64)
qed

lemma int64_rank_inj: "int64_rank a = int64_rank b \<Longrightarrow> a = b"
proof (cases "(length a = 8 \<and> a ! 0 AND 0x80 \<noteq> 0) \<and> (length b = 8 \<and> b ! 0 AND 0x80 \<noteq> 0)")
  case True
  assume "int64_rank a = int64_rank b"
  with True have "be_u64 a = be_u64 b" by (simp add: int64_rank_def)
  with True have "be_nat a = be_nat b" by (metis unat_be_u64)
  with True have "slice_cmp a b = Equal" by (simp add: be_nat_slice_cmp ord_cmp_def)
  then show ?thesis by (simp add: slice_cmp_Equal)
next
  case False
  assume "int64_rank a = int64_rank b"
  with False show ?thesis by (auto simp: int64_rank_def split: if_splits)
qed

lemma key_order_rank_cmp: "key_order rank_cmp"
proof -
  have "key_order (\<lambda>p q :: u8 \<times> i64. then_with (ord_cmp (fst p) (fst q)) (ord_cmp (sint (snd p)) (sint (snd q))))"
    by (rule key_order_then_with [OF key_order_ord_cmp
          key_order_inj [OF key_order_ord_cmp, of sint], of fst snd]) (auto simp: prod_eq_iff dest: signed_word_eqI)
  then have "key_order (\<lambda>p q :: bytes \<times> u8 \<times> i64. then_with (slice_cmp (fst p) (fst q))
      (then_with (ord_cmp (fst (snd p)) (fst (snd q))) (ord_cmp (sint (snd (snd p))) (sint (snd (snd q))))))"
    by (rule key_order_then_with [OF key_order_slice_cmp, of _ fst snd]) (auto simp: prod_eq_iff)
  then show ?thesis by (simp only: rank_cmp_def [abs_def])
qed

lemma int64_is_rank_cmp: "compare Int64Cmp a b = rank_cmp (int64_rank a) (int64_rank b)"
  by (simp add: int64_rank_8)

section \<open>Case-insensitive order\<close>

lemma slice_cmp_Nil:
  "slice_cmp [] b = ord_cmp 0 (length b)"
  "slice_cmp a [] = ord_cmp (length a) 0"
  by (cases b; simp add: ord_cmp_def) (cases a; simp add: ord_cmp_def)

lemma fold_case_slice_cmp:
  "then_with (fold_case_cmp a b) (ord_cmp (length a) (length b)) =
     slice_cmp (map to_ascii_lowercase a) (map to_ascii_lowercase b)"
proof (induction a b rule: fold_case_cmp.induct)
  case (1 x xs y ys)
  then show ?case
    by (cases "ord_cmp (to_ascii_lowercase x) (to_ascii_lowercase y)") simp_all
qed (simp_all add: slice_cmp_Nil then_with_def)

lemma then_with_assoc: "then_with c (then_with d e) = then_with (then_with c d) e"
  by (cases c) (auto simp: then_with_def)

lemma case_insensitive_eq:
  "case_insensitive_cmp a b =
     then_with (slice_cmp (map to_ascii_lowercase a) (map to_ascii_lowercase b)) (slice_cmp a b)"
  by (simp add: case_insensitive_cmp_def then_with_assoc fold_case_slice_cmp)

section \<open>Every built-in meets the contract\<close>

lemma compare_builtin_eqs:
  "compare Bytewise = slice_cmp"
  "compare ReverseBytewise = (\<lambda>a b. slice_cmp b a)"
  "compare Lexicographic = slice_cmp"
  "compare Uint64Cmp = slice_cmp"
  "compare Int64Cmp = (\<lambda>a b. rank_cmp (int64_rank a) (int64_rank b))"
  "compare CaseInsensitive = (\<lambda>a b. then_with
     (slice_cmp (map to_ascii_lowercase a) (map to_ascii_lowercase b)) (slice_cmp (id a) (id b)))"
  using uint64_is_bytewise int64_is_rank_cmp
  by (auto simp: fun_eq_iff case_insensitive_eq simp del: compare.simps(4,5))

text \<open>
  The contract of \<open>Comparator\<close>, as the components that take a \<open>ComparatorRef\<close> rely on it;
  every built-in comparator meets it.
\<close>

locale user_key_order = key_order cmp for cmp :: "bytes \<Rightarrow> bytes \<Rightarrow> ordering"

lemmas user_key_orderI = user_key_order.intro

interpretation bytewise: user_key_order "compare Bytewise"
  unfolding compare_builtin_eqs by (rule user_key_orderI [OF key_order_slice_cmp])

interpretation reverse_bytewise: user_key_order "compare ReverseBytewise"
  unfolding compare_builtin_eqs
  by (rule user_key_orderI [OF key_order_reverse [OF key_order_slice_cmp]])

interpretation lexicographic: user_key_order "compare Lexicographic"
  unfolding compare_builtin_eqs by (rule user_key_orderI [OF key_order_slice_cmp])

interpretation uint64: user_key_order "compare Uint64Cmp"
  unfolding compare_builtin_eqs by (rule user_key_orderI [OF key_order_slice_cmp])

interpretation int64: user_key_order "compare Int64Cmp"
  unfolding compare_builtin_eqs
  by (rule user_key_orderI [OF key_order_inj [OF key_order_rank_cmp int64_rank_inj]])

interpretation case_insensitive: user_key_order "compare CaseInsensitive"
  unfolding compare_builtin_eqs
  by (rule user_key_orderI [OF key_order_then_with [OF key_order_slice_cmp key_order_slice_cmp]]) simp

lemma comparator_by_name_cases:
  assumes "comparator_by_name n = Some c"
  shows "c \<in> {Bytewise, ReverseBytewise, Lexicographic, Uint64Cmp, Int64Cmp, CaseInsensitive}"
    and "n = '''' \<or> comparator_name c = n"
  using assms by (auto simp: comparator_by_name_def split: if_splits)

lemma resolve_comparator_order:
  assumes "resolve_comparator n registry = Some cmp"
    and "\<forall>d \<in> set registry. user_key_order (compare d)"
  shows "user_key_order (compare cmp)"
proof (cases "comparator_by_name n")
  case None
  with assms show ?thesis
    by (auto simp: resolve_comparator_def find_Some_iff)
next
  case (Some c)
  with assms(1) have "comparator_by_name n = Some cmp" by (simp add: resolve_comparator_def)
  then show ?thesis
    using comparator_by_name_cases(1) [of n cmp] bytewise.user_key_order_axioms
      reverse_bytewise.user_key_order_axioms lexicographic.user_key_order_axioms
      uint64.user_key_order_axioms int64.user_key_order_axioms
      case_insensitive.user_key_order_axioms by auto
qed


section \<open>Properties\<close>

text \<open>
  C33. Every comparator a persisted name resolves to is a total order on byte strings:
  only equal keys compare equal, swapping the arguments reverses the answer, and the
  order is transitive. The registered comparators are assumed to be such orders; the
  built-in ones, mixed-length integer keys included, are proved to be. A non-empty name
  resolves to a comparator that carries it, and one that reports itself bytewise compares
  the bytes.
\<close>

theorem resolved_comparator_total:
  assumes "resolve_comparator n registry = Some cmp"
    and "\<forall>d \<in> set registry. user_key_order (compare d)"
  shows "(compare cmp a b = Equal \<longleftrightarrow> a = b)
    \<and> compare cmp a b = reverse_ord (compare cmp b a)
    \<and> (is_le (compare cmp a b) \<longrightarrow> is_le (compare cmp b c) \<longrightarrow> is_le (compare cmp a c))
    \<and> (n \<noteq> '''' \<longrightarrow> comparator_name cmp = n)
    \<and> (is_bytewise cmp \<longrightarrow> compare cmp a b = slice_cmp a b)"
proof -
  have "user_key_order (compare cmp)"
    using assms resolve_comparator_order by blast
  then have "key_order (compare cmp)"
    by (rule user_key_order.axioms)
  moreover have "n \<noteq> '''' \<longrightarrow> comparator_name cmp = n"
    using assms(1) comparator_by_name_cases(2) [of n cmp]
    by (auto simp: resolve_comparator_def find_Some_iff split: option.splits)
  moreover have "is_bytewise cmp \<longrightarrow> compare cmp a b = slice_cmp a b"
    by (cases cmp) simp_all
  ultimately show ?thesis
    unfolding key_order_def by blast
qed

theorem resolved_comparator_total_witness:
  "resolve_comparator ''uint64'' [ReverseBytewise] = Some Uint64Cmp
   \<and> compare Uint64Cmp [1] [2] = reverse_ord (compare Uint64Cmp [2] [1])
   \<and> comparator_name Uint64Cmp = ''uint64''"
proof -
  have r: "resolve_comparator ''uint64'' [ReverseBytewise] = Some Uint64Cmp"
    by (simp add: resolve_comparator_def comparator_by_name_def)
  moreover have "\<forall>d \<in> set [ReverseBytewise]. user_key_order (compare d)"
    using reverse_bytewise.user_key_order_axioms by simp
  ultimately show ?thesis
    using resolved_comparator_total [of "''uint64''" "[ReverseBytewise]" Uint64Cmp "[1]" "[2]" "[3]"]
    by simp
qed

end
