(* ===== verification/Format.thy ===== *)
theory Format
  imports Encoding Key_Comparator
begin

unbundle bit_operations_syntax

text \<open>
  The on-disk numbers of \<open>src/src/format.rs\<close> that carry logic: entry flags and their
  normalisation, capability words, record kinds, modifiers, the FNV-1a column-family id
  and the MVCC internal key (user key followed by the complemented sequence number).

  The lemmas show that every flag byte a writer can build passes the strict decoder's
  check, that the checks classify every kind, and that an internal key splits back into
  the parts it was made of and sorts newer versions of one key first.
\<close>

section \<open>Entry flags\<close>

definition TOMBSTONE :: u8 where "TOMBSTONE = 0x01"
definition HAS_TTL :: u8 where "HAS_TTL = 0x02"
definition HAS_VLOG :: u8 where "HAS_VLOG = 0x04"
definition SINGLE_DELETE :: u8 where "SINGLE_DELETE = 0x10"

definition KNOWN_ENTRY_FLAGS :: u8 where
  "KNOWN_ENTRY_FLAGS = TOMBSTONE OR HAS_TTL OR HAS_VLOG OR SINGLE_DELETE"

lemmas flag_defs = TOMBSTONE_def HAS_TTL_def HAS_VLOG_def SINGLE_DELETE_def

definition normalized_entry_flags :: "bool \<Rightarrow> bool \<Rightarrow> bool \<Rightarrow> bool \<Rightarrow> u8" where
  "normalized_entry_flags tombstone single_delete has_ttl has_vlog =
     (let tombstone = tombstone \<or> single_delete;
          fl = 0;
          fl = (if tombstone then fl OR TOMBSTONE else fl);
          fl = (if single_delete then fl OR SINGLE_DELETE else fl);
          fl = (if has_ttl then fl OR HAS_TTL else fl);
          fl = (if has_vlog \<and> \<not> tombstone then fl OR HAS_VLOG else fl)
      in fl)"

definition check_entry_flags :: "u8 \<Rightarrow> unit result" where
  "check_entry_flags fl =
     (if fl AND NOT KNOWN_ENTRY_FLAGS \<noteq> 0
      then Inl (Corruption ''entry flags outside known mask'')
      else if fl AND SINGLE_DELETE \<noteq> 0 \<and> fl AND TOMBSTONE = 0
      then Inl (Corruption ''entry flags: SINGLE_DELETE without TOMBSTONE'')
      else if fl AND TOMBSTONE \<noteq> 0 \<and> fl AND HAS_VLOG \<noteq> 0
      then Inl (Corruption ''entry flags: TOMBSTONE with HAS_VLOG'')
      else Inr ())"

section \<open>Capabilities\<close>

definition CAP_EXTENDED_RECORDS :: u64 where "CAP_EXTENDED_RECORDS = 0x1"
definition CAP_MERGE_OPERANDS :: u64 where "CAP_MERGE_OPERANDS = 0x2"
definition CAP_RANGE_DELETES :: u64 where "CAP_RANGE_DELETES = 0x4"
definition CAP_PREFIX_DELTA :: u64 where "CAP_PREFIX_DELTA = 0x8"
definition CAP_MANIFEST_EDITS :: u64 where "CAP_MANIFEST_EDITS = 0x10"
definition CAP_PERIODIC_AGE :: u64 where "CAP_PERIODIC_AGE = 0x20"
definition CAP_TXN_DECISIONS :: u64 where "CAP_TXN_DECISIONS = 0x40"
definition CAP_WAL_FLOOR :: u64 where "CAP_WAL_FLOOR = 0x800"

definition KNOWN_CAPS :: u64 where
  "KNOWN_CAPS = CAP_EXTENDED_RECORDS OR CAP_MERGE_OPERANDS OR CAP_RANGE_DELETES
     OR CAP_PREFIX_DELTA OR CAP_MANIFEST_EDITS OR CAP_PERIODIC_AGE OR CAP_TXN_DECISIONS
     OR CAP_WAL_FLOOR"

lemmas cap_defs = CAP_EXTENDED_RECORDS_def CAP_MERGE_OPERANDS_def CAP_RANGE_DELETES_def
  CAP_PREFIX_DELTA_def CAP_MANIFEST_EDITS_def CAP_PERIODIC_AGE_def CAP_TXN_DECISIONS_def
  CAP_WAL_FLOOR_def

definition check_caps :: "u64 \<Rightarrow> unit result" where
  "check_caps caps =
     (if caps AND NOT KNOWN_CAPS \<noteq> 0
      then Inl (UnsupportedFormat ''manifest capabilities outside known mask'')
      else Inr ())"

section \<open>Record kinds and modifiers\<close>

definition KIND_PUT :: u64 where "KIND_PUT = 1"
definition KIND_DELETE :: u64 where "KIND_DELETE = 2"
definition KIND_SINGLE_DELETE :: u64 where "KIND_SINGLE_DELETE = 3"
definition KIND_MERGE :: u64 where "KIND_MERGE = 4"
definition KIND_RANGE_DELETE :: u64 where "KIND_RANGE_DELETE = 5"
definition KIND_PREPARE :: u64 where "KIND_PREPARE = 16"
definition KIND_COMMIT_DECISION :: u64 where "KIND_COMMIT_DECISION = 17"
definition KIND_ABORT_DECISION :: u64 where "KIND_ABORT_DECISION = 18"
definition MAX_ASSIGNABLE_KIND :: u64 where "MAX_ASSIGNABLE_KIND = 63"

lemmas kind_defs = KIND_PUT_def KIND_DELETE_def KIND_SINGLE_DELETE_def KIND_MERGE_def
  KIND_RANGE_DELETE_def KIND_PREPARE_def KIND_COMMIT_DECISION_def KIND_ABORT_DECISION_def
  MAX_ASSIGNABLE_KIND_def

definition MOD_HAS_TTL :: u64 where "MOD_HAS_TTL = 0x02"
definition MOD_HAS_VLOG :: u64 where "MOD_HAS_VLOG = 0x04"

definition MODIFIERS_KNOWN :: u64 where
  "MODIFIERS_KNOWN = MOD_HAS_TTL OR MOD_HAS_VLOG"

definition check_kind :: "u64 \<Rightarrow> unit result" where
  "check_kind kind =
     (if MAX_ASSIGNABLE_KIND < kind
      then Inl (Corruption ''record kind is above the never-assigned bound'')
      else if kind \<in> {KIND_PUT, KIND_DELETE, KIND_SINGLE_DELETE, KIND_MERGE, KIND_RANGE_DELETE,
                     KIND_PREPARE, KIND_COMMIT_DECISION, KIND_ABORT_DECISION}
      then Inr ()
      else Inl (UnsupportedFormat ''record kind is not implemented by this binary''))"

definition is_control_kind :: "u64 \<Rightarrow> bool" where
  "is_control_kind kind \<longleftrightarrow> kind \<in> {KIND_PREPARE, KIND_COMMIT_DECISION, KIND_ABORT_DECISION}"

definition check_point_kind :: "u64 \<Rightarrow> unit result" where
  "check_point_kind kind = rbind (check_kind kind) (\<lambda>_.
     if kind = KIND_RANGE_DELETE
     then Inl (Corruption ''sst: range-delete kind in the point-entry stream'')
     else if is_control_kind kind
     then Inl (Corruption ''sst: transaction-control kind in the point-entry stream'')
     else Inr ())"

definition check_modifiers :: "u64 \<Rightarrow> unit result" where
  "check_modifiers mods =
     (if mods AND NOT MODIFIERS_KNOWN \<noteq> 0
      then Inl (Corruption ''record modifiers outside known mask'')
      else Inr ())"

definition is_point_kind :: "u64 \<Rightarrow> bool" where
  "is_point_kind kind \<longleftrightarrow> kind \<in> {KIND_PUT, KIND_DELETE, KIND_SINGLE_DELETE}"

definition point_kind :: "bool \<Rightarrow> bool \<Rightarrow> u64" where
  "point_kind tombstone single_delete =
     (if single_delete then KIND_SINGLE_DELETE
      else if tombstone then KIND_DELETE
      else KIND_PUT)"

section \<open>Column-family ids\<close>

definition FNV1A64_OFFSET_BASIS :: u64 where "FNV1A64_OFFSET_BASIS = 14695981039346656037"
definition FNV1A64_PRIME :: u64 where "FNV1A64_PRIME = 1099511628211"

definition fnv1a64 :: "bytes \<Rightarrow> u64" where
  "fnv1a64 b = foldl (\<lambda>h x. (h XOR ucast x) * FNV1A64_PRIME) FNV1A64_OFFSET_BASIS b"

section \<open>Internal keys\<close>

definition TRAILER_SIZE :: nat where "TRAILER_SIZE = 8"

definition to_be_bytes :: "u64 \<Rightarrow> bytes" where
  "to_be_bytes x = rev (to_le_bytes 8 x)"

definition make_internal_key :: "bytes \<Rightarrow> u64 \<Rightarrow> bytes" where
  "make_internal_key user_key seq = user_key @ to_be_bytes (NOT seq)"

definition append_internal_key :: "bytes \<Rightarrow> bytes \<Rightarrow> u64 \<Rightarrow> bytes" where
  "append_internal_key dst user_key seq = dst @ user_key @ to_be_bytes (NOT seq)"

text \<open>\<open>ik.len() - TRAILER_SIZE\<close> underflows on a key shorter than the trailer: a panic.\<close>

definition split_internal_key :: "bytes \<Rightarrow> (bytes \<times> u64) result" where
  "split_internal_key ik =
     (if length ik < TRAILER_SIZE then Inl Panic
      else let n = length ik - TRAILER_SIZE
           in Inr (take n ik, NOT (from_be_bytes (drop n ik))))"

definition user_key_of :: "bytes \<Rightarrow> bytes result" where
  "user_key_of ik =
     (if length ik < TRAILER_SIZE then Inl Panic else Inr (take (length ik - TRAILER_SIZE) ik))"

definition seq_of :: "bytes \<Rightarrow> u64 result" where
  "seq_of ik =
     (if length ik < TRAILER_SIZE then Inl Panic
      else Inr (NOT (from_be_bytes (drop (length ik - TRAILER_SIZE) ik))))"

section \<open>Lemmas\<close>

lemma length_to_be_bytes [simp]: "length (to_be_bytes x) = 8"
  by (simp add: to_be_bytes_def)

lemma unat_ucast_u8: "unat (ucast (x :: u64) :: u8) = unat x mod 256"
  by (simp add: unsigned_ucast_eq take_bit_eq_mod unat_mod)

lemma be_nat_snoc: "be_nat (b @ [x]) = be_nat b * 256 + unat x"
  by (induction b) (simp_all add: algebra_simps)

lemma be_nat_rev_le: "be_nat (rev (to_le_bytes n (x :: u64))) = unat x mod 256 ^ n"
proof (induction n arbitrary: x)
  case 0
  then show ?case by (simp add: to_le_bytes_def)
next
  case (Suc n)
  have "unat (drop_bit 8 x) = unat x div 256"
    by (simp add: unat_drop_bit_eq drop_bit_nat_def)
  then show ?case
    by (simp add: to_le_bytes_Suc be_nat_snoc Suc unat_ucast_u8 mod_mult2_eq)
qed

lemma be_nat_to_be_bytes: "be_nat (to_be_bytes x) = unat x"
  using be_nat_rev_le [of 8 x] unsigned_less [of x, where ?'a = nat] by (simp add: to_be_bytes_def)

lemma from_to_be_bytes [wire_simps]: "from_be_bytes (to_be_bytes x) = x"
  by (simp add: from_be_bytes_eq be_nat_to_be_bytes)

lemma split_make_internal_key [wire_simps]:
  "split_internal_key (make_internal_key k s) = Inr (k, s)"
  by (simp add: split_internal_key_def make_internal_key_def TRAILER_SIZE_def from_to_be_bytes)

lemma parts_of_internal_key [wire_simps]:
  "user_key_of (make_internal_key k s) = Inr k"
  "seq_of (make_internal_key k s) = Inr s"
  by (simp_all add: user_key_of_def seq_of_def make_internal_key_def TRAILER_SIZE_def
      from_to_be_bytes)

lemma normalized_entry_flags_checked:
  "check_entry_flags (normalized_entry_flags t sd ttl vlog) = Inr ()"
  by (cases t; cases sd; cases ttl; cases vlog)
     (simp_all add: normalized_entry_flags_def check_entry_flags_def KNOWN_ENTRY_FLAGS_def flag_defs)

lemma normalized_flag_bits:
  "normalized_entry_flags t sd ttl vlog AND TOMBSTONE \<noteq> 0 \<longleftrightarrow> t \<or> sd"
  "normalized_entry_flags t sd ttl vlog AND SINGLE_DELETE \<noteq> 0 \<longleftrightarrow> sd"
  "normalized_entry_flags t sd ttl vlog AND HAS_TTL \<noteq> 0 \<longleftrightarrow> ttl"
  "normalized_entry_flags t sd ttl vlog AND HAS_VLOG \<noteq> 0 \<longleftrightarrow> vlog \<and> \<not> (t \<or> sd)"
  by (cases t; cases sd; cases ttl; cases vlog;
      simp add: normalized_entry_flags_def flag_defs)+

lemma unat_not: "unat (NOT (x :: u64)) = 2 ^ 64 - 1 - unat x"
proof -
  have "x \<le> - 1" by simp
  then have "unat (- 1 - x) = unat (- 1 :: u64) - unat x"
    by (simp only: unat_sub)
  moreover have "NOT x = - 1 - x" by (simp add: not_eq_complement)
  ultimately show ?thesis by (simp only:) (simp add: unsigned_minus_1_eq_mask mask_eq_exp_minus_1)
qed

lemma slice_cmp_append_same: "slice_cmp (k @ a) (k @ b) = slice_cmp a b"
  by (induction k) (simp_all add: ord_cmp_def)

lemma internal_key_cmp:
  "slice_cmp (make_internal_key k s) (make_internal_key k t) = ord_cmp t s"
proof -
  have "unat s < 2 ^ 64" "unat t < 2 ^ 64"
    using unsigned_less [of s, where ?'a = nat] unsigned_less [of t, where ?'a = nat] by simp_all
  then have "2 ^ 64 - 1 - unat s < 2 ^ 64 - 1 - unat t \<longleftrightarrow> unat t < unat s"
    "2 ^ 64 - 1 - unat t < 2 ^ 64 - 1 - unat s \<longleftrightarrow> unat s < unat t"
    by linarith+
  then show ?thesis
    unfolding make_internal_key_def slice_cmp_append_same
    by (simp only: be_nat_slice_cmp length_to_be_bytes be_nat_to_be_bytes unat_not ord_cmp_def
        word_less_nat_alt)
qed

lemma is_point_kind_point_kind: "is_point_kind (point_kind t sd)"
  by (simp add: is_point_kind_def point_kind_def)

lemma check_point_kind_iff:
  "check_point_kind kind = Inr () \<longleftrightarrow> is_point_kind kind \<or> kind = KIND_MERGE"
  by (auto simp: check_point_kind_def check_kind_def is_point_kind_def is_control_kind_def kind_defs
      rbind_Inr_iff split: if_splits)

lemma slice_cmp_append_eq_length:
  "length a = length b \<Longrightarrow> slice_cmp (a @ x) (b @ y) = then_with (slice_cmp a b) (slice_cmp x y)"
proof (induction a b rule: slice_cmp.induct)
  case (4 v va vb vc)
  then show ?case by (simp add: then_with_assoc)
qed (simp_all add: then_with_def)

lemma bit_flags:
  "bit TOMBSTONE n \<longleftrightarrow> n = 0" "bit HAS_TTL n \<longleftrightarrow> n = 1"
  "bit HAS_VLOG n \<longleftrightarrow> n = 2" "bit SINGLE_DELETE n \<longleftrightarrow> n = 4"
  using bit_exp_iff [where ?'a = "8 word", of 0 n] bit_exp_iff [where ?'a = "8 word", of 1 n]
    bit_exp_iff [where ?'a = "8 word", of 2 n] bit_exp_iff [where ?'a = "8 word", of 4 n]
  by (auto simp: flag_defs)

lemma bit_known_flags: "bit KNOWN_ENTRY_FLAGS n \<longleftrightarrow> n = 0 \<or> n = 1 \<or> n = 2 \<or> n = 4"
  unfolding KNOWN_ENTRY_FLAGS_def bit_or_iff bit_flags by blast

lemma and_flags:
  "fl AND TOMBSTONE = 0 \<longleftrightarrow> \<not> bit fl 0" "fl AND HAS_TTL = 0 \<longleftrightarrow> \<not> bit fl 1"
  "fl AND HAS_VLOG = 0 \<longleftrightarrow> \<not> bit fl 2" "fl AND SINGLE_DELETE = 0 \<longleftrightarrow> \<not> bit fl 4"
  using and_exp_eq_0_iff_not_bit [of fl 0] and_exp_eq_0_iff_not_bit [of fl 1]
    and_exp_eq_0_iff_not_bit [of fl 2] and_exp_eq_0_iff_not_bit [of fl 4]
  by (simp_all add: flag_defs)

lemma bit_normalized_entry_flags:
  "bit (normalized_entry_flags t sd ttl vlog) n \<longleftrightarrow>
     n = 0 \<and> (t \<or> sd) \<or> n = 4 \<and> sd \<or> n = 1 \<and> ttl \<or> n = 2 \<and> vlog \<and> \<not> (t \<or> sd)"
  by (auto simp: normalized_entry_flags_def Let_def bit_or_iff bit_flags)

lemma check_entry_flags_normalized:
  assumes "check_entry_flags fl = Inr ()"
  shows "fl = normalized_entry_flags (fl AND TOMBSTONE \<noteq> 0) (fl AND SINGLE_DELETE \<noteq> 0)
     (fl AND HAS_TTL \<noteq> 0) (fl AND HAS_VLOG \<noteq> 0)"
proof (rule bit_word_eqI)
  fix n assume "n < LENGTH(8)"
  from assms have k: "fl AND NOT KNOWN_ENTRY_FLAGS = 0" and sd: "bit fl 4 \<longrightarrow> bit fl 0"
    and vl: "bit fl 0 \<longrightarrow> \<not> bit fl 2"
    by (auto simp: check_entry_flags_def and_flags split: if_splits)
  from k have "bit fl n \<longrightarrow> bit KNOWN_ENTRY_FLAGS n"
    using bit_and_iff [of fl "NOT KNOWN_ENTRY_FLAGS" n] \<open>n < LENGTH(8)\<close>
    by (simp add: bit_not_iff)
  then have "bit fl n \<longleftrightarrow>
      n = 0 \<and> bit fl 0 \<or> n = 4 \<and> bit fl 4 \<or> n = 1 \<and> bit fl 1 \<or> n = 2 \<and> bit fl 2"
    unfolding bit_known_flags by (cases "bit fl n") (simp, blast, metis)
  also have "\<dots> \<longleftrightarrow> n = 0 \<and> (bit fl 0 \<or> bit fl 4) \<or> n = 4 \<and> bit fl 4 \<or> n = 1 \<and> bit fl 1
      \<or> n = 2 \<and> bit fl 2 \<and> \<not> (bit fl 0 \<or> bit fl 4)"
    using sd vl by blast
  finally show "bit fl n \<longleftrightarrow>
      bit (normalized_entry_flags (fl AND TOMBSTONE \<noteq> 0) (fl AND SINGLE_DELETE \<noteq> 0)
        (fl AND HAS_TTL \<noteq> 0) (fl AND HAS_VLOG \<noteq> 0)) n"
    unfolding bit_normalized_entry_flags and_flags not_not .
qed

section \<open>Properties\<close>

text \<open>
  C34. The strict decoder of entry flags accepts exactly the bytes the writers' normaliser
  produces: each normalised byte passes and decodes to the inputs (a single delete is a
  tombstone, a tombstone has no value-log pointer), and each byte that passes is the
  normal form of its own bits.
\<close>

theorem entry_flags_exact:
  "(check_entry_flags fl = Inr () \<longleftrightarrow>
      (\<exists>t sd ttl vlog. fl = normalized_entry_flags t sd ttl vlog))
   \<and> (normalized_entry_flags t sd ttl vlog AND TOMBSTONE \<noteq> 0 \<longleftrightarrow> t \<or> sd)
   \<and> (normalized_entry_flags t sd ttl vlog AND SINGLE_DELETE \<noteq> 0 \<longleftrightarrow> sd)
   \<and> (normalized_entry_flags t sd ttl vlog AND HAS_TTL \<noteq> 0 \<longleftrightarrow> ttl)
   \<and> (normalized_entry_flags t sd ttl vlog AND HAS_VLOG \<noteq> 0 \<longleftrightarrow> vlog \<and> \<not> (t \<or> sd))"
  using normalized_flag_bits [of t sd ttl vlog] check_entry_flags_normalized [of fl]
    normalized_entry_flags_checked by (intro conjI iffI exI) (simp_all, metis+)

text \<open>
  C35. An internal key splits back into the user key and the sequence number it was made of,
  two versions of one user key sort newest first under the byte order of the whole internal
  key, and user keys of the same length sort by the user key before the sequence number.
\<close>

theorem internal_key_order:
  "split_internal_key (make_internal_key k s) = Inr (k, s)
   \<and> user_key_of (make_internal_key k s) = Inr k
   \<and> seq_of (make_internal_key k s) = Inr s
   \<and> append_internal_key dst k s = dst @ make_internal_key k s
   \<and> slice_cmp (make_internal_key k s) (make_internal_key k t) = ord_cmp t s
   \<and> (length k = length k' \<longrightarrow>
        slice_cmp (make_internal_key k s) (make_internal_key k' t) =
          then_with (slice_cmp k k') (ord_cmp t s))"
proof -
  have "slice_cmp (to_be_bytes (NOT s)) (to_be_bytes (NOT t)) = ord_cmp t s"
    using internal_key_cmp [of "[]" s t] by (simp add: make_internal_key_def)
  then have "length k = length k' \<longrightarrow>
      slice_cmp (make_internal_key k s) (make_internal_key k' t) =
        then_with (slice_cmp k k') (ord_cmp t s)"
    by (simp add: make_internal_key_def slice_cmp_append_eq_length)
  moreover have "append_internal_key dst k s = dst @ make_internal_key k s"
    by (simp add: append_internal_key_def make_internal_key_def)
  ultimately show ?thesis
    using split_make_internal_key parts_of_internal_key internal_key_cmp by simp
qed

theorem internal_key_order_witness:
  "slice_cmp (make_internal_key [1] 7) (make_internal_key [2] 9) = Less"
  using internal_key_order [of "[1]" 7 "[]" 9 "[2]"] by (simp add: ord_cmp_def then_with_def)

end
