(* ===== verification/Block_Frame.thy ===== *)
theory Block_Frame
  imports Format
begin

text \<open>
  Block framing of \<open>src/src/block.rs\<close>, the codec selection of \<open>src/src/compress.rs\<close> and
  the codec ids of \<open>src/src/config.rs\<close> and \<open>src/src/format.rs\<close>.

  The compression crates (snap, lz4_flex, zstd, flate2) and the CRC-32C are parameters:
  the record \<open>codec_lib\<close> and a function \<open>crc\<close>. The only fact used of the crates is that
  each decoder inverts its encoder (\<open>codec_lib_inverts\<close>); nothing is used of the checksum.

  The lemmas show that a written block reads back whatever codec was asked for and
  whether or not it shrank, that reading an arbitrary buffer never panics and never
  consumes more than the buffer, and that a payload whose checksum differs is refused
  before its codec byte is looked at.
\<close>

section \<open>Codecs\<close>

datatype Compression = CNone | Snappy | Lz4 | Zstd | Lz4Fast | Flate

definition compression_as_str :: "Compression \<Rightarrow> string" where
  "compression_as_str c = (case c of
     CNone \<Rightarrow> ''none'' | Snappy \<Rightarrow> ''snappy'' | Lz4 \<Rightarrow> ''lz4'' | Zstd \<Rightarrow> ''zstd''
   | Lz4Fast \<Rightarrow> ''lz4fast'' | Flate \<Rightarrow> ''flate'')"

definition codec_id :: "Compression \<Rightarrow> u8" where
  "codec_id c = (case c of
     CNone \<Rightarrow> 0 | Snappy \<Rightarrow> 1 | Zstd \<Rightarrow> 3 | Flate \<Rightarrow> 5 | Lz4 \<Rightarrow> 6 | Lz4Fast \<Rightarrow> 6)"

definition from_codec_id :: "u8 \<Rightarrow> Compression result" where
  "from_codec_id i =
     (if i = 0 then Inr CNone
      else if i = 1 then Inr Snappy
      else if i = 3 then Inr Zstd
      else if i = 5 then Inr Flate
      else if i = 6 then Inr Lz4
      else if i = 2 \<or> i = 4
      then Inl (UnsupportedFormat ''codec id is burned and never valid in epoch 1'')
      else Inl (UnsupportedFormat ''codec id is not implemented by this binary''))"

text \<open>The third-party codecs. An encoder or decoder that reports an error is \<open>None\<close>.\<close>

record codec_lib =
  snappy_compress :: "bytes \<Rightarrow> bytes option"
  snappy_decompress :: "bytes \<Rightarrow> bytes option"
  lz4_compress :: "bytes \<Rightarrow> bytes"
  lz4_decompress :: "bytes \<Rightarrow> nat \<Rightarrow> bytes option"
  zstd_compress :: "bytes \<Rightarrow> bytes option"
  zstd_decompress :: "bytes \<Rightarrow> nat \<Rightarrow> bytes option"
  deflate_compress :: "bytes \<Rightarrow> bytes option"
  deflate_decompress :: "bytes \<Rightarrow> bytes option"

definition compress :: "codec_lib \<Rightarrow> Compression \<Rightarrow> bytes \<Rightarrow> bytes result" where
  "compress lib alg src = (case alg of
     CNone \<Rightarrow> Inr src
   | Snappy \<Rightarrow> ok_or (snappy_compress lib src) (Corruption ''snappy compress'')
   | Lz4 \<Rightarrow> Inr (lz4_compress lib src)
   | Lz4Fast \<Rightarrow> Inr (lz4_compress lib src)
   | Zstd \<Rightarrow> ok_or (zstd_compress lib src) (Corruption ''zstd compress'')
   | Flate \<Rightarrow> ok_or (deflate_compress lib src) (Io ''''))"

definition decompress :: "codec_lib \<Rightarrow> Compression \<Rightarrow> bytes \<Rightarrow> nat \<Rightarrow> bytes result" where
  "decompress lib alg src raw_len = (case alg of
     CNone \<Rightarrow> Inr src
   | Snappy \<Rightarrow> ok_or (snappy_decompress lib src) (Corruption ''snappy decompress'')
   | Lz4 \<Rightarrow> ok_or (lz4_decompress lib src raw_len) (Corruption ''lz4 decompress'')
   | Lz4Fast \<Rightarrow> ok_or (lz4_decompress lib src raw_len) (Corruption ''lz4 decompress'')
   | Zstd \<Rightarrow> ok_or (zstd_decompress lib src raw_len) (Corruption ''zstd decompress'')
   | Flate \<Rightarrow> ok_or (deflate_decompress lib src) (Io ''''))"

section \<open>Frames\<close>

definition BLOCK_HEADER :: nat where "BLOCK_HEADER = 1 + 4 + 4 + 4"

definition write_block ::
  "codec_lib \<Rightarrow> (bytes \<Rightarrow> u32) \<Rightarrow> bytes \<Rightarrow> Compression \<Rightarrow> bytes \<Rightarrow> (bytes \<times> nat) result" where
  "write_block lib crc out alg raw =
     (let start = length out in
      rbind (if alg = CNone then Inr (CNone, raw)
             else rbind (compress lib alg raw) (\<lambda>c.
               if length c < length raw then Inr (alg, c) else Inr (CNone, raw)))
        (\<lambda>(used_alg, payload).
          let out = out @ [codec_id used_alg];
              out = append_u32 out (of_nat (length payload));
              out = append_u32 out (of_nat (length raw));
              out = append_u32 out (crc payload);
              out = out @ payload
          in Inr (out, length out - start)))"

definition block_payload_inner ::
  "(bytes \<Rightarrow> u32) \<Rightarrow> bytes \<Rightarrow> bool \<Rightarrow> (Compression \<times> bytes \<times> nat \<times> nat) result" where
  "block_payload_inner crc buf verify =
     (if length buf < BLOCK_HEADER then Inl (Corruption ''block: short header'')
      else rbind (read_u32 (drop 1 buf)) (\<lambda>comp_len.
           rbind (read_u32 (drop 5 buf)) (\<lambda>raw_len.
           rbind (read_u32 (drop 9 buf)) (\<lambda>want_crc.
             let total_len = BLOCK_HEADER + unat comp_len in
             if 2 ^ 64 \<le> total_len then Inl (Corruption ''block: length overflow'')
             else if length buf < total_len then Inl (Corruption ''block: truncated payload'')
             else
               let payload = take (unat comp_len) (drop BLOCK_HEADER buf) in
               if verify \<and> crc payload \<noteq> want_crc
               then Inl (Corruption ''block: checksum mismatch'')
               else rbind (from_codec_id (buf ! 0)) (\<lambda>alg.
                 Inr (alg, payload, unat raw_len, total_len))))))"

definition block_payload :: "(bytes \<Rightarrow> u32) \<Rightarrow> bytes \<Rightarrow> (Compression \<times> bytes \<times> nat \<times> nat) result" where
  "block_payload crc buf = block_payload_inner crc buf True"

definition block_payload_preverified ::
  "(bytes \<Rightarrow> u32) \<Rightarrow> bytes \<Rightarrow> (Compression \<times> bytes \<times> nat \<times> nat) result" where
  "block_payload_preverified crc buf = block_payload_inner crc buf False"

definition read_block :: "codec_lib \<Rightarrow> (bytes \<Rightarrow> u32) \<Rightarrow> bytes \<Rightarrow> (bytes \<times> nat) result" where
  "read_block lib crc buf =
     (if length buf < BLOCK_HEADER then Inl (Corruption ''block: short header'')
      else rbind (block_payload_inner crc buf True) (\<lambda>(alg, payload, raw_len, total_len).
           rbind (decompress lib alg payload raw_len) (\<lambda>raw.
             if length raw \<noteq> raw_len then Inl (Corruption ''block: raw length mismatch'')
             else Inr (raw, total_len))))"

section \<open>What the codec crates promise\<close>

definition codec_lib_inverts :: "codec_lib \<Rightarrow> bool" where
  "codec_lib_inverts lib \<longleftrightarrow>
     (\<forall>x c. snappy_compress lib x = Some c \<longrightarrow> snappy_decompress lib c = Some x) \<and>
     (\<forall>x. lz4_decompress lib (lz4_compress lib x) (length x) = Some x) \<and>
     (\<forall>x c. zstd_compress lib x = Some c \<longrightarrow> zstd_decompress lib c (length x) = Some x) \<and>
     (\<forall>x c. deflate_compress lib x = Some c \<longrightarrow> deflate_decompress lib c = Some x)"

text \<open>A concrete codec that meets the promise and shrinks runs of zero bytes.\<close>

definition run_compress :: "bytes \<Rightarrow> bytes" where
  "run_compress x =
     (if length x < 256 \<and> list_all (\<lambda>b. b = 0) x then [0, of_nat (length x)] else 1 # x)"

fun run_decompress :: "bytes \<Rightarrow> bytes option" where
  "run_decompress [] = None"
| "run_decompress (t # x) =
     (if t = 1 then Some x else case x of [n] \<Rightarrow> Some (replicate (unat n) 0) | _ \<Rightarrow> None)"

definition run_lib :: codec_lib where
  "run_lib = \<lparr>snappy_compress = (\<lambda>x. Some (run_compress x)), snappy_decompress = run_decompress,
     lz4_compress = run_compress, lz4_decompress = (\<lambda>c _. run_decompress c),
     zstd_compress = (\<lambda>x. Some (run_compress x)), zstd_decompress = (\<lambda>c _. run_decompress c),
     deflate_compress = (\<lambda>x. Some (run_compress x)), deflate_decompress = run_decompress\<rparr>"

section \<open>Lemmas\<close>

lemma run_decompress_compress: "run_decompress (run_compress x) = Some x"
proof (cases "length x < 256 \<and> list_all (\<lambda>b. b = 0) x")
  case True
  then have "unat (of_nat (length x) :: u8) = length x"
    by (simp add: unat_of_nat)
  moreover have "replicate (length x) 0 = x"
    using True by (intro replicate_length_same) (simp add: list_all_iff)
  ultimately show ?thesis using True by (simp add: run_compress_def)
qed (auto simp: run_compress_def)

lemma run_lib_inverts: "codec_lib_inverts run_lib"
  by (auto simp: codec_lib_inverts_def run_lib_def run_decompress_compress)

lemma from_codec_id_codec_id:
  "\<exists>c'. from_codec_id (codec_id c) = Inr c' \<and> decompress lib c' = decompress lib c"
  by (cases c) (auto simp: codec_id_def from_codec_id_def decompress_def fun_eq_iff)

lemma from_codec_id_no_panic: "from_codec_id i \<noteq> Inl Panic"
  by (simp add: from_codec_id_def)

lemma decompress_no_panic: "decompress lib alg src n \<noteq> Inl Panic"
  by (cases alg) (auto simp: decompress_def)

lemma decompress_compress:
  "codec_lib_inverts lib \<Longrightarrow> compress lib alg raw = Inr c \<Longrightarrow>
     decompress lib alg c (length raw) = Inr raw"
  by (cases alg) (auto simp: compress_def decompress_def codec_lib_inverts_def)

lemma unat_of_nat_u32: "n < 2 ^ 32 \<Longrightarrow> unat (of_nat n :: u32) = n"
  by (simp add: unat_of_nat)

lemma block_payload_inner_frame:
  fixes crc :: "bytes \<Rightarrow> u32"
  assumes "length payload < 2 ^ 32" and "n < 2 ^ 32" and "from_codec_id i = Inr c"
  shows "block_payload_inner crc
     (i # to_le_bytes 4 (of_nat (length payload) :: u32) @ to_le_bytes 4 (of_nat n :: u32)
        @ to_le_bytes 4 (crc payload) @ payload @ rest) verify
     = Inr (c, payload, n, BLOCK_HEADER + length payload)"
    (is "block_payload_inner crc ?buf verify = _")
proof -
  have reads: "read_u32 (drop 1 ?buf) = Inr (of_nat (length payload))"
    "read_u32 (drop 5 ?buf) = Inr (of_nat n)" "read_u32 (drop 9 ?buf) = Inr (crc payload)"
    by (simp_all add: wire_simps del: append_assoc)
  have tail: "drop BLOCK_HEADER ?buf = payload @ rest"
    by (simp add: BLOCK_HEADER_def)
  have len: "length ?buf = BLOCK_HEADER + length payload + length rest"
    by (simp add: BLOCK_HEADER_def)
  have n: "unat (of_nat (length payload) :: u32) = length payload" "unat (of_nat n :: u32) = n"
    using assms by (simp_all only: unat_of_nat_u32)
  have lt: "\<not> 2 ^ 64 \<le> BLOCK_HEADER + length payload"
    using assms(1) by (simp add: BLOCK_HEADER_def)
  show ?thesis
    unfolding block_payload_inner_def reads tail len rbind_simps n Let_def using lt assms(3) by simp
qed

lemma write_block_eq:
  "write_block lib crc out alg raw =
     rbind (if alg = CNone then Inr (CNone, raw)
            else rbind (compress lib alg raw) (\<lambda>c.
              if length c < length raw then Inr (alg, c) else Inr (CNone, raw)))
       (\<lambda>(used, payload). Inr (out @ codec_id used # to_le_bytes 4 (of_nat (length payload) :: u32)
          @ to_le_bytes 4 (of_nat (length raw) :: u32) @ to_le_bytes 4 (crc payload) @ payload,
          BLOCK_HEADER + length payload))"
  by (simp add: write_block_def append_u32_def BLOCK_HEADER_def Let_def add_ac)

lemma write_block_cases:
  assumes "codec_lib_inverts lib" and "write_block lib crc out alg raw = Inr (out', n)"
  obtains used payload where
    "out' = out @ codec_id used # to_le_bytes 4 (of_nat (length payload) :: u32)
       @ to_le_bytes 4 (of_nat (length raw) :: u32) @ to_le_bytes 4 (crc payload) @ payload"
    and "n = BLOCK_HEADER + length payload" and "length payload \<le> length raw"
    and "decompress lib used payload (length raw) = Inr raw"
proof (cases "alg = CNone")
  case True
  with assms(2) show ?thesis
    by (intro that [of CNone raw]) (simp_all add: write_block_eq decompress_def)
next
  case False
  with assms(2) obtain c where c: "compress lib alg raw = Inr c"
    by (auto simp: write_block_eq rbind_Inr_iff)
  show ?thesis
  proof (cases "length c < length raw")
    case True
    with assms False c show ?thesis
      by (intro that [of alg c]) (simp_all add: write_block_eq decompress_compress)
  next
    case shrink: False
    with assms False c show ?thesis
      by (intro that [of CNone raw]) (simp_all add: write_block_eq decompress_def)
  qed
qed

lemma read_u32_ok: "4 \<le> length b \<Longrightarrow> \<exists>x. read_u32 b = Inr x"
  by (simp add: read_u32_def)

lemma block_payload_inner_outcomes:
  "case block_payload_inner crc buf verify of
     Inl e \<Rightarrow> e \<noteq> Panic
   | Inr (alg, payload, raw_len, total_len) \<Rightarrow>
       total_len \<le> length buf \<and> total_len = BLOCK_HEADER + length payload \<and>
       payload = take (length payload) (drop BLOCK_HEADER buf) \<and>
       (verify \<longrightarrow> read_u32 (drop 9 buf) = Inr (crc payload))"
proof (cases "length buf < BLOCK_HEADER")
  case True
  then show ?thesis by (simp add: block_payload_inner_def)
next
  case False
  then have "4 \<le> length (drop 1 buf)" "4 \<le> length (drop 5 buf)" "4 \<le> length (drop 9 buf)"
    by (simp_all add: BLOCK_HEADER_def)
  then obtain c r w where "read_u32 (drop 1 buf) = Inr c" "read_u32 (drop 5 buf) = Inr r"
    "read_u32 (drop 9 buf) = Inr w"
    by (meson read_u32_ok)
  moreover have "min (length buf - BLOCK_HEADER) n = n" if "\<not> length buf < BLOCK_HEADER + n" for n
    using that by simp
  ultimately show ?thesis
    using False from_codec_id_no_panic [of "buf ! 0"]
    by (cases "from_codec_id (buf ! 0)")
       (simp_all add: block_payload_inner_def Let_def)
qed

lemma write_block_sample:
  "write_block run_lib (\<lambda>b. of_nat (length b)) [7, 7] Lz4 (replicate 9 0) =
     Inr ([7, 7, 6, 2, 0, 0, 0, 9, 0, 0, 0, 2, 0, 0, 0, 0, 9], 15)"
  by code_simp

section \<open>Properties\<close>

text \<open>
  C27. Block round trip: if the codec crates invert themselves and the raw block fits the
  frame's 32-bit length fields, then whatever \<^const>\<open>write_block\<close> appends to a buffer, with
  any algorithm and whether or not the block shrank, is read back by \<^const>\<open>read_block\<close> from
  that position as the original bytes and the number of bytes written, no matter what
  follows it.
\<close>

theorem write_read_block:
  assumes "codec_lib_inverts lib" and "length raw < 2 ^ 32"
    and "write_block lib crc out alg raw = Inr (out', n)"
  shows "read_block lib crc (drop (length out) (out' @ rest)) = Inr (raw, n) \<and>
    length out' = length out + n"
proof -
  from assms obtain used payload where out': "out' = out @ codec_id used
        # to_le_bytes 4 (of_nat (length payload) :: u32)
       @ to_le_bytes 4 (of_nat (length raw) :: u32) @ to_le_bytes 4 (crc payload) @ payload"
    and n: "n = BLOCK_HEADER + length payload" and le: "length payload \<le> length raw"
    and d: "decompress lib used payload (length raw) = Inr raw"
    by (elim write_block_cases)
  from from_codec_id_codec_id [of used lib] obtain c where
    c: "from_codec_id (codec_id used) = Inr c" and dc: "decompress lib c = decompress lib used"
    by blast
  have "length payload < 2 ^ 32" using le assms(2) by simp
  note frame = block_payload_inner_frame [OF this assms(2) c, where rest = rest and crc = crc]
  then have "read_block lib crc (drop (length out) (out' @ rest)) = Inr (raw, n)"
    unfolding read_block_def by (simp add: out' n dc d BLOCK_HEADER_def)
  then show ?thesis by (simp add: out' n BLOCK_HEADER_def)
qed

theorem write_read_block_witness:
  "codec_lib_inverts run_lib \<and> length (replicate 9 0 :: bytes) < 2 ^ 32 \<and>
   read_block run_lib (\<lambda>b. of_nat (length b))
     (drop (length [7, 7 :: u8]) ([7, 7, 6, 2, 0, 0, 0, 9, 0, 0, 0, 2, 0, 0, 0, 0, 9] @ [5]))
     = Inr (replicate 9 0, 15)"
  using write_read_block [OF run_lib_inverts _ write_block_sample, of "[5]"] run_lib_inverts
  by (simp del: drop_append)

text \<open>
  C28. Reading is total and bounded on arbitrary bytes: \<^const>\<open>read_block\<close> never panics, and
  when it accepts a block it consumed at most the buffer, the stored checksum matches the
  payload and the decoded length is the one the header names.
\<close>

theorem read_block_safe:
  "case read_block lib crc buf of
     Inl e \<Rightarrow> e \<noteq> Panic
   | Inr (raw, total_len) \<Rightarrow> BLOCK_HEADER \<le> total_len \<and> total_len \<le> length buf \<and>
       read_u32 (drop 9 buf) = Inr (crc (take (total_len - BLOCK_HEADER) (drop BLOCK_HEADER buf))) \<and>
       (\<exists>n. read_u32 (drop 5 buf) = Inr n \<and> length raw = unat n)"
proof (cases "block_payload_inner crc buf True")
  case (Inl e)
  then show ?thesis
    using block_payload_inner_outcomes [where crc = crc and buf = buf and verify = True] by (simp add: read_block_def)
next
  case (Inr r)
  obtain alg payload raw_len total_len where r: "r = (alg, payload, raw_len, total_len)" by (cases r)
  have "\<exists>n. read_u32 (drop 5 buf) = Inr n \<and> raw_len = unat n"
    using Inr unfolding r by (auto simp: block_payload_inner_def rbind_Inr_iff Let_def split: if_splits)
  then show ?thesis
    using Inr r block_payload_inner_outcomes [where crc = crc and buf = buf and verify = True]
      decompress_no_panic [of lib alg payload raw_len]
    by (cases "decompress lib alg payload raw_len") (auto simp: read_block_def)
qed

end
