(* ===== verification/Bloom_Filter.thy ===== *)
theory Bloom_Filter
  imports Format
begin

unbundle bit_operations_syntax

text \<open>
  The Bloom filter of \<open>src/src/bloom.rs\<close>: double hashing on the two halves of a 64-bit
  key hash, a word array, and the strict epoch-1 encoding. The xxh3 hash is the parameter
  \<open>xxh3\<close>; the floating-point sizing formula enters \<^emph>\<open>bloom_params\<close> through its two
  truncated results, and only the clamping that follows it is modelled.

  The lemmas show that a filter built by the code never indexes outside its word array,
  that a key added is always reported present whatever is added later, and that the
  encoding reads back; a decoded filter always satisfies the invariant, so probing
  hostile bytes cannot panic either.
\<close>

datatype HashKind = Xxh3

record Bloom =
  bits :: "u64 list"
  num_bits :: u64
  num_hashes :: u32
  hash :: HashKind

definition MAX_K :: u64 where "MAX_K = 30"
definition BLOOM_HASH_XXH3 :: u8 where "BLOOM_HASH_XXH3 = 1"

definition clamp :: "'a::linorder \<Rightarrow> 'a \<Rightarrow> 'a \<Rightarrow> 'a" where
  "clamp x lo hi = (if x < lo then lo else if hi < x then hi else x)"

text \<open>\<open>mf\<close> is the truncated optimal bit count, \<open>kf\<close> the rounded hash count.\<close>

definition bloom_params :: "u64 \<Rightarrow> u32 \<Rightarrow> u64 \<times> u32" where
  "bloom_params mf kf = (clamp (mf + 1) 64 0xFFFFFFFF, clamp kf 1 30)"

definition div_ceil_64 :: "u64 \<Rightarrow> nat" where
  "div_ceil_64 m = (unat m + 63) div 64"

definition bloom_new :: "u64 \<Rightarrow> u32 \<Rightarrow> Bloom" where
  "bloom_new mf kf =
     (let (m, k) = bloom_params mf kf
      in \<lparr>bits = replicate (div_ceil_64 m) 0, num_bits = m, num_hashes = k, hash = Xxh3\<rparr>)"

definition hash_of :: "(bytes \<Rightarrow> u64) \<Rightarrow> Bloom \<Rightarrow> bytes \<Rightarrow> u64" where
  "hash_of xxh3 b key = (case hash b of Xxh3 \<Rightarrow> xxh3 key)"

text \<open>The remainder by \<open>m as u32\<close> panics when that is zero.\<close>

definition positions :: "u64 \<Rightarrow> u32 \<Rightarrow> u64 \<Rightarrow> nat list result" where
  "positions m k h =
     (let h1 = (ucast h :: u32); h2 = (ucast (drop_bit 32 h) :: u32); m = (ucast m :: u32)
      in if m = 0 \<and> k \<noteq> 0 then Inl Panic
         else Inr (map (\<lambda>i. unat ((h1 + of_nat i * h2) mod m)) [0..<unat k]))"

definition set_bit_at :: "nat \<Rightarrow> u64 list \<Rightarrow> u64 list result" where
  "set_bit_at i ws =
     (if i div 64 < length ws
      then Inr (ws[i div 64 := ws ! (i div 64) OR push_bit (i mod 64) 1])
      else Inl Panic)"

definition test_bit_at :: "nat \<Rightarrow> u64 list \<Rightarrow> bool result" where
  "test_bit_at i ws =
     (if i div 64 < length ws
      then Inr (ws ! (i div 64) AND push_bit (i mod 64) 1 \<noteq> 0)
      else Inl Panic)"

fun set_bits :: "nat list \<Rightarrow> u64 list \<Rightarrow> u64 list result" where
  "set_bits [] ws = Inr ws"
| "set_bits (i # is) ws = rbind (set_bit_at i ws) (set_bits is)"

fun all_bits :: "nat list \<Rightarrow> u64 list \<Rightarrow> bool result" where
  "all_bits [] ws = Inr True"
| "all_bits (i # is) ws =
     rbind (test_bit_at i ws) (\<lambda>b. if b then all_bits is ws else Inr False)"

definition add_hash :: "u64 \<Rightarrow> Bloom \<Rightarrow> Bloom result" where
  "add_hash h b =
     rbind (positions (num_bits b) (num_hashes b) h) (\<lambda>ps.
     rbind (set_bits ps (bits b)) (\<lambda>ws. Inr (b\<lparr>bits := ws\<rparr>)))"

definition bloom_add :: "(bytes \<Rightarrow> u64) \<Rightarrow> bytes \<Rightarrow> Bloom \<Rightarrow> Bloom result" where
  "bloom_add xxh3 key b = add_hash (hash_of xxh3 b key) b"

definition may_contain_hash :: "Bloom \<Rightarrow> u64 \<Rightarrow> bool result" where
  "may_contain_hash b h =
     rbind (positions (num_bits b) (num_hashes b) h) (\<lambda>ps. all_bits ps (bits b))"

definition may_contain :: "(bytes \<Rightarrow> u64) \<Rightarrow> Bloom \<Rightarrow> bytes \<Rightarrow> bool result" where
  "may_contain xxh3 b key = may_contain_hash b (hash_of xxh3 b key)"

definition bloom_encode :: "Bloom \<Rightarrow> bytes" where
  "bloom_encode b =
     (let dst = [BLOOM_HASH_XXH3];
          dst = append_uvarint dst (num_bits b);
          dst = append_uvarint dst (ucast (num_hashes b))
      in foldl append_u64 dst (bits b))"

fun read_words :: "nat \<Rightarrow> bytes \<Rightarrow> u64 list result" where
  "read_words 0 p = Inr []"
| "read_words (Suc n) p =
     rbind (read_u64 p) (\<lambda>w. rbind (read_words n (drop 8 p)) (\<lambda>ws. Inr (w # ws)))"

definition bloom_decode :: "bytes \<Rightarrow> Bloom result" where
  "bloom_decode p = (case p of
     [] \<Rightarrow> Inl (Corruption ''bloom: empty block'')
   | h # p \<Rightarrow>
      (if h \<noteq> BLOOM_HASH_XXH3
       then Inl (UnsupportedFormat ''bloom hash id is not implemented by this binary'')
       else rbind (ok_or (uvarint p) (Corruption ''bloom: truncated m'')) (\<lambda>(m, n).
         let p = drop n p in
         rbind (ok_or (uvarint p) (Corruption ''bloom: truncated k'')) (\<lambda>(k, n).
         let p = drop n p in
         if m = 0 \<or> 0xFFFFFFFF < m
         then Inl (Corruption ''bloom: bit count outside [1, 2^32)'')
         else if k = 0 \<or> MAX_K < k
         then Inl (Corruption ''bloom: hash count outside [1, 30]'')
         else
           let words = div_ceil_64 m in
           if length p \<noteq> words * 8
           then Inl (Corruption ''bloom: word array length disagrees with m'')
           else rbind (read_words words p) (\<lambda>ws.
             Inr \<lparr>bits = ws, num_bits = m, num_hashes = ucast k, hash = Xxh3\<rparr>)))))"

section \<open>The invariant\<close>

definition bloom_wf :: "Bloom \<Rightarrow> bool" where
  "bloom_wf b \<longleftrightarrow> 0 < unat (num_bits b) \<and> unat (num_bits b) < 2 ^ 32 \<and>
     length (bits b) = div_ceil_64 (num_bits b) \<and>
     0 < unat (num_hashes b) \<and> unat (num_hashes b) \<le> 30"

definition bit_set :: "u64 list \<Rightarrow> nat \<Rightarrow> bool" where
  "bit_set ws i \<longleftrightarrow> i div 64 < length ws \<and> bit (ws ! (i div 64)) (i mod 64)"

section \<open>Lemmas\<close>

lemma and_push_bit_1: "n < 64 \<Longrightarrow> (w :: u64) AND push_bit n 1 \<noteq> 0 \<longleftrightarrow> bit w n"
  using and_exp_eq_0_iff_not_bit [of w n] by (simp add: push_bit_eq_mult)

lemma test_bit_at_eq: "i div 64 < length ws \<Longrightarrow> test_bit_at i ws = Inr (bit_set ws i)"
  using and_push_bit_1 [of "i mod 64" "ws ! (i div 64)"]
  by (simp add: test_bit_at_def bit_set_def)

lemma set_bit_at_sets:
  assumes "i div 64 < length ws"
  obtains ws' where "set_bit_at i ws = Inr ws'" and "length ws' = length ws"
    and "\<And>j. bit_set ws' j \<longleftrightarrow> bit_set ws j \<or> j = i"
proof (rule that [of "ws[i div 64 := ws ! (i div 64) OR push_bit (i mod 64) 1]"])
  show "set_bit_at i ws = Inr (ws[i div 64 := ws ! (i div 64) OR push_bit (i mod 64) 1])"
    using assms by (simp add: set_bit_at_def)
  fix j
  have "j = i \<longleftrightarrow> j div 64 = i div 64 \<and> j mod 64 = i mod 64"
    by (metis div_mod_decomp)
  then show "bit_set (ws[i div 64 := ws ! (i div 64) OR push_bit (i mod 64) 1]) j \<longleftrightarrow>
      bit_set ws j \<or> j = i"
    using assms by (auto simp: bit_set_def nth_list_update bit_or_iff bit_exp_iff)
qed simp

lemma set_bits_sets:
  "\<forall>i\<in>set is. i div 64 < length ws \<Longrightarrow>
     \<exists>ws'. set_bits is ws = Inr ws' \<and> length ws' = length ws \<and>
       (\<forall>j. bit_set ws' j \<longleftrightarrow> bit_set ws j \<or> j \<in> set is)"
proof (induction "is" arbitrary: ws)
  case (Cons i "is")
  then obtain w where w: "set_bit_at i ws = Inr w" "length w = length ws"
    "\<And>j. bit_set w j \<longleftrightarrow> bit_set ws j \<or> j = i"
    using set_bit_at_sets [of i ws] by auto
  with Cons.prems have "\<forall>i\<in>set is. i div 64 < length w" by simp
  from Cons.IH [OF this] w show ?case by auto
qed simp

lemma all_bits_eq:
  "\<forall>i\<in>set is. i div 64 < length ws \<Longrightarrow> all_bits is ws = Inr (\<forall>i\<in>set is. bit_set ws i)"
  by (induction "is") (simp_all add: test_bit_at_eq)

lemma div_ceil_64_bound: "i < unat m \<Longrightarrow> i div 64 < div_ceil_64 m"
  unfolding div_ceil_64_def by (simp add: div_less_iff_less_mult)

lemma unat_ucast_32: "unat (x :: u64) < 2 ^ 32 \<Longrightarrow> unat (ucast x :: u32) = unat x"
  by (simp add: unsigned_ucast_eq take_bit_nat_eq_self)

lemma positions_wf:
  assumes "bloom_wf b"
  obtains ps where "positions (num_bits b) (num_hashes b) h = Inr ps"
    and "\<forall>i\<in>set ps. i div 64 < length (bits b)"
proof -
  let ?m = "ucast (num_bits b) :: u32"
  have m: "unat ?m = unat (num_bits b)" and "0 < unat ?m"
    using assms unat_ucast_32 [of "num_bits b"] by (simp_all add: bloom_wf_def)
  then have "unat (x mod ?m) < unat (num_bits b)" for x
    by (simp add: unat_mod)
  then show ?thesis
    using assms \<open>0 < unat ?m\<close>
    by (intro that) (auto simp: positions_def Let_def bloom_wf_def intro!: div_ceil_64_bound)
qed

lemma add_hash_wf:
  assumes "bloom_wf b"
  obtains b' ps where "add_hash h b = Inr b'" and "bloom_wf b'"
    and "positions (num_bits b) (num_hashes b) h = Inr ps"
    and "num_bits b' = num_bits b" and "num_hashes b' = num_hashes b" and "hash b' = hash b"
    and "\<And>j. bit_set (bits b') j \<longleftrightarrow> bit_set (bits b) j \<or> j \<in> set ps"
proof -
  obtain ps where ps: "positions (num_bits b) (num_hashes b) h = Inr ps"
    "\<forall>i\<in>set ps. i div 64 < length (bits b)"
    using positions_wf [OF assms] by blast
  from set_bits_sets [OF ps(2)] obtain ws where ws: "set_bits ps (bits b) = Inr ws"
    "length ws = length (bits b)" "\<And>j. bit_set ws j \<longleftrightarrow> bit_set (bits b) j \<or> j \<in> set ps"
    by blast
  then show ?thesis
    using assms ps
    by (intro that [of "b\<lparr>bits := ws\<rparr>" ps]) (simp_all add: add_hash_def bloom_wf_def)
qed

lemma may_contain_hash_eq:
  assumes "bloom_wf b" and "positions (num_bits b) (num_hashes b) h = Inr ps"
  shows "may_contain_hash b h = Inr (\<forall>i\<in>set ps. bit_set (bits b) i)"
proof -
  obtain qs where "positions (num_bits b) (num_hashes b) h = Inr qs"
    and "\<forall>i\<in>set qs. i div 64 < length (bits b)"
    by (rule positions_wf [OF assms(1)])
  with assms(2) have "\<forall>i\<in>set ps. i div 64 < length (bits b)" by simp
  with assms(2) show ?thesis by (simp add: may_contain_hash_def all_bits_eq)
qed

fun add_hashes :: "u64 list \<Rightarrow> Bloom \<Rightarrow> Bloom result" where
  "add_hashes [] b = Inr b"
| "add_hashes (h # hs) b = rbind (add_hash h b) (add_hashes hs)"

lemma add_hashes_wf:
  "bloom_wf b \<Longrightarrow> \<exists>b'. add_hashes hs b = Inr b' \<and> bloom_wf b' \<and> num_bits b' = num_bits b \<and>
     num_hashes b' = num_hashes b \<and> hash b' = hash b \<and>
     (\<forall>j. bit_set (bits b) j \<longrightarrow> bit_set (bits b') j) \<and>
     (\<forall>h\<in>set hs. may_contain_hash b' h = Inr True)"
proof (induction hs arbitrary: b)
  case (Cons h hs)
  obtain b1 ps where b1: "add_hash h b = Inr b1" "bloom_wf b1"
    "positions (num_bits b) (num_hashes b) h = Inr ps"
    "num_bits b1 = num_bits b" "num_hashes b1 = num_hashes b" "hash b1 = hash b"
    "\<And>j. bit_set (bits b1) j \<longleftrightarrow> bit_set (bits b) j \<or> j \<in> set ps"
    by (rule add_hash_wf [OF Cons.prems, where h = h]) (rule that)
  from Cons.IH [OF b1(2)] obtain b2 where b2: "add_hashes hs b1 = Inr b2" "bloom_wf b2"
    "num_bits b2 = num_bits b1" "num_hashes b2 = num_hashes b1" "hash b2 = hash b1"
    "\<forall>j. bit_set (bits b1) j \<longrightarrow> bit_set (bits b2) j"
    "\<forall>h\<in>set hs. may_contain_hash b2 h = Inr True"
    by blast
  have "may_contain_hash b2 h = Inr True"
    using may_contain_hash_eq [OF b2(2), of h ps] b1 b2 by simp
  with b1 b2 show ?case by simp
qed simp

section \<open>Encoding\<close>

lemma foldl_append_u64:
  "foldl append_u64 dst ws = dst @ concat (map (to_le_bytes 8) ws)"
  by (induction ws arbitrary: dst) (simp_all add: append_u64_def)

lemma read_words_concat: "read_words (length ws) (concat (map (to_le_bytes 8) ws)) = Inr ws"
  by (induction ws) (simp_all add: wire_simps)

lemma length_concat_words: "length (concat (map (to_le_bytes 8) ws)) = length ws * 8"
  by (induction ws) simp_all

lemma bloom_encode_eq:
  "bloom_encode b = BLOOM_HASH_XXH3 # append_uvarint [] (num_bits b)
     @ append_uvarint [] (ucast (num_hashes b)) @ concat (map (to_le_bytes 8) (bits b))"
  unfolding bloom_encode_def Let_def foldl_append_u64
  by (subst append_uvarint_acc, subst append_uvarint_acc) simp

lemma read_words_total: "n * 8 \<le> length p \<Longrightarrow> \<exists>ws. read_words n p = Inr ws \<and> length ws = n"
proof (induction n arbitrary: p)
  case (Suc n)
  then have "n * 8 \<le> length (drop 8 p)" by simp
  from Suc.IH [OF this] obtain ws where "read_words n (drop 8 p) = Inr ws" "length ws = n" by blast
  with Suc.prems show ?case by (simp add: read_u64_def)
qed simp

lemma ucast_u32_u64_inverse: "ucast (ucast (k :: u32) :: u64) = k"
  by (rule bit_word_eqI) (simp add: bit_ucast_iff)

lemma unat_ucast_u64: "unat (ucast (k :: u32) :: u64) = unat k"
  using unsigned_less [of k, where ?'a = nat]
  by (simp add: unsigned_ucast_eq take_bit_nat_eq_self)

lemma bloom_new_wf: "bloom_wf (bloom_new mf kf)"
proof -
  have "unat (clamp (mf + 1) 64 0xFFFFFFFF :: u64) \<in> {64 .. 2 ^ 32 - 1}"
    by (auto simp: clamp_def word_less_nat_alt)
  moreover have "unat (clamp kf 1 30 :: u32) \<in> {1 .. 30}"
    by (auto simp: clamp_def word_less_nat_alt)
  ultimately show ?thesis
    by (simp add: bloom_new_def bloom_params_def bloom_wf_def)
qed

lemma read_words_length: "read_words n p = Inr ws \<Longrightarrow> length ws = n"
  by (induction n arbitrary: p ws) (auto simp: rbind_Inr_iff)

lemma ucast_u32_eq_0: "unat (x :: u64) \<le> 30 \<Longrightarrow> (ucast x :: u32) = 0 \<longleftrightarrow> x = 0"
proof -
  assume "unat x \<le> 30"
  then have "unat (ucast x :: u32) = unat x" by (intro unat_ucast_32) simp
  then show ?thesis by (metis unat_eq_zero)
qed

lemma bloom_decode_wf: "bloom_decode p = Inr b \<Longrightarrow> bloom_wf b"
  using read_words_length
  by (auto simp: bloom_decode_def bloom_wf_def rbind_Inr_iff Let_def MAX_K_def word_less_nat_alt
      unat_ucast_32 ucast_u32_eq_0 not_less unat_gt_0 split: list.splits if_splits)

lemma bloom_decode_no_panic: "bloom_decode p \<noteq> Inl Panic"
proof
  assume "bloom_decode p = Inl Panic"
  then obtain n q where "length q = n * 8" and "read_words n q = Inl Panic"
    by (auto simp: bloom_decode_def rbind_Inl_iff Let_def split: list.splits if_splits)
       (metis length_drop)
  then show False using read_words_total [of n q] by auto
qed

lemma bloom_decode_encode:
  assumes "bloom_wf b"
  shows "bloom_decode (bloom_encode b) = Inr b"
proof -
  have m: "num_bits b \<noteq> 0" "\<not> 0xFFFFFFFF < num_bits b"
    using assms by (auto simp: bloom_wf_def word_less_nat_alt)
  have "unat (ucast (num_hashes b) :: u64) = unat (num_hashes b)"
    by (rule unat_ucast_u64)
  then have k: "(ucast (num_hashes b) :: u64) \<noteq> 0" "\<not> MAX_K < ucast (num_hashes b)"
    using assms by (auto simp: bloom_wf_def MAX_K_def word_less_nat_alt)
  have len: "length (bits b) = div_ceil_64 (num_bits b)" using assms by (simp add: bloom_wf_def)
  obtain h where h: "hash b = h" "h = Xxh3" by (cases "hash b") auto
  show ?thesis
    unfolding bloom_encode_eq
    using m k h len [symmetric]
    by (simp add: bloom_decode_def wire_simps length_concat_words read_words_concat Let_def
        ucast_u32_u64_inverse)
qed

lemma may_contain_hash_no_panic:
  assumes "bloom_wf b"
  shows "\<exists>r. may_contain_hash b h = Inr r" and "\<exists>b'. add_hash h b = Inr b'"
proof -
  obtain ps where "positions (num_bits b) (num_hashes b) h = Inr ps"
    by (rule positions_wf [OF assms])
  then show "\<exists>r. may_contain_hash b h = Inr r"
    using may_contain_hash_eq [OF assms] by blast
  show "\<exists>b'. add_hash h b = Inr b'"
    by (rule add_hash_wf [OF assms, where h = h]) blast
qed

section \<open>Properties\<close>

text \<open>
  C29. No false negatives, across persistence: for any clamped filter parameters and any
  keys, building the filter from the keys' hashes succeeds, the built filter is decoded
  from its own encoding unchanged, and every key that was added is reported as possibly
  present.
\<close>

theorem bloom_no_false_negatives:
  "\<exists>b. add_hashes (map xxh3 keys) (bloom_new mf kf) = Inr b \<and>
     bloom_decode (bloom_encode b) = Inr b \<and>
     (\<forall>key. key \<in> set keys \<longrightarrow> may_contain xxh3 b key = Inr True)"
proof -
  obtain b where b: "add_hashes (map xxh3 keys) (bloom_new mf kf) = Inr b" "bloom_wf b"
    "\<forall>h\<in>set (map xxh3 keys). may_contain_hash b h = Inr True"
    using add_hashes_wf [OF bloom_new_wf, of "map xxh3 keys"] by blast
  moreover have "hash b = Xxh3" by (cases "hash b") simp
  ultimately show ?thesis
    using bloom_decode_encode by (auto simp: may_contain_def hash_of_def)
qed

theorem bloom_no_false_negatives_witness:
  "\<exists>b. add_hashes (map (\<lambda>k. of_nat (length k)) [[1], [2, 3]]) (bloom_new 100 7) = Inr b \<and>
     may_contain (\<lambda>k. of_nat (length k)) b [2, 3] = Inr True"
  using bloom_no_false_negatives [of "\<lambda>k. of_nat (length k)" "[[1], [2, 3]]" 100 7] by auto

text \<open>
  C30. Hostile filter bytes are harmless: decoding an arbitrary block never panics, and a
  filter that decodes can be probed with and extended by every hash without a panic.
\<close>

theorem bloom_decode_safe:
  "case bloom_decode p of
     Inl e \<Rightarrow> e \<noteq> Panic
   | Inr b \<Rightarrow> (\<exists>r. may_contain_hash b h = Inr r) \<and> (\<exists>b'. add_hash h b = Inr b')"
  using bloom_decode_no_panic [of p] bloom_decode_wf [of p] may_contain_hash_no_panic
  by (cases "bloom_decode p") auto

end
