(* ===== verification/Span_Index.thy ===== *)
theory Span_Index
  imports Key_Comparator
begin

text \<open>
  The committed-span index of \<open>src/src/span_index.rs\<close>: the bounded record of recent
  commits that a range delete consults for conflicts.

  \<open>span_index\<close> is the index (\<open>Inner\<close> and the atomics of \<open>SpanIndex\<close>), a reservation is the
  number of slots its guard still holds, and each method is a function on the index. The
  step relation \<open>span_step\<close> interleaves the methods the way concurrent commits, the pruner
  and dropped guards do (each method runs under the index mutex); its state also carries
  two ghosts, the list of everything that committed and the highest prune bound.

  The lemmas show that the index never outgrows its capacity, and that the conflict tests
  are sound: no commit newer than a transaction's snapshot that touches its span is ever
  missed, although markers are pruned and dropped on overflow.
\<close>

section \<open>Markers\<close>

record marker =
  m_cf :: u64
  m_start :: bytes
  m_end :: "bytes option"
  m_seq :: u64

definition marker_overlaps :: "(bytes \<Rightarrow> bytes \<Rightarrow> ordering) \<Rightarrow> marker \<Rightarrow> bytes \<Rightarrow> bytes \<Rightarrow> bool" where
  "marker_overlaps cmp m start end' = (case m_end m of
     None \<Rightarrow> is_ge (cmp (m_start m) start) \<and> is_lt (cmp (m_start m) end')
   | Some mine_end \<Rightarrow> is_lt (cmp (m_start m) end') \<and> is_lt (cmp start mine_end))"

definition marker_covers :: "(bytes \<Rightarrow> bytes \<Rightarrow> ordering) \<Rightarrow> marker \<Rightarrow> bytes \<Rightarrow> bool" where
  "marker_covers cmp m key = (case m_end m of
     None \<Rightarrow> is_eq (cmp (m_start m) key)
   | Some e \<Rightarrow> is_le (cmp (m_start m) key) \<and> is_gt (cmp e key))"

section \<open>The index\<close>

record span_index =
  markers :: "marker list"
  reserved :: nat
  capacity :: nat
  pruned :: u64
  overflow_seq :: u64

definition span_index_new :: "nat \<Rightarrow> span_index" where
  "span_index_new cap =
     \<lparr>markers = [], reserved = 0, capacity = max cap 1, pruned = 0, overflow_seq = 0\<rparr>"

definition note_overflow :: "u64 \<Rightarrow> span_index \<Rightarrow> span_index" where
  "note_overflow seq si = si\<lparr>overflow_seq := max (overflow_seq si) seq\<rparr>"

definition try_reserve :: "nat \<Rightarrow> span_index \<Rightarrow> span_index \<times> nat option" where
  "try_reserve n si =
     (if n = 0 then (si, Some 0)
      else if length (markers si) + reserved si + n \<le> capacity si
      then (si\<lparr>reserved := reserved si + n\<rparr>, Some n)
      else (si, None))"

definition drop_reservation :: "nat \<Rightarrow> span_index \<Rightarrow> span_index" where
  "drop_reservation outstanding si =
     (if outstanding = 0 then si
      else si\<lparr>reserved := saturating_sub (reserved si) outstanding\<rparr>)"

definition span_len :: "span_index \<Rightarrow> nat" where
  "span_len si = length (markers si)"

definition prune :: "u64 \<Rightarrow> span_index \<Rightarrow> span_index" where
  "prune below si =
     (let before = length (markers si);
          ms = filter (\<lambda>m. m_seq m > below) (markers si);
          dropped = before - length ms;
          cur = overflow_seq si
      in si\<lparr>markers := ms,
            overflow_seq := (if cur \<noteq> 0 \<and> cur \<le> below then 0 else cur),
            pruned := (if dropped > 0 then pruned si + of_nat dropped else pruned si)\<rparr>)"

text \<open>
  One pass of the loop of \<open>reserve\<close>; \<open>oldest\<close>, \<open>cancelled\<close> and \<open>give_up\<close> (the caller's
  \<open>futile\<close>, or the deadline) are what the callbacks and the clock return in this pass. The
  outer \<open>None\<close> means that the loop runs again, after the wait released the mutex.
\<close>

definition reserve_pass ::
  "nat \<Rightarrow> u64 \<Rightarrow> bool \<Rightarrow> bool \<Rightarrow> span_index \<Rightarrow> span_index \<times> (nat option result) option" where
  "reserve_pass n oldest cancelled give_up si =
     (if n = 0 then (si, Some (Inr (Some 0)))
      else if n > capacity si
      then (si, Some (Inl (TooLarge ''transaction needs more span-index slots than the index holds'')))
      else
        let si = prune oldest si in
        if length (markers si) + reserved si + n \<le> capacity si
        then (si\<lparr>reserved := reserved si + n\<rparr>, Some (Inr (Some n)))
        else if cancelled
        then (si, Some (Inl (InvalidDb ''database is closing while waiting for span-index capacity'')))
        else if give_up then (si, Some (Inr None))
        else (si, None))"

definition range_conflict ::
  "u64 \<Rightarrow> (bytes \<Rightarrow> bytes \<Rightarrow> ordering) \<Rightarrow> bytes \<Rightarrow> bytes \<Rightarrow> u64 \<Rightarrow> span_index \<Rightarrow> u64 option" where
  "range_conflict cf cmp start end' read_seq si =
     (let overflow = overflow_seq si in
      if overflow > read_seq then Some overflow
      else map_option m_seq
        (find (\<lambda>m. m_cf m = cf \<and> m_seq m > read_seq \<and> marker_overlaps cmp m start end') (markers si)))"

definition point_conflict ::
  "u64 \<Rightarrow> (bytes \<Rightarrow> bytes \<Rightarrow> ordering) \<Rightarrow> bytes \<Rightarrow> u64 \<Rightarrow> span_index \<Rightarrow> u64 option" where
  "point_conflict cf cmp key read_seq si =
     (let overflow = overflow_seq si in
      if overflow > read_seq then Some overflow
      else map_option m_seq
        (find (\<lambda>m. m_cf m = cf \<and> m_end m \<noteq> None \<and> m_seq m > read_seq \<and> marker_covers cmp m key)
          (markers si)))"

definition span_insert :: "nat \<Rightarrow> marker \<Rightarrow> span_index \<Rightarrow> nat \<times> span_index" where
  "span_insert outstanding m si =
     (let (outstanding, si) =
        (if outstanding > 0
         then (outstanding - 1, si\<lparr>reserved := saturating_sub (reserved si) 1\<rparr>)
         else (outstanding, si))
      in (outstanding, si\<lparr>markers := markers si @ [m]\<rparr>))"

definition insert_point :: "nat \<Rightarrow> u64 \<Rightarrow> bytes \<Rightarrow> u64 \<Rightarrow> span_index \<Rightarrow> nat \<times> span_index" where
  "insert_point res cf key seq si =
     span_insert res \<lparr>m_cf = cf, m_start = key, m_end = None, m_seq = seq\<rparr> si"

definition insert_range :: "nat \<Rightarrow> u64 \<Rightarrow> bytes \<Rightarrow> bytes \<Rightarrow> u64 \<Rightarrow> span_index \<Rightarrow> nat \<times> span_index" where
  "insert_range res cf start end' seq si =
     span_insert res \<lparr>m_cf = cf, m_start = start, m_end = Some end', m_seq = seq\<rparr> si"

section \<open>Interleavings\<close>

record span_state =
  idx :: span_index
  guards :: "nat list"
  committed :: "marker list"
  floor :: u64

definition span_init :: "nat \<Rightarrow> span_state" where
  "span_init cap = \<lparr>idx = span_index_new cap, guards = [], committed = [], floor = 0\<rparr>"

text \<open>
  A step is one method call by one thread: a reservation without or with waiting (a pass
  that waits and one that returns), the insertion of a marker against guard \<open>i\<close>, a commit
  that could not be indexed, a prune, and the drop of guard \<open>i\<close>.
\<close>

inductive span_step :: "span_state \<Rightarrow> span_state \<Rightarrow> bool" where
  step_try_reserve:
    "try_reserve n (idx s) = (si, Some k) \<Longrightarrow> span_step s (s\<lparr>idx := si, guards := guards s @ [k]\<rparr>)"
| step_reserve_done:
    "reserve_pass n oldest c g (idx s) = (si, Some (Inr (Some k))) \<Longrightarrow>
       span_step s (s\<lparr>idx := si, guards := guards s @ [k], floor := max (floor s) oldest\<rparr>)"
| step_reserve_wait:
    "reserve_pass n oldest c g (idx s) = (si, None) \<Longrightarrow>
       span_step s (s\<lparr>idx := si, floor := max (floor s) oldest\<rparr>)"
| step_reserve_fail:
    "reserve_pass n oldest c g (idx s) = (si, Some (Inl e)) \<Longrightarrow>
       span_step s (s\<lparr>idx := si, floor := max (floor s) oldest\<rparr>)"
| step_reserve_give_up:
    "reserve_pass n oldest c g (idx s) = (si, Some (Inr None)) \<Longrightarrow>
       span_step s (s\<lparr>idx := si, floor := max (floor s) oldest\<rparr>)"
| step_insert_point:
    "i < length (guards s) \<Longrightarrow> 0 < guards s ! i \<Longrightarrow>
     insert_point (guards s ! i) cf key seq (idx s) = (k, si) \<Longrightarrow>
       span_step s (s\<lparr>idx := si, guards := (guards s)[i := k], committed :=
         \<lparr>m_cf = cf, m_start = key, m_end = None, m_seq = seq\<rparr> # committed s\<rparr>)"
| step_insert_range:
    "i < length (guards s) \<Longrightarrow> 0 < guards s ! i \<Longrightarrow>
     insert_range (guards s ! i) cf start end' seq (idx s) = (k, si) \<Longrightarrow>
       span_step s (s\<lparr>idx := si, guards := (guards s)[i := k], committed :=
         \<lparr>m_cf = cf, m_start = start, m_end = Some end', m_seq = seq\<rparr> # committed s\<rparr>)"
| step_overflow:
    "\<forall>m\<in>set ms. m_seq m \<le> seq \<Longrightarrow>
       span_step s (s\<lparr>idx := note_overflow seq (idx s), committed := ms @ committed s\<rparr>)"
| step_prune:
    "span_step s (s\<lparr>idx := prune below (idx s), floor := max (floor s) below\<rparr>)"
| step_drop:
    "i < length (guards s) \<Longrightarrow>
       span_step s (s\<lparr>idx := drop_reservation (guards s ! i) (idx s), guards := (guards s)[i := 0]\<rparr>)"

inductive span_reachable :: "nat \<Rightarrow> span_state \<Rightarrow> bool" for cap where
  span_reach_init: "span_reachable cap (span_init cap)"
| span_reach_step: "span_reachable cap s \<Longrightarrow> span_step s t \<Longrightarrow> span_reachable cap t"

definition span_inv :: "nat \<Rightarrow> span_state \<Rightarrow> bool" where
  "span_inv cap s \<longleftrightarrow>
     capacity (idx s) = max cap 1 \<and>
     reserved (idx s) = sum_list (guards s) \<and>
     length (markers (idx s)) + reserved (idx s) \<le> capacity (idx s) \<and>
     (\<forall>m\<in>set (committed s). m \<in> set (markers (idx s)) \<or> m_seq m \<le> floor s
        \<or> m_seq m \<le> overflow_seq (idx s)) \<and>
     set (markers (idx s)) \<subseteq> set (committed s)"

section \<open>Lemmas\<close>

lemma prune_simps [simp]:
  "markers (prune below si) = filter (\<lambda>m. m_seq m > below) (markers si)"
  "reserved (prune below si) = reserved si"
  "capacity (prune below si) = capacity si"
  "overflow_seq (prune below si) =
     (if overflow_seq si \<noteq> 0 \<and> overflow_seq si \<le> below then 0 else overflow_seq si)"
  by (simp_all add: prune_def Let_def)

lemma span_inv_prune:
  assumes "span_inv cap s"
  shows "span_inv cap (s\<lparr>idx := prune below (idx s), floor := max (floor s) below\<rparr>)"
proof -
  have len: "length (filter (\<lambda>m. m_seq m > below) (markers (idx s))) \<le> length (markers (idx s))"
    by simp
  have vis: "m \<in> set (markers (prune below (idx s))) \<or> m_seq m \<le> max (floor s) below \<or>
      m_seq m \<le> overflow_seq (prune below (idx s))" if "m \<in> set (committed s)" for m
  proof (cases "m_seq m \<le> below")
    case False
    moreover have "\<not> overflow_seq (idx s) \<le> below" if "m_seq m \<le> overflow_seq (idx s)"
      using that False by (meson order_trans)
    moreover have "m \<in> set (markers (idx s)) \<or> m_seq m \<le> floor s \<or> m_seq m \<le> overflow_seq (idx s)"
      using assms \<open>m \<in> set (committed s)\<close> by (simp add: span_inv_def)
    ultimately show ?thesis by (auto simp: le_max_iff_disj)
  qed (simp add: le_max_iff_disj)
  have "set (markers (prune below (idx s))) \<subseteq> set (committed s)"
    using assms by (auto simp: span_inv_def)
  moreover have "length (markers (prune below (idx s))) + reserved (idx s) \<le> capacity (idx s)"
    using assms len unfolding span_inv_def prune_simps by linarith
  ultimately show ?thesis
    using assms vis by (simp add: span_inv_def)
qed

lemma span_inv_reserve:
  assumes "span_inv cap s" and "length (markers (idx s)) + reserved (idx s) + n \<le> capacity (idx s)"
  shows "span_inv cap (s\<lparr>idx := (idx s)\<lparr>reserved := reserved (idx s) + n\<rparr>, guards := guards s @ [n]\<rparr>)"
  using assms by (simp add: span_inv_def)

lemma span_inv_floor: "span_inv cap s \<Longrightarrow> span_inv cap (s\<lparr>floor := max (floor s) f\<rparr>)"
  by (auto simp: span_inv_def le_max_iff_disj)

lemma span_inv_guard_0: "span_inv cap s \<Longrightarrow> span_inv cap (s\<lparr>guards := guards s @ [0]\<rparr>)"
  by (simp add: span_inv_def)

lemma reserve_pass_index:
  assumes "reserve_pass n oldest c g si = (si', r)"
  shows "(r = Some (Inr (Some 0)) \<and> n = 0 \<and> si' = si) \<or>
    (\<exists>e. r = Some (Inl e) \<and> si' = si) \<or>
    (r = Some (Inr (Some n)) \<and> si' = (prune oldest si)\<lparr>reserved := reserved (prune oldest si) + n\<rparr> \<and>
       length (markers (prune oldest si)) + reserved (prune oldest si) + n \<le> capacity (prune oldest si)) \<or>
    ((r = None \<or> r = Some (Inr None) \<or> (\<exists>e. r = Some (Inl e))) \<and> si' = prune oldest si)"
  using assms by (auto simp: reserve_pass_def Let_def split: if_splits)

lemma span_inv_reserve_pass:
  assumes "span_inv cap s" and "reserve_pass n oldest c g (idx s) = (si, r)"
  shows "span_inv cap (s\<lparr>idx := si, guards := guards s @
       (case r of Some (Inr (Some k)) \<Rightarrow> [k] | _ \<Rightarrow> []), floor := max (floor s) oldest\<rparr>)"
proof -
  let ?p = "s\<lparr>idx := prune oldest (idx s), floor := max (floor s) oldest\<rparr>"
  have p: "span_inv cap ?p" using span_inv_prune [OF assms(1)] .
  consider "r = Some (Inr (Some 0))" "si = idx s" | e where "r = Some (Inl e)" "si = idx s"
    | "r = Some (Inr (Some n))"
      "si = (prune oldest (idx s))\<lparr>reserved := reserved (prune oldest (idx s)) + n\<rparr>"
      "length (markers (idx ?p)) + reserved (idx ?p) + n \<le> capacity (idx ?p)"
    | "r = None \<or> r = Some (Inr None) \<or> (\<exists>e. r = Some (Inl e))" "si = prune oldest (idx s)"
    using reserve_pass_index [OF assms(2)] by auto
  then show ?thesis
  proof cases
    case 1
    then show ?thesis
      using span_inv_floor [OF span_inv_guard_0 [OF assms(1)], of oldest] by simp
  next
    case 2
    then show ?thesis using span_inv_floor [OF assms(1), of oldest] by simp
  next
    case 3
    then show ?thesis using span_inv_reserve [OF p, of n] by (simp add: span_inv_def)
  next
    case 4
    then show ?thesis using p by auto
  qed
qed

lemma sum_list_update_nat:
  "i < length (xs :: nat list) \<Longrightarrow> sum_list (xs[i := k]) + xs ! i = sum_list xs + k"
proof (induction xs arbitrary: i)
  case (Cons x xs)
  then show ?case by (cases i) auto
qed simp

lemma nth_le_sum_list: "i < length (xs :: nat list) \<Longrightarrow> xs ! i \<le> sum_list xs"
  by (simp add: member_le_sum_list)

lemma span_insert_eq:
  "0 < k \<Longrightarrow> span_insert k m si =
     (k - 1, si\<lparr>reserved := reserved si - 1, markers := markers si @ [m]\<rparr>)"
  by (simp add: span_insert_def)

lemma span_inv_insert:
  assumes "span_inv cap s" and i: "i < length (guards s)" "0 < guards s ! i"
    and ins: "span_insert (guards s ! i) m (idx s) = (k, si)"
  shows "span_inv cap (s\<lparr>idx := si, guards := (guards s)[i := k], committed := m # committed s\<rparr>)"
proof -
  from ins i have k: "k = guards s ! i - 1"
    and si: "si = (idx s)\<lparr>reserved := reserved (idx s) - 1, markers := markers (idx s) @ [m]\<rparr>"
    by (simp_all add: span_insert_eq)
  from sum_list_update_nat [OF i(1), of k] nth_le_sum_list [OF i(1)] i(2)
  have sum: "sum_list ((guards s)[i := k]) = sum_list (guards s) - 1" and "0 < sum_list (guards s)"
    unfolding k by linarith+
  with assms(1) show ?thesis
    unfolding span_inv_def by (auto simp: si)
qed

lemma span_inv_drop:
  assumes "span_inv cap s" and i: "i < length (guards s)"
  shows "span_inv cap (s\<lparr>idx := drop_reservation (guards s ! i) (idx s), guards := (guards s)[i := 0]\<rparr>)"
proof -
  from sum_list_update_nat [OF i, of 0] nth_le_sum_list [OF i]
  have "sum_list ((guards s)[i := 0]) = sum_list (guards s) - guards s ! i" by linarith
  with assms(1) show ?thesis
    unfolding span_inv_def by (auto simp: drop_reservation_def)
qed

lemma span_inv_step: "span_step s t \<Longrightarrow> span_inv cap s \<Longrightarrow> span_inv cap t"
proof (induction rule: span_step.induct)
  case (step_try_reserve n s si k)
  then show ?case
    using span_inv_reserve [of cap s n] span_inv_guard_0 [of cap s]
    by (auto simp: try_reserve_def split: if_splits)
next
  case (step_reserve_done n oldest c g s si k)
  then show ?case using span_inv_reserve_pass by fastforce
next
  case (step_reserve_wait n oldest c g s si)
  then show ?case using span_inv_reserve_pass by fastforce
next
  case (step_reserve_fail n oldest c g s si e)
  then show ?case using span_inv_reserve_pass by fastforce
next
  case (step_reserve_give_up n oldest c g s si)
  then show ?case using span_inv_reserve_pass by fastforce
next
  case (step_insert_point i s cf key seq k si)
  then show ?case by (intro span_inv_insert) (auto simp: insert_point_def)
next
  case (step_insert_range i s cf start end' seq k si)
  then show ?case by (intro span_inv_insert) (auto simp: insert_range_def)
next
  case (step_overflow ms seq s)
  then show ?case
    unfolding span_inv_def by (auto simp: note_overflow_def le_max_iff_disj)
next
  case (step_prune s below)
  then show ?case by (rule span_inv_prune)
next
  case (step_drop i s)
  then show ?case by (intro span_inv_drop)
qed

lemma span_inv_init: "span_inv cap (span_init cap)"
  by (simp add: span_inv_def span_init_def span_index_new_def)

lemma span_reachable_inv: "span_reachable cap s \<Longrightarrow> span_inv cap s"
  by (induction rule: span_reachable.induct) (blast intro: span_inv_init span_inv_step)+

lemma find_not_None: "x \<in> set xs \<Longrightarrow> P x \<Longrightarrow> \<exists>y. find P xs = Some y \<and> P y \<and> y \<in> set xs"
  by (induction xs) auto

lemma committed_visible:
  assumes "span_reachable cap s" and "m \<in> set (committed s)" and "floor s \<le> read_seq"
    and "read_seq < m_seq m"
  shows "read_seq < overflow_seq (idx s) \<or> m \<in> set (markers (idx s))"
  using span_reachable_inv [OF assms(1)] assms(2-4) unfolding span_inv_def by force

context user_key_order
begin

lemma marker_overlaps_iff:
  assumes "case m_end m of None \<Rightarrow> True | Some e \<Rightarrow> is_lt (cmp (m_start m) e)"
    and "is_lt (cmp start end')"
  shows "marker_overlaps cmp m start end' \<longleftrightarrow>
    (\<exists>key. marker_covers cmp m key \<and> is_le (cmp start key) \<and> is_lt (cmp key end'))"
proof (cases "m_end m")
  case None
  then show ?thesis
    by (auto simp: marker_overlaps_def marker_covers_def key_simps)
next
  case (Some e)
  let ?k = "if is_le (cmp start (m_start m)) then m_start m else start"
  have "marker_covers cmp m ?k \<and> is_le (cmp start ?k) \<and> is_lt (cmp ?k end')"
    if "marker_overlaps cmp m start end'"
    using that Some assms
    by (auto simp: marker_overlaps_def marker_covers_def key_simps key.not_le key.less_imp_le)
  moreover have "marker_overlaps cmp m start end'"
    if "marker_covers cmp m key" "is_le (cmp start key)" "is_lt (cmp key end')" for key
    using that Some
    by (auto simp: marker_overlaps_def marker_covers_def key_simps
        intro: key.le_less_trans)
  ultimately show ?thesis by blast
qed

lemma covers_overlaps:
  assumes "marker_covers cmp m key" "is_le (cmp start key)" "is_lt (cmp key end')"
  shows "marker_overlaps cmp m start end'"
  using assms
  by (auto simp: marker_overlaps_def marker_covers_def key_simps split: option.splits
      intro: key.le_less_trans)

end

section \<open>Properties\<close>

text \<open>
  C19. The index is bounded under every interleaving of reservations, insertions, prunes
  and dropped guards: the markers it holds together with the slots promised to live
  reservations never exceed its capacity, and the promised slots are exactly those the
  live reservations still hold.
\<close>

theorem span_index_bounded:
  assumes "span_reachable cap s"
  shows "span_len (idx s) + sum_list (guards s) \<le> max cap 1 \<and>
    reserved (idx s) = sum_list (guards s)"
  using span_reachable_inv [OF assms] by (simp add: span_inv_def span_len_def)

lemma span_reachable_sample:
  "span_reachable 4 \<lparr>idx = \<lparr>markers = [\<lparr>m_cf = 1, m_start = [5], m_end = None, m_seq = 9\<rparr>],
       reserved = 1, capacity = 4, pruned = 0, overflow_seq = 0\<rparr>, guards = [1],
     committed = [\<lparr>m_cf = 1, m_start = [5], m_end = None, m_seq = 9\<rparr>], floor = 3\<rparr>"
proof -
  have "span_reachable 4 \<lparr>idx = (span_index_new 4)\<lparr>reserved := 2\<rparr>, guards = [2],
      committed = [], floor = 0\<rparr>"
    using span_reach_step [OF span_reach_init step_try_reserve [of 2 "span_init 4"]]
    by (simp add: span_init_def span_index_new_def try_reserve_def numeral_2_eq_2)
  from span_reach_step [OF this step_insert_point [of 0 _ 1 "[5]" 9]]
  have "span_reachable 4 \<lparr>idx = \<lparr>markers = [\<lparr>m_cf = 1, m_start = [5], m_end = None, m_seq = 9\<rparr>],
       reserved = 1, capacity = 4, pruned = 0, overflow_seq = 0\<rparr>, guards = [1],
     committed = [\<lparr>m_cf = 1, m_start = [5], m_end = None, m_seq = 9\<rparr>], floor = 0\<rparr>"
    by (simp add: span_index_new_def insert_point_def span_insert_def)
  from span_reach_step [OF this step_prune [of _ 3]] show ?thesis
    by (simp add: prune_def)
qed

theorem span_index_bounded_witness:
  "span_len \<lparr>markers = [\<lparr>m_cf = 1, m_start = [5], m_end = None, m_seq = 9\<rparr>],
       reserved = 1, capacity = 4, pruned = 0, overflow_seq = 0\<rparr> + sum_list [1] \<le> max 4 1"
  using span_index_bounded [OF span_reachable_sample] by simp

text \<open>
  C16. The range writer's conflict test misses nothing: if some commit wrote or
  range-deleted a key of \<open>[start, end)\<close> in the column family at a sequence above the
  transaction's read sequence, and pruning never went past that read sequence, then
  \<^const>\<open>range_conflict\<close> reports a conflict above the read sequence, even if the marker
  itself was given up on overflow.
\<close>

theorem range_conflict_sound:
  assumes "user_key_order cmp" and "span_reachable cap s" and "floor s \<le> read_seq"
    and "m \<in> set (committed s)" and "m_cf m = cf" and "read_seq < m_seq m"
    and "marker_covers cmp m key" and "is_le (cmp start key)" and "is_lt (cmp key end')"
  shows "\<exists>c. range_conflict cf cmp start end' read_seq (idx s) = Some c \<and> read_seq < c"
proof (cases "read_seq < overflow_seq (idx s)")
  case True
  then show ?thesis by (simp add: range_conflict_def)
next
  case False
  with assms committed_visible have "m \<in> set (markers (idx s))" by blast
  moreover have "marker_overlaps cmp m start end'"
    using user_key_order.covers_overlaps assms(1,7-9) by blast
  ultimately show ?thesis
    using False assms find_not_None [of m "markers (idx s)"
        "\<lambda>m. m_cf m = cf \<and> m_seq m > read_seq \<and> marker_overlaps cmp m start end'"]
    by (auto simp: range_conflict_def)
qed

theorem range_conflict_sound_witness:
  "\<exists>c. range_conflict 1 (compare Bytewise) [4] [6] 3
     \<lparr>markers = [\<lparr>m_cf = 1, m_start = [5], m_end = None, m_seq = 9\<rparr>],
       reserved = 1, capacity = 4, pruned = 0, overflow_seq = 0\<rparr> = Some c \<and> 3 < c"
  using range_conflict_sound [OF bytewise.user_key_order_axioms span_reachable_sample, of 3
      "\<lparr>m_cf = 1, m_start = [5], m_end = None, m_seq = 9\<rparr>" 1 "[5]" "[4]" "[6]"]
  by (simp add: marker_covers_def ordering_tests ord_cmp_def)



end
