(* ===== verification/Range_Lock.thy ===== *)
theory Range_Lock
  imports Key_Comparator
begin

text \<open>
  The key-range locks of \<open>src/src/range_lock.rs\<close>. \<open>held\<close> is the state under the mutex;
  \<open>try_acquire\<close> is the method of the same name, \<open>acquire_blocking_pass\<close> one pass of the
  loop of \<open>acquire_blocking\<close> (\<open>None\<close>: the caller waits and runs it again), and \<open>release\<close>
  what dropping a guard does. \<open>lock_step\<close> interleaves them; its state carries the tokens
  of the live guards and the number of acquisitions so far.

  The lemmas show that \<open>overlaps\<close> decides whether two spans share a key, that in every
  reachable state no key lies in two held ranges, and that a guard's drop frees exactly
  the range it was given, as long as fewer than \<open>2^64\<close> guards were ever handed out.
\<close>

record key_range =
  kr_min :: "bytes option"
  kr_max :: "bytes option"

definition key_range_all :: key_range where
  "key_range_all = \<lparr>kr_min = None, kr_max = None\<rparr>"

definition key_range_new :: "bytes \<Rightarrow> bytes \<Rightarrow> key_range" where
  "key_range_new lo hi = \<lparr>kr_min = Some lo, kr_max = Some hi\<rparr>"

fun union_loop :: "(bytes \<Rightarrow> bytes \<Rightarrow> ordering) \<Rightarrow> bytes \<Rightarrow> bytes \<Rightarrow> (bytes \<times> bytes) list \<Rightarrow> key_range" where
  "union_loop cmp lo hi [] = key_range_new lo hi"
| "union_loop cmp lo hi ((l, h) # it) =
     union_loop cmp (if is_lt (cmp l lo) then l else lo) (if is_gt (cmp h hi) then h else hi) it"

definition key_range_union ::
  "(bytes \<Rightarrow> bytes \<Rightarrow> ordering) \<Rightarrow> (bytes \<times> bytes) list \<Rightarrow> key_range option" where
  "key_range_union cmp spans = (case spans of
     [] \<Rightarrow> None
   | (lo, hi) # it \<Rightarrow> Some (union_loop cmp lo hi it))"

definition key_range_overlaps :: "(bytes \<Rightarrow> bytes \<Rightarrow> ordering) \<Rightarrow> key_range \<Rightarrow> key_range \<Rightarrow> bool" where
  "key_range_overlaps cmp a b =
     (let a_before_b = (case (kr_max a, kr_min b) of
            (Some amax, Some bmin) \<Rightarrow> is_lt (cmp amax bmin) | _ \<Rightarrow> False);
          b_before_a = (case (kr_max b, kr_min a) of
            (Some bmax, Some amin) \<Rightarrow> is_lt (cmp bmax amin) | _ \<Rightarrow> False)
      in \<not> (a_before_b \<or> b_before_a))"

record held =
  ranges :: "(u64 \<times> key_range) list"
  next_token :: u64

definition range_locks_new :: held where
  "range_locks_new = \<lparr>ranges = [], next_token = 0\<rparr>"

definition try_acquire ::
  "(bytes \<Rightarrow> bytes \<Rightarrow> ordering) \<Rightarrow> key_range \<Rightarrow> held \<Rightarrow> held \<times> u64 option" where
  "try_acquire cmp rng h =
     (if list_ex (\<lambda>(_, r). key_range_overlaps cmp r rng) (ranges h) then (h, None)
      else let token = next_token h
           in (h\<lparr>next_token := token + 1, ranges := ranges h @ [(token, rng)]\<rparr>, Some token))"

definition acquire_blocking_pass ::
  "(bytes \<Rightarrow> bytes \<Rightarrow> ordering) \<Rightarrow> key_range \<Rightarrow> held \<Rightarrow> held \<times> u64 option" where
  "acquire_blocking_pass cmp rng h =
     (if \<not> list_ex (\<lambda>(_, r). key_range_overlaps cmp r rng) (ranges h)
      then let token = next_token h
           in (h\<lparr>next_token := token + 1, ranges := ranges h @ [(token, rng)]\<rparr>, Some token)
      else (h, None))"

definition release :: "u64 \<Rightarrow> held \<Rightarrow> held" where
  "release token h = h\<lparr>ranges := filter (\<lambda>(t, _). t \<noteq> token) (ranges h)\<rparr>"

section \<open>Interleavings\<close>

record lock_state =
  held_st :: held
  live :: "(u64 \<times> key_range) list"
  acquired :: nat

definition lock_init :: lock_state where
  "lock_init = \<lparr>held_st = range_locks_new, live = [], acquired = 0\<rparr>"

inductive lock_step :: "(bytes \<Rightarrow> bytes \<Rightarrow> ordering) \<Rightarrow> lock_state \<Rightarrow> lock_state \<Rightarrow> bool" for cmp where
  lock_try:
    "try_acquire cmp rng (held_st s) = (h, Some t) \<Longrightarrow>
       lock_step cmp s \<lparr>held_st = h, live = live s @ [(t, rng)], acquired = acquired s + 1\<rparr>"
| lock_blocking:
    "acquire_blocking_pass cmp rng (held_st s) = (h, Some t) \<Longrightarrow>
       lock_step cmp s \<lparr>held_st = h, live = live s @ [(t, rng)], acquired = acquired s + 1\<rparr>"
| lock_drop:
    "i < length (live s) \<Longrightarrow>
       lock_step cmp s (s\<lparr>held_st := release (fst (live s ! i)) (held_st s),
         live := take i (live s) @ drop (Suc i) (live s)\<rparr>)"

inductive lock_reachable :: "(bytes \<Rightarrow> bytes \<Rightarrow> ordering) \<Rightarrow> lock_state \<Rightarrow> bool" for cmp where
  lock_reach_init: "lock_reachable cmp lock_init"
| lock_reach_step: "lock_reachable cmp s \<Longrightarrow> lock_step cmp s t \<Longrightarrow> lock_reachable cmp t"

section \<open>Lemmas\<close>

definition in_range :: "(bytes \<Rightarrow> bytes \<Rightarrow> ordering) \<Rightarrow> bytes \<Rightarrow> key_range \<Rightarrow> bool" where
  "in_range cmp k r \<longleftrightarrow>
     (case kr_min r of None \<Rightarrow> True | Some lo \<Rightarrow> is_le (cmp lo k)) \<and>
     (case kr_max r of None \<Rightarrow> True | Some hi \<Rightarrow> is_le (cmp k hi))"

definition range_nonempty :: "(bytes \<Rightarrow> bytes \<Rightarrow> ordering) \<Rightarrow> key_range \<Rightarrow> bool" where
  "range_nonempty cmp r \<longleftrightarrow> (case (kr_min r, kr_max r) of
     (Some lo, Some hi) \<Rightarrow> is_le (cmp lo hi) | _ \<Rightarrow> True)"

fun pairwise_disjoint :: "(bytes \<Rightarrow> bytes \<Rightarrow> ordering) \<Rightarrow> key_range list \<Rightarrow> bool" where
  "pairwise_disjoint cmp [] = True"
| "pairwise_disjoint cmp (r # rs) =
     ((\<forall>x\<in>set rs. \<not> key_range_overlaps cmp r x) \<and> pairwise_disjoint cmp rs)"

lemma pairwise_disjoint_snoc:
  "pairwise_disjoint cmp (rs @ [r]) \<longleftrightarrow>
     pairwise_disjoint cmp rs \<and> (\<forall>x\<in>set rs. \<not> key_range_overlaps cmp x r)"
  by (induction rs) auto

lemma pairwise_disjoint_nth:
  "pairwise_disjoint cmp rs \<Longrightarrow> i < j \<Longrightarrow> j < length rs \<Longrightarrow> \<not> key_range_overlaps cmp (rs ! i) (rs ! j)"
proof (induction rs arbitrary: i j)
  case (Cons r rs)
  then show ?case by (cases i; cases j) (auto simp: nth_mem)
qed simp

lemma acquire_blocking_pass_eq: "acquire_blocking_pass cmp r h = try_acquire cmp r h"
  by (simp add: acquire_blocking_pass_def try_acquire_def)

lemma pairwise_disjoint_remove:
  "pairwise_disjoint cmp rs \<Longrightarrow> pairwise_disjoint cmp (take i rs @ drop (Suc i) rs)"
proof (induction rs arbitrary: i)
  case (Cons r rs)
  then show ?case by (cases i) (auto dest: in_set_takeD in_set_dropD)
qed simp

text \<open>
  The invariant: as long as the token counter has not wrapped, the table holds exactly
  the live guards' ranges, under distinct tokens below the counter.
\<close>

definition lock_inv :: "(bytes \<Rightarrow> bytes \<Rightarrow> ordering) \<Rightarrow> lock_state \<Rightarrow> bool" where
  "lock_inv cmp s \<longleftrightarrow>
     (acquired s \<le> 2 ^ 64 \<longrightarrow>
        ranges (held_st s) = live s \<and> distinct (map fst (live s)) \<and>
        next_token (held_st s) = of_nat (acquired s) \<and>
        (\<forall>t\<in>set (map fst (live s)). unat t < acquired s) \<and>
        pairwise_disjoint cmp (map snd (live s)))"

lemma filter_token_remove:
  "distinct (map fst xs) \<Longrightarrow> i < length xs \<Longrightarrow>
     filter (\<lambda>(t, _). t \<noteq> fst (xs ! i)) xs = take i xs @ drop (Suc i) xs"
proof (induction xs arbitrary: i)
  case (Cons x xs)
  show ?case
  proof (cases i)
    case 0
    with Cons.prems have "\<forall>y\<in>set xs. fst y \<noteq> fst x" by (auto simp: image_iff)
    then have "filter (\<lambda>(t, _). t \<noteq> fst x) xs = xs" by (intro filter_True) auto
    with 0 show ?thesis by (cases x) simp
  next
    case (Suc j)
    with Cons.prems have "fst x \<noteq> fst (xs ! j)" by auto
    with Suc Cons show ?thesis by (cases x) simp
  qed
qed simp

lemma lock_inv_acquire:
  assumes inv: "lock_inv cmp s" and acq: "try_acquire cmp r (held_st s) = (h, Some t)"
  shows "lock_inv cmp \<lparr>held_st = h, live = live s @ [(t, r)], acquired = acquired s + 1\<rparr>"
proof -
  from acq have free: "\<not> list_ex (\<lambda>(_, x). key_range_overlaps cmp x r) (ranges (held_st s))"
    and t: "t = next_token (held_st s)"
    and h: "h = (held_st s)\<lparr>next_token := t + 1, ranges := ranges (held_st s) @ [(t, r)]\<rparr>"
    by (auto simp: try_acquire_def Let_def split: if_splits)
  show ?thesis
  proof (cases "acquired s + 1 \<le> 2 ^ 64")
    case True
    then have "acquired s < 2 ^ 64" by simp
    with inv have inv': "ranges (held_st s) = live s" "distinct (map fst (live s))"
      "next_token (held_st s) = of_nat (acquired s)" "\<forall>t\<in>set (map fst (live s)). unat t < acquired s"
      "pairwise_disjoint cmp (map snd (live s))"
      by (simp_all add: lock_inv_def)
    have u: "unat t = acquired s"
      using \<open>acquired s < 2 ^ 64\<close> t inv'(3) by (simp add: unat_of_nat)
    with inv'(4) have new: "t \<notin> set (map fst (live s))" by auto
    have "\<forall>x\<in>set (map snd (live s)). \<not> key_range_overlaps cmp x r"
      using free inv'(1) by (auto simp: list_ex_iff)
    with inv' new u t show ?thesis
      by (auto simp: lock_inv_def h pairwise_disjoint_snoc image_iff less_Suc_eq)
  qed (simp add: lock_inv_def)
qed

lemma lock_inv_step: "lock_step cmp s t \<Longrightarrow> lock_inv cmp s \<Longrightarrow> lock_inv cmp t"
proof (induction rule: lock_step.induct)
  case (lock_drop i s)
  have "set (take i (live s) @ drop (Suc i) (live s)) \<subseteq> set (live s)"
    by (auto dest: in_set_takeD in_set_dropD)
  moreover have "distinct (map fst (take i (live s) @ drop (Suc i) (live s)))"
    if "distinct (map fst (live s))"
  proof -
    from that have "distinct (map fst (filter (\<lambda>(t, _). t \<noteq> fst (live s ! i)) (live s)))"
      by (rule distinct_map_filter)
    with that lock_drop show ?thesis by (simp add: filter_token_remove)
  qed
  moreover have "pairwise_disjoint cmp (map snd (take i (live s) @ drop (Suc i) (live s)))"
    if "pairwise_disjoint cmp (map snd (live s))"
    using pairwise_disjoint_remove [OF that, of i] by (simp add: take_map drop_map)
  ultimately show ?case
    using lock_drop by (auto simp: lock_inv_def release_def filter_token_remove)
qed (simp_all only: acquire_blocking_pass_eq lock_inv_acquire)

lemma lock_inv_init: "lock_inv cmp lock_init"
  by (simp add: lock_inv_def lock_init_def range_locks_new_def)

lemma lock_reachable_inv: "lock_reachable cmp s \<Longrightarrow> lock_inv cmp s"
  by (induction rule: lock_reachable.induct) (blast intro: lock_inv_init lock_inv_step)+

context user_key_order
begin

lemma key_range_overlaps_iff:
  assumes "range_nonempty cmp a" and "range_nonempty cmp b"
  shows "key_range_overlaps cmp a b \<longleftrightarrow> (\<exists>k. in_range cmp k a \<and> in_range cmp k b)"
proof
  assume "\<exists>k. in_range cmp k a \<and> in_range cmp k b"
  then show "key_range_overlaps cmp a b"
    by (auto simp: in_range_def key_range_overlaps_def key.not_less split: option.splits
        intro: key.order_trans)
next
  let ?top = "\<lambda>x y. if is_le (cmp x y) then y else x"
  let ?bot = "\<lambda>x y. if is_le (cmp x y) then x else y"
  define k where "k = (case (kr_min a, kr_min b) of
      (Some x, Some y) \<Rightarrow> ?top x y | (Some x, None) \<Rightarrow> x | (None, Some y) \<Rightarrow> y
    | (None, None) \<Rightarrow> (case (kr_max a, kr_max b) of
        (Some x, Some y) \<Rightarrow> ?bot x y | (Some x, None) \<Rightarrow> x | (None, Some y) \<Rightarrow> y | (None, None) \<Rightarrow> []))"
  assume "key_range_overlaps cmp a b"
  with assms have "in_range cmp k a \<and> in_range cmp k b"
    unfolding k_def in_range_def key_range_overlaps_def range_nonempty_def
    by (cases "kr_min a"; cases "kr_min b"; cases "kr_max a"; cases "kr_max b")
       (auto simp: key.not_less key.not_le key.less_imp_le)
  then show "\<exists>k. in_range cmp k a \<and> in_range cmp k b" by blast
qed

lemma in_range_overlaps:
  "in_range cmp k a \<Longrightarrow> in_range cmp k b \<Longrightarrow> key_range_overlaps cmp a b"
  by (auto simp: in_range_def key_range_overlaps_def key.not_less split: option.splits
      intro: key.order_trans)

lemma union_loop_covers:
  "\<exists>lo' hi'. union_loop cmp lo hi spans = key_range_new lo' hi' \<and>
     is_le (cmp lo' lo) \<and> is_le (cmp hi hi') \<and>
     (\<forall>(l, h)\<in>set spans. is_le (cmp lo' l) \<and> is_le (cmp h hi')) \<and>
     lo' \<in> insert lo (fst ` set spans) \<and> hi' \<in> insert hi (snd ` set spans)"
proof (induction spans arbitrary: lo hi)
  case (Cons p spans)
  obtain l h where p: "p = (l, h)" by (cases p)
  let ?lo = "if is_lt (cmp l lo) then l else lo"
  let ?hi = "if is_gt (cmp h hi) then h else hi"
  have b: "is_le (cmp ?lo l)" "is_le (cmp ?lo lo)" "is_le (cmp h ?hi)" "is_le (cmp hi ?hi)"
    by (auto simp: key_simps key.not_less key.less_imp_le)
  from Cons.IH [of ?lo ?hi] obtain lo' hi' where
    ih: "union_loop cmp ?lo ?hi spans = key_range_new lo' hi'" "is_le (cmp lo' ?lo)"
      "is_le (cmp ?hi hi')" "\<forall>(l, h)\<in>set spans. is_le (cmp lo' l) \<and> is_le (cmp h hi')"
      "lo' \<in> insert ?lo (fst ` set spans)" "hi' \<in> insert ?hi (snd ` set spans)"
    by blast
  have "is_le (cmp lo' l)" "is_le (cmp lo' lo)" "is_le (cmp h hi')" "is_le (cmp hi hi')"
    using key.order_trans [OF ih(2) b(1)] key.order_trans [OF ih(2) b(2)]
      key.order_trans [OF b(3) ih(3)] key.order_trans [OF b(4) ih(3)] by simp_all
  moreover have "lo' \<in> insert lo (fst ` set (p # spans))" "hi' \<in> insert hi (snd ` set (p # spans))"
    using ih(5,6) by (auto simp: p split: if_splits)
  ultimately show ?case using ih(1,4) by (auto simp: p)
qed (simp add: key.order_refl)

end

section \<open>Properties\<close>


lemma lock_reachable_sample:
  "lock_reachable (compare Bytewise)
     \<lparr>held_st = \<lparr>ranges = [(0, key_range_new [1] [2]), (1, key_range_new [3] [4])], next_token = 2\<rparr>,
      live = [(0, key_range_new [1] [2]), (1, key_range_new [3] [4])], acquired = Suc (Suc 0)\<rparr>"
proof -
  have "try_acquire (compare Bytewise) (key_range_new [1] [2]) range_locks_new =
      (\<lparr>ranges = [(0, key_range_new [1] [2])], next_token = 1\<rparr>, Some 0)"
    by code_simp
  with lock_reach_step [OF lock_reach_init lock_try [of "compare Bytewise" "key_range_new [1] [2]"]]
  have 1: "lock_reachable (compare Bytewise)
     \<lparr>held_st = \<lparr>ranges = [(0, key_range_new [1] [2])], next_token = 1\<rparr>,
      live = [(0, key_range_new [1] [2])], acquired = Suc 0\<rparr>"
    by (simp add: lock_init_def)
  have "acquire_blocking_pass (compare Bytewise) (key_range_new [3] [4])
      \<lparr>ranges = [(0, key_range_new [1] [2])], next_token = 1\<rparr> =
      (\<lparr>ranges = [(0, key_range_new [1] [2]), (1, key_range_new [3] [4])], next_token = 2\<rparr>, Some 1)"
    by code_simp
  with lock_reach_step [OF 1 lock_blocking [of "compare Bytewise" "key_range_new [3] [4]"]]
  show ?thesis by simp
qed


text \<open>
  C25. Never spuriously refused and always released: on a reachable table, with non-empty
  ranges and at most \<open>2^64\<close> guards handed out, an acquisition is refused exactly if the
  requested range shares a key with a live guard's range, and dropping a guard removes
  exactly its own range.
\<close>

theorem range_locks_precise:
  assumes "user_key_order cmp" and "lock_reachable cmp s" and "acquired s \<le> 2 ^ 64"
    and "range_nonempty cmp r" and "\<forall>(t, x)\<in>set (live s). range_nonempty cmp x"
  shows "(snd (try_acquire cmp r (held_st s)) = None \<longleftrightarrow>
      (\<exists>(t, x)\<in>set (live s). \<exists>k. in_range cmp k x \<and> in_range cmp k r)) \<and>
    snd (acquire_blocking_pass cmp r (held_st s)) = snd (try_acquire cmp r (held_st s)) \<and>
    (i < length (live s) \<longrightarrow>
      ranges (release (fst (live s ! i)) (held_st s)) = take i (live s) @ drop (Suc i) (live s))"
proof -
  have inv: "ranges (held_st s) = live s" "distinct (map fst (live s))"
    using lock_reachable_inv [OF assms(2)] assms(3) by (simp_all add: lock_inv_def)
  have "(\<exists>(t, x)\<in>set (live s). key_range_overlaps cmp x r) \<longleftrightarrow>
      (\<exists>(t, x)\<in>set (live s). \<exists>k. in_range cmp k x \<and> in_range cmp k r)"
    using user_key_order.key_range_overlaps_iff [OF assms(1) _ assms(4)] assms(5)
    by (intro bex_cong) auto
  then show ?thesis
    using inv
    by (auto simp: try_acquire_def acquire_blocking_pass_eq release_def filter_token_remove
        list_ex_iff Let_def)
qed

theorem range_locks_precise_witness:
  "ranges (release 0 \<lparr>ranges = [(0, key_range_new [1] [2]), (1, key_range_new [3] [4])],
     next_token = 2\<rparr>) = [(1, key_range_new [3] [4])]"
  using range_locks_precise [OF bytewise.user_key_order_axioms lock_reachable_sample,
      of "key_range_new [2] [3]" 0]
  by (simp add: range_nonempty_def key_range_new_def ord_cmp_def)

text \<open>
  C26. \<^const>\<open>key_range_union\<close> is the smallest enclosing range: it is \<open>None\<close> exactly for no
  spans, and otherwise its bounds enclose every span and are themselves bounds of spans.
\<close>

theorem key_range_union_encloses:
  assumes "user_key_order cmp"
  shows "(key_range_union cmp spans = None \<longleftrightarrow> spans = []) \<and>
    (\<forall>r. key_range_union cmp spans = Some r \<longrightarrow>
      (\<exists>lo hi. r = key_range_new lo hi \<and> lo \<in> fst ` set spans \<and> hi \<in> snd ` set spans \<and>
        (\<forall>(l, h)\<in>set spans. is_le (cmp lo l) \<and> is_le (cmp h hi))))"
proof (cases spans)
  case Nil
  then show ?thesis by (simp add: key_range_union_def)
next
  case (Cons p it)
  obtain l h where p: "p = (l, h)" by (cases p)
  show ?thesis
    using user_key_order.union_loop_covers [OF assms, of l h it]
    by (auto simp: Cons p key_range_union_def)
qed

theorem key_range_union_encloses_witness:
  "key_range_union (compare Bytewise) [([4], [6]), ([1], [3])] = Some (key_range_new [1] [6]) \<and>
   (\<exists>lo hi. key_range_new [1] [6] = key_range_new lo hi \<and>
     lo \<in> fst ` set [([4], [6] :: bytes), ([1], [3])] \<and>
     hi \<in> snd ` set [([4] :: bytes, [6]), ([1], [3])])"
proof -
  have u: "key_range_union (compare Bytewise) [([4], [6]), ([1], [3])] = Some (key_range_new [1] [6])"
    by code_simp
  from key_range_union_encloses [OF bytewise.user_key_order_axioms, of "[([4], [6]), ([1], [3])]"] u
  show ?thesis by blast
qed

end
