(* ===== verification/Txn_Lock.thy ===== *)
theory Txn_Lock
  imports Errors "HOL-Library.AList"
begin

text \<open>
  The point locks of pessimistic transactions, \<open>src/src/txn_lock.rs\<close>: per-key ownership
  with wait-die and first-in-first-out hand-off.

  \<open>lock_table\<close> is the \<open>Table\<close> under the mutex. Its hash maps are association lists with
  distinct keys, and the state cells that waiters share with the table (\<open>Arc<Waiter>\<close>)
  live in the store \<open>cells\<close>, a waiter naming its cell by index. \<open>acquire\<close> is split where it
  releases the mutex: \<open>acquire_start\<close> runs to the first wait, \<open>acquire_wake\<close> is one
  iteration of the waiting loop.

  \<open>txn_step\<close> interleaves all methods of the table for any number of transactions, each of
  which is sequential: while a transaction is parked in \<open>acquire\<close> it issues no other call.

  The lemmas show the table invariant and from it that waits always lead from an older to
  a younger transaction, so that they never form a cycle; that some lock owner can always
  run; that every parked transaction is either queued behind a live owner or decided; and
  that no operation reaches one of the code's \<open>expect\<close> panics.
\<close>

type_synonym lock_key = "u64 \<times> bytes"

definition W_QUEUED :: u8 where "W_QUEUED = 0"
definition W_GRANTED :: u8 where "W_GRANTED = 1"
definition W_DENIED_WAIT_DIE :: u8 where "W_DENIED_WAIT_DIE = 2"
definition W_DENIED_RESERVED :: u8 where "W_DENIED_RESERVED = 3"
definition W_DENIED_SHUTDOWN :: u8 where "W_DENIED_SHUTDOWN = 4"
definition NO_OWNER :: u64 where "NO_OWNER = 0"
definition SWEEP_AT :: nat where "SWEEP_AT = 64"

lemmas waiter_state_defs = W_QUEUED_def W_GRANTED_def W_DENIED_WAIT_DIE_def
  W_DENIED_RESERVED_def W_DENIED_SHUTDOWN_def

record waiter =
  w_txn :: u64
  w_cell :: nat

datatype decision = Fresh | Held | Takeover u64 | Die u64 | Queue

record lock_entry =
  owner :: u64
  last_commit_seq :: u64
  waiters :: "waiter list"

record lock_table =
  entries :: "(lock_key \<times> lock_entry) list"
  held :: "(u64 \<times> lock_key list) list"
  free_stamped :: nat
  shutdown :: "onda_error option"
  wake_reason :: "onda_error option"
  cells :: "u8 list"

definition lock_table_new :: lock_table where
  "lock_table_new = \<lparr>entries = [], held = [], free_stamped = 0, shutdown = None,
     wake_reason = None, cells = []\<rparr>"

section \<open>Operations\<close>

text \<open>\<open>held.entry(owner).or_default().push(k)\<close>\<close>

definition push_held :: "u64 \<Rightarrow> lock_key \<Rightarrow> lock_table \<Rightarrow> lock_table" where
  "push_held txn k t = t\<lparr>held := AList.update txn
     ((case map_of (held t) txn of None \<Rightarrow> [] | Some ks \<Rightarrow> ks) @ [k]) (held t)\<rparr>"

definition set_cells :: "waiter list \<Rightarrow> u8 \<Rightarrow> lock_table \<Rightarrow> lock_table" where
  "set_cells ws v t = t\<lparr>cells := foldl (\<lambda>cs w. cs[w_cell w := v]) (cells t) ws\<rparr>"

definition decide :: "u64 \<Rightarrow> lock_key \<Rightarrow> lock_table \<Rightarrow> decision" where
  "decide txn k t = (case map_of (entries t) k of
     None \<Rightarrow> Fresh
   | Some e \<Rightarrow>
       if owner e = txn then Held
       else if owner e = NO_OWNER then Takeover (last_commit_seq e)
       else if txn > owner e then Die (owner e)
       else Queue)"

text \<open>
  What \<open>acquire\<close> does before its first wait: it returns, or it parks on a waiter.
\<close>

datatype acquire_outcome = Returned "u64 option result" | Parked waiter

definition acquire_start ::
  "u64 \<Rightarrow> u64 \<Rightarrow> bytes \<Rightarrow> lock_table \<Rightarrow> lock_table \<times> acquire_outcome" where
  "acquire_start txn cf key t = (case shutdown t of
     Some err \<Rightarrow> (t, Returned (Inl (duplicate err)))
   | None \<Rightarrow>
      (let k = (cf, key) in
       case decide txn k t of
         Fresh \<Rightarrow>
           (push_held txn k (t\<lparr>entries := AList.update k
              \<lparr>owner = txn, last_commit_seq = 0, waiters = []\<rparr> (entries t)\<rparr>),
            Returned (Inr (Some 0)))
       | Held \<Rightarrow> (t, Returned (Inr None))
       | Takeover seq \<Rightarrow>
           (case map_of (entries t) k of
              None \<Rightarrow> (t, Returned (Inl Panic))
            | Some e \<Rightarrow>
                (push_held txn k (t\<lparr>entries := AList.update k (e\<lparr>owner := txn\<rparr>) (entries t),
                   free_stamped := saturating_sub (free_stamped t) 1\<rparr>),
                 Returned (Inr (Some seq))))
       | Die own \<Rightarrow> (t, Returned (Inl (Conflict ''wait-die: transaction is younger than the holder'')))
       | Queue \<Rightarrow>
           (case map_of (entries t) k of
              None \<Rightarrow> (t, Returned (Inl Panic))
            | Some e \<Rightarrow>
                (let w = \<lparr>w_txn = txn, w_cell = length (cells t)\<rparr>
                 in (t\<lparr>entries := AList.update k (e\<lparr>waiters := waiters e @ [w]\<rparr>) (entries t),
                       cells := cells t @ [W_QUEUED]\<rparr>, Parked w)))))"

definition acquire_wake :: "lock_key \<Rightarrow> waiter \<Rightarrow> lock_table \<Rightarrow> u64 option result option" where
  "acquire_wake k w t =
     (let st = cells t ! w_cell w in
      if st = W_GRANTED
      then Some (Inr (Some (case map_of (entries t) k of None \<Rightarrow> 0 | Some e \<Rightarrow> last_commit_seq e)))
      else if st = W_DENIED_SHUTDOWN
      then Some (Inl (case wake_reason t of
        None \<Rightarrow> InvalidDb ''database is closing'' | Some e \<Rightarrow> duplicate e))
      else if st = W_DENIED_RESERVED
      then Some (Inl (Conflict ''the holder prepared; the key is now reserved''))
      else if st = W_DENIED_WAIT_DIE
      then Some (Inl (Conflict ''wait-die: transaction is younger than the new holder''))
      else None)"

definition hand_off :: "lock_key \<Rightarrow> u64 \<Rightarrow> lock_table \<Rightarrow> lock_table result" where
  "hand_off k visible_seq t = (case map_of (entries t) k of
     None \<Rightarrow> Inl Panic
   | Some e \<Rightarrow>
      (case waiters e of
         w # ws \<Rightarrow>
           (let own = w_txn w;
                t = set_cells [w] W_GRANTED t;
                t = set_cells (filter (\<lambda>x. \<not> w_txn x < own) ws) W_DENIED_WAIT_DIE t;
                e = e\<lparr>owner := own, waiters := filter (\<lambda>x. w_txn x < own) ws\<rparr>
            in Inr (push_held own k (t\<lparr>entries := AList.update k e (entries t)\<rparr>)))
       | [] \<Rightarrow>
           if last_commit_seq e > visible_seq
           then Inr (t\<lparr>entries := AList.update k (e\<lparr>owner := NO_OWNER\<rparr>) (entries t),
                       free_stamped := free_stamped t + 1\<rparr>)
           else Inr (t\<lparr>entries := AList.delete k (entries t)\<rparr>)))"

definition sweep :: "u64 \<Rightarrow> lock_table \<Rightarrow> lock_table" where
  "sweep visible_seq t =
     (if free_stamped t < SWEEP_AT then t
      else let es = filter (\<lambda>(_, e). owner e \<noteq> NO_OWNER \<or> last_commit_seq e > visible_seq) (entries t)
           in t\<lparr>entries := es, free_stamped := length (filter (\<lambda>(_, e). owner e = NO_OWNER) es)\<rparr>)"

fun release_keys :: "u64 \<Rightarrow> u64 option \<Rightarrow> u64 \<Rightarrow> lock_key list \<Rightarrow> lock_table \<Rightarrow> lock_table result" where
  "release_keys txn committed_at visible_seq [] t = Inr t"
| "release_keys txn committed_at visible_seq (k # ks) t = (case map_of (entries t) k of
     None \<Rightarrow> release_keys txn committed_at visible_seq ks t
   | Some e \<Rightarrow>
       if owner e \<noteq> txn then release_keys txn committed_at visible_seq ks t
       else
         let e = (case committed_at of
                None \<Rightarrow> e
              | Some seq \<Rightarrow> e\<lparr>last_commit_seq := max (last_commit_seq e) seq\<rparr>)
         in rbind (hand_off k visible_seq (t\<lparr>entries := AList.update k e (entries t)\<rparr>))
              (release_keys txn committed_at visible_seq ks))"

definition release_all :: "u64 \<Rightarrow> u64 option \<Rightarrow> u64 \<Rightarrow> lock_table \<Rightarrow> lock_table result" where
  "release_all txn committed_at visible_seq t = (case map_of (held t) txn of
     None \<Rightarrow> Inr t
   | Some ks \<Rightarrow>
       rbind (release_keys txn committed_at visible_seq ks (t\<lparr>held := AList.delete txn (held t)\<rparr>))
         (\<lambda>t. Inr (sweep visible_seq t)))"

fun deny_keys :: "u64 \<Rightarrow> lock_key list \<Rightarrow> lock_table \<Rightarrow> lock_table" where
  "deny_keys txn [] t = t"
| "deny_keys txn (k # ks) t = (case map_of (entries t) k of
     None \<Rightarrow> deny_keys txn ks t
   | Some e \<Rightarrow>
       if owner e \<noteq> txn then deny_keys txn ks t
       else deny_keys txn ks
         (set_cells (waiters e) W_DENIED_RESERVED (t\<lparr>entries := AList.delete k (entries t)\<rparr>)))"

definition deny_all :: "u64 \<Rightarrow> lock_table \<Rightarrow> lock_table" where
  "deny_all txn t = (case map_of (held t) txn of
     None \<Rightarrow> t
   | Some ks \<Rightarrow> deny_keys txn ks (t\<lparr>held := AList.delete txn (held t)\<rparr>))"

definition wake_every_waiter :: "lock_table \<Rightarrow> lock_table" where
  "wake_every_waiter t =
     (set_cells (concat (map (\<lambda>(_, e). waiters e) (entries t))) W_DENIED_SHUTDOWN t)
       \<lparr>entries := map (\<lambda>(k, e). (k, e\<lparr>waiters := []\<rparr>)) (entries t)\<rparr>"

definition wake_all_with_error :: "onda_error \<Rightarrow> lock_table \<Rightarrow> lock_table" where
  "wake_all_with_error err t = wake_every_waiter (t\<lparr>wake_reason := Some err\<rparr>)"

definition shut_down :: "onda_error \<Rightarrow> lock_table \<Rightarrow> lock_table" where
  "shut_down err t =
     (let t = (if shutdown t = None then t\<lparr>shutdown := Some (duplicate err)\<rparr> else t)
      in wake_every_waiter (t\<lparr>wake_reason := Some err\<rparr>))"

definition num_waiters :: "u64 \<Rightarrow> bytes \<Rightarrow> lock_table \<Rightarrow> nat" where
  "num_waiters cf key t = (case map_of (entries t) (cf, key) of
     None \<Rightarrow> 0 | Some e \<Rightarrow> length (waiters e))"

definition is_idle :: "lock_table \<Rightarrow> bool" where
  "is_idle t \<longleftrightarrow> held t = [] \<and> list_all (\<lambda>(_, e). owner e = NO_OWNER) (entries t)"

section \<open>Interleavings\<close>

record txn_state =
  tbl :: lock_table
  parked :: "(lock_key \<times> waiter) list"

definition txn_init :: txn_state where
  "txn_init = \<lparr>tbl = lock_table_new, parked = []\<rparr>"

definition is_parked :: "txn_state \<Rightarrow> u64 \<Rightarrow> bool" where
  "is_parked s txn \<longleftrightarrow> txn \<in> (\<lambda>(_, w). w_txn w) ` set (parked s)"

inductive txn_step :: "txn_state \<Rightarrow> txn_state \<Rightarrow> bool" where
  txn_acquire_return:
    "txn \<noteq> NO_OWNER \<Longrightarrow> \<not> is_parked s txn \<Longrightarrow>
     acquire_start txn cf key (tbl s) = (t, Returned r) \<Longrightarrow> txn_step s (s\<lparr>tbl := t\<rparr>)"
| txn_acquire_park:
    "txn \<noteq> NO_OWNER \<Longrightarrow> \<not> is_parked s txn \<Longrightarrow>
     acquire_start txn cf key (tbl s) = (t, Parked w) \<Longrightarrow>
       txn_step s (s\<lparr>tbl := t, parked := ((cf, key), w) # parked s\<rparr>)"
| txn_wake:
    "(k, w) \<in> set (parked s) \<Longrightarrow> acquire_wake k w (tbl s) = Some r \<Longrightarrow>
       txn_step s (s\<lparr>parked := remove1 (k, w) (parked s)\<rparr>)"
| txn_release:
    "txn \<noteq> NO_OWNER \<Longrightarrow> \<not> is_parked s txn \<Longrightarrow>
     release_all txn committed_at visible_seq (tbl s) = Inr t \<Longrightarrow> txn_step s (s\<lparr>tbl := t\<rparr>)"
| txn_deny:
    "txn \<noteq> NO_OWNER \<Longrightarrow> \<not> is_parked s txn \<Longrightarrow> txn_step s (s\<lparr>tbl := deny_all txn (tbl s)\<rparr>)"
| txn_wake_all: "txn_step s (s\<lparr>tbl := wake_all_with_error err (tbl s)\<rparr>)"
| txn_shut_down: "txn_step s (s\<lparr>tbl := shut_down err (tbl s)\<rparr>)"

inductive txn_reachable :: "txn_state \<Rightarrow> bool" where
  txn_reach_init: "txn_reachable txn_init"
| txn_reach_step: "txn_reachable s \<Longrightarrow> txn_step s t \<Longrightarrow> txn_reachable t"

section \<open>The table as functions of the key\<close>

definition queue :: "lock_table \<Rightarrow> lock_key \<Rightarrow> waiter list" where
  "queue t k = (case map_of (entries t) k of None \<Rightarrow> [] | Some e \<Rightarrow> waiters e)"

definition owner_of :: "lock_table \<Rightarrow> lock_key \<Rightarrow> u64" where
  "owner_of t k = (case map_of (entries t) k of None \<Rightarrow> NO_OWNER | Some e \<Rightarrow> owner e)"

definition held_of :: "lock_table \<Rightarrow> u64 \<Rightarrow> lock_key list" where
  "held_of t x = (case map_of (held t) x of None \<Rightarrow> [] | Some ks \<Rightarrow> ks)"

lemma queue_simps [simp]:
  "queue (t\<lparr>entries := AList.update k e (entries t)\<rparr>) k' = (if k' = k then waiters e else queue t k')"
  "owner_of (t\<lparr>entries := AList.update k e (entries t)\<rparr>) k' = (if k' = k then owner e else owner_of t k')"
  "queue (t\<lparr>entries := AList.delete k (entries t)\<rparr>) k' = (if k' = k then [] else queue t k')"
  "owner_of (t\<lparr>entries := AList.delete k (entries t)\<rparr>) k' = (if k' = k then NO_OWNER else owner_of t k')"
  by (simp_all add: queue_def owner_of_def update_conv' delete_conv')

lemma queue_other_simps [simp]:
  "queue (t\<lparr>cells := cs\<rparr>) = queue t" "owner_of (t\<lparr>cells := cs\<rparr>) = owner_of t"
  "queue (t\<lparr>free_stamped := n\<rparr>) = queue t" "owner_of (t\<lparr>free_stamped := n\<rparr>) = owner_of t"
  "queue (t\<lparr>held := h\<rparr>) = queue t" "owner_of (t\<lparr>held := h\<rparr>) = owner_of t"
  "queue (t\<lparr>shutdown := x\<rparr>) = queue t" "owner_of (t\<lparr>shutdown := x\<rparr>) = owner_of t"
  "queue (t\<lparr>wake_reason := x\<rparr>) = queue t" "owner_of (t\<lparr>wake_reason := x\<rparr>) = owner_of t"
  by (simp_all add: queue_def owner_of_def fun_eq_iff)

lemma held_of_simps [simp]:
  "held_of (t\<lparr>entries := es\<rparr>) = held_of t" "held_of (t\<lparr>cells := cs\<rparr>) = held_of t"
  "held_of (t\<lparr>free_stamped := n\<rparr>) = held_of t" "held_of (t\<lparr>shutdown := y\<rparr>) = held_of t"
  "held_of (t\<lparr>wake_reason := y\<rparr>) = held_of t"
  "held_of (t\<lparr>held := AList.delete x (held t)\<rparr>) x' = (if x' = x then [] else held_of t x')"
  by (simp_all add: held_of_def fun_eq_iff delete_conv')

lemma push_held_simps [simp]:
  "queue (push_held x k t) = queue t" "owner_of (push_held x k t) = owner_of t"
  "cells (push_held x k t) = cells t" "entries (push_held x k t) = entries t"
  "held_of (push_held x k t) x' = (if x' = x then held_of t x @ [k] else held_of t x')"
  by (simp_all add: push_held_def held_of_def update_conv')

lemma set_cells_simps [simp]:
  "queue (set_cells ws v t) = queue t" "owner_of (set_cells ws v t) = owner_of t"
  "held_of (set_cells ws v t) = held_of t" "entries (set_cells ws v t) = entries t"
  by (simp_all add: set_cells_def)

lemma length_foldl_update: "length (foldl (\<lambda>cs w. cs[f w := v]) cs ws) = length cs"
  by (induction ws arbitrary: cs) simp_all

lemma nth_foldl_update:
  "c < length cs \<Longrightarrow> foldl (\<lambda>cs w. cs[f w := v]) cs ws ! c = (if c \<in> f ` set ws then v else cs ! c)"
  by (induction ws arbitrary: cs) (auto simp: nth_list_update)

lemma set_cells_cells [simp]:
  "length (cells (set_cells ws v t)) = length (cells t)"
  "c < length (cells t) \<Longrightarrow>
     cells (set_cells ws v t) ! c = (if c \<in> w_cell ` set ws then v else cells t ! c)"
  by (simp_all add: set_cells_def length_foldl_update nth_foldl_update)

section \<open>The invariant\<close>

definition waiter_states :: "u8 set" where
  "waiter_states = {W_QUEUED, W_GRANTED, W_DENIED_WAIT_DIE, W_DENIED_RESERVED, W_DENIED_SHUTDOWN}"

definition queue_inv :: "lock_table \<Rightarrow> (lock_key \<times> waiter) list \<Rightarrow> bool" where
  "queue_inv t ps \<longleftrightarrow>
     (\<forall>k w. w \<in> set (queue t k) \<longrightarrow> w_txn w < owner_of t k \<and> (k, w) \<in> set ps) \<and>
     (\<forall>k. distinct (queue t k)) \<and>
     distinct (map (\<lambda>(_, w). w_cell w) ps) \<and> distinct (map (\<lambda>(_, w). w_txn w) ps) \<and>
     (\<forall>k w. (k, w) \<in> set ps \<longrightarrow> w_txn w \<noteq> NO_OWNER \<and> w_cell w < length (cells t) \<and>
        (cells t ! w_cell w = W_QUEUED \<longleftrightarrow> w \<in> set (queue t k)) \<and>
        (cells t ! w_cell w = W_GRANTED \<longrightarrow> owner_of t k = w_txn w) \<and>
        cells t ! w_cell w \<in> waiter_states)"

text \<open>
  Ownership agrees with the per-owner key lists, except that the keys \<open>ks\<close> of \<open>txn\<close> were
  already taken off its list (which is the situation inside a release).
\<close>

definition owner_inv :: "u64 \<Rightarrow> lock_key list \<Rightarrow> lock_table \<Rightarrow> bool" where
  "owner_inv txn ks t \<longleftrightarrow>
     (\<forall>x k. x \<noteq> NO_OWNER \<longrightarrow>
        (k \<in> set (held_of t x) \<or> (x = txn \<and> k \<in> set ks) \<longleftrightarrow> owner_of t k = x)) \<and>
     (\<forall>x. distinct (held_of t x)) \<and> held_of t NO_OWNER = []"

definition count_free :: "(lock_key \<times> lock_entry) list \<Rightarrow> nat" where
  "count_free es = length (filter (\<lambda>(_, e). owner e = NO_OWNER) es)"

definition next_owner :: "waiter list \<Rightarrow> u64" where
  "next_owner ws = (case ws of [] \<Rightarrow> NO_OWNER | w # _ \<Rightarrow> w_txn w)"

definition wf_table :: "lock_table \<Rightarrow> bool" where
  "wf_table t \<longleftrightarrow> distinct (map fst (entries t)) \<and> free_stamped t = count_free (entries t)"

definition txn_inv :: "txn_state \<Rightarrow> bool" where
  "txn_inv s \<longleftrightarrow> queue_inv (tbl s) (parked s) \<and> owner_inv NO_OWNER [] (tbl s) \<and> wf_table (tbl s)"

lemma parked_cell_inj:
  assumes "queue_inv t ps" "(k, w) \<in> set ps" "(k', w') \<in> set ps" "w_cell w = w_cell w'"
  shows "k = k' \<and> w = w'"
proof -
  have "inj_on (\<lambda>(_, w). w_cell w) (set ps)"
    using assms(1) by (simp add: queue_inv_def distinct_map)
  from inj_onD [OF this, of "(k, w)" "(k', w')"] assms(2-4) show ?thesis by simp
qed

lemma queue_inv_parked:
  assumes "queue_inv t ps" and "(k, w) \<in> set ps"
  shows "w_txn w \<noteq> NO_OWNER" and "w_cell w < length (cells t)"
    and "cells t ! w_cell w = W_QUEUED \<longleftrightarrow> w \<in> set (queue t k)"
    and "cells t ! w_cell w = W_GRANTED \<Longrightarrow> owner_of t k = w_txn w"
    and "cells t ! w_cell w \<in> waiter_states"
  using assms unfolding queue_inv_def by blast+

lemma queue_inv_queued:
  assumes "queue_inv t ps" and "w \<in> set (queue t k)"
  shows "w_txn w < owner_of t k" and "(k, w) \<in> set ps"
  using assms unfolding queue_inv_def by blast+

lemma queue_inv_distinct: "queue_inv t ps \<Longrightarrow> distinct (queue t k)"
  unfolding queue_inv_def by blast

lemma queue_inv_update:
  assumes inv: "queue_inv t ps"
    and sub: "\<And>k. set (queue t' k) \<subseteq> set (queue t k)" "\<And>k. distinct (queue t' k)"
    and lt: "\<And>k w. w \<in> set (queue t' k) \<Longrightarrow> w_txn w < owner_of t' k"
    and len: "length (cells t') = length (cells t)"
    and keep: "\<And>k w. (k, w) \<in> set ps \<Longrightarrow> w \<in> set (queue t' k) \<or> w \<notin> set (queue t k) \<Longrightarrow>
      cells t' ! w_cell w = cells t ! w_cell w"
    and decided: "\<And>k w. (k, w) \<in> set ps \<Longrightarrow> w \<in> set (queue t k) \<Longrightarrow> w \<notin> set (queue t' k) \<Longrightarrow>
      cells t' ! w_cell w \<noteq> W_QUEUED \<and> cells t' ! w_cell w \<in> waiter_states"
    and granted: "\<And>k w. (k, w) \<in> set ps \<Longrightarrow> cells t' ! w_cell w = W_GRANTED \<Longrightarrow>
      owner_of t' k = w_txn w"
  shows "queue_inv t' ps"
proof -
  have "w_txn w \<noteq> NO_OWNER \<and> w_cell w < length (cells t') \<and>
      (cells t' ! w_cell w = W_QUEUED \<longleftrightarrow> w \<in> set (queue t' k)) \<and>
      (cells t' ! w_cell w = W_GRANTED \<longrightarrow> owner_of t' k = w_txn w) \<and>
      cells t' ! w_cell w \<in> waiter_states" if p: "(k, w) \<in> set ps" for k w
  proof -
    from inv p have old: "w_txn w \<noteq> NO_OWNER" "w_cell w < length (cells t)"
      "cells t ! w_cell w = W_QUEUED \<longleftrightarrow> w \<in> set (queue t k)" "cells t ! w_cell w \<in> waiter_states"
      by (auto dest: queue_inv_parked)
    consider "w \<in> set (queue t' k)" | "w \<notin> set (queue t k)" | "w \<in> set (queue t k)" "w \<notin> set (queue t' k)"
      by blast
    then show ?thesis
    proof cases
      case 1
      then show ?thesis using old keep [OF p] granted [OF p] sub(1) [of k] len by auto
    next
      case 2
      then show ?thesis using old keep [OF p] granted [OF p] sub(1) [of k] len by auto
    next
      case 3
      then show ?thesis using old decided [OF p] granted [OF p] len by auto
    qed
  qed
  moreover have "(k, w) \<in> set ps" if "w \<in> set (queue t' k)" for k w
    using inv sub(1) [of k] that by (auto dest: queue_inv_queued)
  ultimately show ?thesis
    using inv lt sub(2) unfolding queue_inv_def by blast
qed

lemma parked_txn: "\<not> is_parked s txn \<Longrightarrow> (k, w) \<in> set (parked s) \<Longrightarrow> w_txn w \<noteq> txn"
  by (force simp: is_parked_def)

section \<open>Preservation\<close>

lemma owner_of_Some: "map_of (entries t) k = Some e \<Longrightarrow> owner_of t k = owner e"
  by (simp add: owner_of_def)

lemma queue_Some: "map_of (entries t) k = Some e \<Longrightarrow> queue t k = waiters e"
  by (simp add: queue_def)

lemma unowned_queue: "queue_inv t ps \<Longrightarrow> owner_of t k = NO_OWNER \<Longrightarrow> queue t k = []"
  using queue_inv_queued(1) [of t ps _ k] by (cases "queue t k") (force simp: NO_OWNER_def)+

text \<open>A transition that leaves cells and queues alone and only gives an unowned key away.\<close>

lemma queue_inv_take:
  assumes inv: "queue_inv t ps" and free: "owner_of t k = NO_OWNER"
    and same: "queue t' = queue t" "cells t' = cells t" "owner_of t' = (owner_of t)(k := txn)"
  shows "queue_inv t' ps"
proof (rule queue_inv_update [OF inv])
  fix k' w
  show "w_txn w < owner_of t' k'" if "w \<in> set (queue t' k')"
    using that same free unowned_queue [OF inv free] queue_inv_queued(1) [OF inv] by auto
  show "owner_of t' k' = w_txn w" if "(k', w) \<in> set ps" "cells t' ! w_cell w = W_GRANTED"
    using that same free queue_inv_parked [OF inv that(1)] by auto
qed (use same queue_inv_distinct [OF inv] in auto)

lemma owner_inv_take:
  assumes inv: "owner_inv x ks t" and free: "owner_of t k = NO_OWNER" and "txn \<noteq> NO_OWNER"
    and same: "owner_of t' = (owner_of t)(k := txn)"
      "held_of t' = (held_of t)(txn := held_of t txn @ [k])"
  shows "owner_inv x ks t'"
proof -
  have "k \<notin> set (held_of t y)" "\<not> (y = x \<and> k \<in> set ks)" if "y \<noteq> NO_OWNER" for y
    using inv free that unfolding owner_inv_def by metis+
  then show ?thesis
    using assms unfolding owner_inv_def by (simp del: split_paired_All)
qed

lemma queue_inv_park:
  assumes inv: "queue_inv t ps" and lt: "txn < owner_of t k" and "txn \<noteq> NO_OWNER"
    and new: "txn \<notin> (\<lambda>(_, w). w_txn w) ` set ps"
    and w: "w = \<lparr>w_txn = txn, w_cell = length (cells t)\<rparr>"
    and same: "owner_of t' = owner_of t" "queue t' = (queue t)(k := queue t k @ [w])"
      "cells t' = cells t @ [W_QUEUED]"
  shows "queue_inv t' ((k, w) # ps)"
proof -
  have fresh: "w_cell x \<noteq> length (cells t)" "w_txn x \<noteq> txn" if "(k', x) \<in> set ps" for k' x
    using queue_inv_parked(2) [OF inv that] new that by (force simp: image_iff)+
  have cell: "length (cells t) \<notin> (\<lambda>(_, w). w_cell w) ` set ps"
  proof
    assume "length (cells t) \<in> (\<lambda>(_, w). w_cell w) ` set ps"
    then obtain k' x where "(k', x) \<in> set ps" "w_cell x = length (cells t)" by auto
    with fresh(1) show False by blast
  qed
  have notin: "w \<notin> set (queue t k')" for k'
    using queue_inv_queued(2) [OF inv, of w k'] fresh(1) [of k' w] by (auto simp: w)
  have queued: "x \<in> set (queue t' k') \<longrightarrow> w_txn x < owner_of t' k' \<and> (k', x) \<in> set ((k, w) # ps)" for k' x
    using queue_inv_queued [OF inv, of x k'] lt by (auto simp: same w)
  have old: "w_txn x \<noteq> NO_OWNER \<and> w_cell x < length (cells t') \<and>
      (cells t' ! w_cell x = W_QUEUED \<longleftrightarrow> x \<in> set (queue t' k')) \<and>
      (cells t' ! w_cell x = W_GRANTED \<longrightarrow> owner_of t' k' = w_txn x) \<and>
      cells t' ! w_cell x \<in> waiter_states" if p: "(k', x) \<in> set ps" for k' x
  proof -
    have "x \<noteq> w" using fresh [OF p] by (auto simp: w)
    then show ?thesis
      using queue_inv_parked [OF inv p] by (auto simp: same nth_append)
  qed
  have here: "w_txn w \<noteq> NO_OWNER \<and> w_cell w < length (cells t') \<and>
      (cells t' ! w_cell w = W_QUEUED \<longleftrightarrow> w \<in> set (queue t' k)) \<and>
      (cells t' ! w_cell w = W_GRANTED \<longrightarrow> owner_of t' k = w_txn w) \<and> cells t' ! w_cell w \<in> waiter_states"
    using assms(3) by (simp add: same w waiter_state_defs waiter_states_def)
  have "distinct (queue t' k')" for k'
    using queue_inv_distinct [OF inv, of k'] notin by (auto simp: same)
  moreover have "distinct (map (\<lambda>(_, w). w_cell w) ((k, w) # ps))"
    "distinct (map (\<lambda>(_, w). w_txn w) ((k, w) # ps))"
    using inv new cell by (simp_all add: queue_inv_def w)
  ultimately show ?thesis
    unfolding queue_inv_def using queued old here by (auto simp del: split_paired_All)
qed

lemma acquire_start_cases:
  assumes "acquire_start txn cf key t = (t', r)"
  obtains (shut) err where "shutdown t = Some err" "t' = t" "r = Returned (Inl (duplicate err))"
  | (take) seq where "owner_of t (cf, key) = NO_OWNER" "queue t' = queue t" "cells t' = cells t"
      "owner_of t' = (owner_of t)((cf, key) := txn)"
      "held_of t' = (held_of t)(txn := held_of t txn @ [(cf, key)])" "r = Returned (Inr (Some seq))"
  | (reentrant) "owner_of t (cf, key) = txn" "t' = t" "r = Returned (Inr None)"
  | (die) "owner_of t (cf, key) < txn" "t' = t"
      "r = Returned (Inl (Conflict ''wait-die: transaction is younger than the holder''))"
  | (wait) w where "txn < owner_of t (cf, key)" "w = \<lparr>w_txn = txn, w_cell = length (cells t)\<rparr>"
      "owner_of t' = owner_of t" "queue t' = (queue t)((cf, key) := queue t (cf, key) @ [w])"
      "held_of t' = held_of t" "cells t' = cells t @ [W_QUEUED]" "r = Parked w"
proof (cases "shutdown t")
  case (Some err)
  with assms show ?thesis by (intro shut) (auto simp: acquire_start_def)
next
  case sh: None
  let ?k = "(cf, key)"
  show ?thesis
  proof (cases "map_of (entries t) ?k")
    case None
    with sh assms have t': "t' = push_held txn ?k (t\<lparr>entries := AList.update ?k
        \<lparr>owner = txn, last_commit_seq = 0, waiters = []\<rparr> (entries t)\<rparr>)" "r = Returned (Inr (Some 0))"
      by (auto simp: acquire_start_def decide_def Let_def)
    have "owner_of t ?k = NO_OWNER" "queue t ?k = []"
      using None by (simp_all add: owner_of_def queue_def)
    then show ?thesis by (intro take) (simp_all add: t' fun_eq_iff)
  next
    case (Some e)
    then have oq: "owner_of t ?k = owner e" "queue t ?k = waiters e"
      by (simp_all add: owner_of_def queue_def)
    consider "owner e = txn" | "owner e \<noteq> txn" "owner e = NO_OWNER"
      | "owner e \<noteq> NO_OWNER" "owner e < txn" | "owner e \<noteq> NO_OWNER" "txn < owner e"
      by (metis linorder_cases)
    then show ?thesis
    proof cases
      case 1
      with sh assms Some oq show ?thesis by (intro reentrant) (auto simp: acquire_start_def decide_def Let_def)
    next
      case 2
      with sh assms Some have t': "t' = push_held txn ?k
          (t\<lparr>entries := AList.update ?k (e\<lparr>owner := txn\<rparr>) (entries t),
             free_stamped := saturating_sub (free_stamped t) 1\<rparr>)"
        "r = Returned (Inr (Some (last_commit_seq e)))"
        by (auto simp: acquire_start_def decide_def Let_def)
      with 2 oq show ?thesis by (intro take) (simp_all add: fun_eq_iff)
    next
      case 3
      with Some have "decide txn ?k t = Die (owner e)" by (auto simp: decide_def)
      with 3 sh assms oq show ?thesis by (intro die) (auto simp: acquire_start_def Let_def)
    next
      case 4
      define w where "w = \<lparr>w_txn = txn, w_cell = length (cells t)\<rparr>"
      from 4 Some have "decide txn ?k t = Queue" by (auto simp: decide_def)
      with sh assms Some have "t' = t\<lparr>entries := AList.update ?k (e\<lparr>waiters := waiters e @ [w]\<rparr>) (entries t),
          cells := cells t @ [W_QUEUED]\<rparr>" "r = Parked w"
        by (auto simp: acquire_start_def w_def Let_def)
      with 4 oq show ?thesis by (intro wait) (simp_all add: fun_eq_iff w_def)
    qed
  qed
qed

lemma owner_inv_cong:
  "owner_inv x ks t \<Longrightarrow> owner_of t' = owner_of t \<Longrightarrow> held_of t' = held_of t \<Longrightarrow> owner_inv x ks t'"
  by (simp add: owner_inv_def)

lemma count_free_simps [simp]:
  "count_free [] = 0"
  "count_free ((k, e) # es) = (if owner e = NO_OWNER then 1 else 0) + count_free es"
  by (simp_all add: count_free_def)

lemma count_free_update:
  "distinct (map fst es) \<Longrightarrow> count_free (AList.update k e es) +
     (case map_of es k of None \<Rightarrow> 0 | Some e0 \<Rightarrow> if owner e0 = NO_OWNER then 1 else 0)
     = count_free es + (if owner e = NO_OWNER then 1 else 0)"
  by (induction es) auto

lemma count_free_delete:
  "distinct (map fst es) \<Longrightarrow> count_free (AList.delete k es) +
     (case map_of es k of None \<Rightarrow> 0 | Some e0 \<Rightarrow> if owner e0 = NO_OWNER then 1 else 0)
     = count_free es"
proof (induction es)
  case (Cons p es)
  have "AList.delete k es = es" if "k \<notin> fst ` set es"
    using that by (simp add: delete_idem)
  with Cons show ?case
    by (cases p) auto
qed simp

lemma wf_push_held [simp]: "wf_table (push_held x k t) = wf_table t"
  by (simp add: wf_table_def push_held_def)

lemma wf_set_cells [simp]: "wf_table (set_cells ws v t) = wf_table t"
  by (simp add: wf_table_def set_cells_def)

lemma wf_other_simps [simp]:
  "wf_table (t\<lparr>cells := cs\<rparr>) = wf_table t" "wf_table (t\<lparr>held := h\<rparr>) = wf_table t"
  "wf_table (t\<lparr>shutdown := x\<rparr>) = wf_table t" "wf_table (t\<lparr>wake_reason := x\<rparr>) = wf_table t"
  by (simp_all add: wf_table_def)

lemma wf_update:
  assumes "wf_table t" and "map_of (entries t) k = Some e0"
    and "owner e = NO_OWNER \<longleftrightarrow> owner e0 = NO_OWNER"
  shows "wf_table (t\<lparr>entries := AList.update k e (entries t)\<rparr>)"
  using assms count_free_update [of "entries t" k e]
  by (auto simp: wf_table_def distinct_update split: if_splits)

lemma wf_takeover:
  assumes "wf_table t" and "map_of (entries t) k = Some e" and "owner e = NO_OWNER" "txn \<noteq> NO_OWNER"
  shows "wf_table (t\<lparr>entries := AList.update k (e\<lparr>owner := txn\<rparr>) (entries t),
    free_stamped := saturating_sub (free_stamped t) 1\<rparr>)"
  using assms count_free_update [of "entries t" k "e\<lparr>owner := txn\<rparr>"]
  by (simp add: wf_table_def distinct_update del: map_of_eq_Some_iff)

lemma wf_fresh:
  assumes "wf_table t" and "map_of (entries t) k = None" and "txn \<noteq> NO_OWNER"
  shows "wf_table (t\<lparr>entries := AList.update k \<lparr>owner = txn, last_commit_seq = 0, waiters = []\<rparr> (entries t)\<rparr>)"
  using assms count_free_update [of "entries t" k "\<lparr>owner = txn, last_commit_seq = 0, waiters = []\<rparr>"]
  by (simp add: wf_table_def distinct_update)

lemma acquire_start_wf:
  assumes "wf_table t" and "txn \<noteq> NO_OWNER" and "acquire_start txn cf key t = (t', r)"
  shows "wf_table t'"
proof (cases "shutdown t")
  case (Some err)
  with assms show ?thesis by (simp add: acquire_start_def)
next
  case sh: None
  show ?thesis
  proof (cases "map_of (entries t) (cf, key)")
    case None
    with sh assms wf_fresh [OF assms(1) None assms(2)] show ?thesis
      by (auto simp: acquire_start_def decide_def Let_def)
  next
    case (Some e)
    with sh assms(3) wf_takeover [OF assms(1) Some _ assms(2)]
      wf_update [OF assms(1) Some, of "e\<lparr>waiters := ws\<rparr>" for ws] assms(1)
    show ?thesis
      by (cases "decide txn (cf, key) t")
         (auto simp: acquire_start_def decide_def Let_def split: if_splits)
  qed
qed

lemma acquire_start_inv:
  assumes inv: "txn_inv s" and "txn \<noteq> NO_OWNER" and np: "\<not> is_parked s txn"
    and acq: "acquire_start txn cf key (tbl s) = (t, r)"
  shows "case r of Returned x \<Rightarrow> txn_inv (s\<lparr>tbl := t\<rparr>)
     | Parked w \<Rightarrow> txn_inv (s\<lparr>tbl := t, parked := ((cf, key), w) # parked s\<rparr>)"
proof -
  from inv have q: "queue_inv (tbl s) (parked s)" and o: "owner_inv NO_OWNER [] (tbl s)"
    and "wf_table (tbl s)" by (simp_all add: txn_inv_def)
  then have wf: "wf_table t" using acquire_start_wf acq assms(2) by blast
  from acq show ?thesis
  proof (cases rule: acquire_start_cases)
    case (take seq)
    with queue_inv_take [OF q take(1-4)] owner_inv_take [OF o take(1) assms(2) take(4,5)] wf
    show ?thesis by (simp add: txn_inv_def)
  next
    case (wait w)
    have "queue_inv t (((cf, key), w) # parked s)"
      using np by (intro queue_inv_park [OF q wait(1) assms(2) _ wait(2)]) (simp_all add: wait is_parked_def)
    with owner_inv_cong [OF o wait(3,5)] wf show ?thesis by (simp add: txn_inv_def wait)
  qed (use inv in simp_all)
qed

text \<open>One key changes hands: the front waiter is granted, later younger ones are denied.\<close>

lemma hand_off_queue_inv:
  assumes inv: "queue_inv t ps" and q: "queue t k = w # ws" and own: "owner_of t k = txn"
    and np: "\<And>k' x. (k', x) \<in> set ps \<Longrightarrow> w_txn x \<noteq> txn"
    and t': "owner_of t' = (owner_of t)(k := w_txn w)"
      "queue t' = (queue t)(k := filter (\<lambda>x. w_txn x < w_txn w) ws)"
      "cells t' = cells (set_cells (filter (\<lambda>x. \<not> w_txn x < w_txn w) ws) W_DENIED_WAIT_DIE
         (set_cells [w] W_GRANTED t))"
  shows "queue_inv t' ps"
proof (rule queue_inv_update [OF inv])
  fix k' x
  have kw: "(k, w) \<in> set ps" "w \<notin> set ws" "\<And>y. y \<in> set ws \<Longrightarrow> (k, y) \<in> set ps"
    using queue_inv_queued(2) [OF inv, of _ k] queue_inv_distinct [OF inv, of k] q by auto
  have cell: "cells t' ! w_cell x = (if k' = k \<and> x \<in> set ws \<and> \<not> w_txn x < w_txn w then W_DENIED_WAIT_DIE
      else if k' = k \<and> x = w then W_GRANTED else cells t ! w_cell x)" if p: "(k', x) \<in> set ps"
  proof -
    have "w_cell x \<in> w_cell ` set (filter (\<lambda>x. \<not> w_txn x < w_txn w) ws) \<longleftrightarrow>
        k' = k \<and> x \<in> set ws \<and> \<not> w_txn x < w_txn w"
      using parked_cell_inj [OF inv p kw(3)] by auto
    moreover have "w_cell x = w_cell w \<longleftrightarrow> k' = k \<and> x = w"
      using parked_cell_inj [OF inv p kw(1)] by auto
    ultimately show ?thesis
      using queue_inv_parked(2) [OF inv p] queue_inv_parked(2) [OF inv kw(1)] by (auto simp: t')
  qed
  show "set (queue t' k') \<subseteq> set (queue t k')" using q by (auto simp: t')
  show "distinct (queue t' k')" using queue_inv_distinct [OF inv, of k'] q by (auto simp: t')
  show "w_txn x < owner_of t' k'" if "x \<in> set (queue t' k')"
    using that queue_inv_queued(1) [OF inv, of x k'] by (auto simp: t' split: if_splits)
  show "length (cells t') = length (cells t)" by (simp add: t')
  show "cells t' ! w_cell x = cells t ! w_cell x"
    if "(k', x) \<in> set ps" "x \<in> set (queue t' k') \<or> x \<notin> set (queue t k')"
    using cell that q kw(2) by (auto simp: t' split: if_splits)
  show "cells t' ! w_cell x \<noteq> W_QUEUED \<and> cells t' ! w_cell x \<in> waiter_states"
    if "(k', x) \<in> set ps" "x \<in> set (queue t k')" "x \<notin> set (queue t' k')"
    using cell that q by (auto simp: t' waiter_state_defs waiter_states_def split: if_splits)
  show "owner_of t' k' = w_txn x" if p: "(k', x) \<in> set ps" and g: "cells t' ! w_cell x = W_GRANTED"
    using cell [OF p] g queue_inv_parked(4) [OF inv p] np [OF p] own
    by (auto simp: t' waiter_state_defs split: if_splits)
qed

lemma queue_inv_free:
  assumes inv: "queue_inv t ps" and q: "queue t k = []" and own: "owner_of t k = txn"
    and np: "\<And>k' x. (k', x) \<in> set ps \<Longrightarrow> w_txn x \<noteq> txn"
    and t': "owner_of t' = (owner_of t)(k := NO_OWNER)" "queue t' = queue t" "cells t' = cells t"
  shows "queue_inv t' ps"
proof (rule queue_inv_update [OF inv])
  fix k' w
  show "w_txn w < owner_of t' k'" if "w \<in> set (queue t' k')"
    using that t' q queue_inv_queued(1) [OF inv] by auto
  show "owner_of t' k' = w_txn w" if "(k', w) \<in> set ps" "cells t' ! w_cell w = W_GRANTED"
    using that t' own np [OF that(1)] queue_inv_parked(4) [OF inv that(1)] by auto
qed (use t' queue_inv_distinct [OF inv] in auto)

lemma owner_inv_move:
  assumes o: "owner_inv txn (k # ks) t" and d: "k \<notin> set ks"
    and own: "owner_of t k = txn" "txn \<noteq> NO_OWNER" "k \<notin> set (held_of t txn)" and "y \<noteq> txn"
    and t': "owner_of t' = (owner_of t)(k := y)"
      "held_of t' = (if y = NO_OWNER then held_of t else (held_of t)(y := held_of t y @ [k]))"
  shows "owner_inv txn ks t'"
proof -
  have iff: "k' \<in> set (held_of t x) \<or> (x = txn \<and> k' \<in> set (k # ks)) \<longleftrightarrow> owner_of t k' = x"
    if "x \<noteq> NO_OWNER" for x k'
    using o that unfolding owner_inv_def by blast
  have nh: "k \<notin> set (held_of t x)" if "x \<noteq> NO_OWNER" for x
    using iff [OF that, of k] own by auto
  have "k' \<in> set (held_of t' x) \<or> (x = txn \<and> k' \<in> set ks) \<longleftrightarrow> owner_of t' k' = x"
    if x: "x \<noteq> NO_OWNER" for x k'
    using iff [OF x, of k'] nh [OF x] d assms(6) x by (cases "k' = k") (auto simp: t')
  moreover have "distinct (held_of t' x)" for x
    using o nh by (auto simp: owner_inv_def t')
  moreover have "held_of t' NO_OWNER = []"
    using o by (simp add: owner_inv_def t')
  ultimately show ?thesis unfolding owner_inv_def by blast
qed

text \<open>What a hand-off of a key owned by \<open>txn\<close> does to ownership and the queues.\<close>

lemma hand_off_inv:
  assumes q: "queue_inv t ps" and o: "owner_inv txn (k # ks) t" and d: "k \<notin> set ks"
    and own: "owner_of t k = txn" "txn \<noteq> NO_OWNER" "k \<notin> set (held_of t txn)"
    and np: "\<And>k' x. (k', x) \<in> set ps \<Longrightarrow> w_txn x \<noteq> txn"
  shows "\<exists>t'. hand_off k visible_seq t = Inr t' \<and> queue_inv t' ps \<and> owner_inv txn ks t' \<and>
    owner_of t' k \<noteq> txn \<and> (\<forall>k'. k' \<noteq> k \<longrightarrow> owner_of t' k' = owner_of t k' \<and> queue t' k' = queue t k') \<and>
    held_of t' txn = held_of t txn \<and> owner_of t' k = next_owner (queue t k)"
proof -
  obtain e where e: "map_of (entries t) k = Some e"
    using own by (cases "map_of (entries t) k") (auto simp: owner_of_def)
  show ?thesis
  proof (cases "waiters e")
    case Nil
    then have qk: "queue t k = []" using e by (simp add: queue_def)
    have result: "\<exists>t'. hand_off k visible_seq t = Inr t' \<and> owner_of t' = (owner_of t)(k := NO_OWNER) \<and>
        queue t' = queue t \<and> cells t' = cells t \<and> held_of t' = held_of t"
      using e Nil qk by (auto simp: hand_off_def fun_eq_iff)
    then obtain t' where t': "hand_off k visible_seq t = Inr t'"
      "owner_of t' = (owner_of t)(k := NO_OWNER)" "queue t' = queue t" "cells t' = cells t"
      "held_of t' = held_of t" by blast
    have "owner_inv txn ks t'"
      by (rule owner_inv_move [OF o d own _ t'(2)]) (use own t'(5) in simp_all)
    moreover have "queue_inv t' ps"
      by (rule queue_inv_free [OF q qk own(1) _ t'(2-4)]) (rule np)
    ultimately show ?thesis
      using t' own qk by (intro exI [of _ t']) (simp add: next_owner_def del: split_paired_All)
  next
    case (Cons w ws)
    then have qk: "queue t k = w # ws" using e by (simp add: queue_def)
    then have kw: "(k, w) \<in> set ps" using queue_inv_queued(2) [OF q, of w k] by simp
    have w: "w_txn w \<noteq> NO_OWNER" "w_txn w \<noteq> txn"
      using queue_inv_parked(1) [OF q kw] np [OF kw] by simp_all
    have "\<exists>t'. hand_off k visible_seq t = Inr t' \<and> owner_of t' = (owner_of t)(k := w_txn w) \<and>
        queue t' = (queue t)(k := filter (\<lambda>x. w_txn x < w_txn w) ws) \<and>
        cells t' = cells (set_cells (filter (\<lambda>x. \<not> w_txn x < w_txn w) ws) W_DENIED_WAIT_DIE
          (set_cells [w] W_GRANTED t)) \<and>
        held_of t' = (held_of t)(w_txn w := held_of t (w_txn w) @ [k])"
      using e Cons by (auto simp: hand_off_def fun_eq_iff Let_def owner_of_def queue_def update_conv')
    then obtain t' where t': "hand_off k visible_seq t = Inr t'"
      "owner_of t' = (owner_of t)(k := w_txn w)"
      "queue t' = (queue t)(k := filter (\<lambda>x. w_txn x < w_txn w) ws)"
      "cells t' = cells (set_cells (filter (\<lambda>x. \<not> w_txn x < w_txn w) ws) W_DENIED_WAIT_DIE
          (set_cells [w] W_GRANTED t))"
      "held_of t' = (held_of t)(w_txn w := held_of t (w_txn w) @ [k])" by blast
    have "owner_inv txn ks t'"
      by (rule owner_inv_move [OF o d own w(2) t'(2)]) (use w t'(5) in simp)
    moreover have "queue_inv t' ps"
      by (rule hand_off_queue_inv [OF q qk own(1) _ t'(2-4)]) (rule np)
    ultimately show ?thesis
      using t' own w qk by (intro exI [of _ t']) (simp add: next_owner_def del: split_paired_All)
  qed
qed

lemma hand_off_wf:
  assumes wf: "wf_table t" and e: "map_of (entries t) k = Some e" "owner e \<noteq> NO_OWNER"
    and ws: "\<And>w. w \<in> set (waiters e) \<Longrightarrow> w_txn w \<noteq> NO_OWNER"
    and ho: "hand_off k visible_seq t = Inr t'"
  shows "wf_table t'"
proof (cases "waiters e")
  case Nil
  then show ?thesis
    using wf e ho count_free_update [of "entries t" k "e\<lparr>owner := NO_OWNER\<rparr>"]
      count_free_delete [of "entries t" k]
    by (auto simp: hand_off_def wf_table_def distinct_update distinct_delete
        simp del: map_of_eq_Some_iff split: if_splits)
next
  case (Cons w ws)
  let ?t = "set_cells (filter (\<lambda>x. \<not> w_txn x < w_txn w) ws) W_DENIED_WAIT_DIE (set_cells [w] W_GRANTED t)"
  have "w_txn w \<noteq> NO_OWNER" using ws Cons by simp
  then have "wf_table (?t\<lparr>entries := AList.update k
      (e\<lparr>owner := w_txn w, waiters := filter (\<lambda>x. w_txn x < w_txn w) ws\<rparr>) (entries ?t)\<rparr>)"
    using wf e by (intro wf_update [where ?e0.0 = e]) simp_all
  then show ?thesis using ho e Cons by (auto simp: hand_off_def Let_def)
qed

lemma stamp_same:
  assumes "map_of (entries t) k = Some e"
  shows "owner_of (t\<lparr>entries := AList.update k (e\<lparr>last_commit_seq := n\<rparr>) (entries t)\<rparr>) = owner_of t"
    "queue (t\<lparr>entries := AList.update k (e\<lparr>last_commit_seq := n\<rparr>) (entries t)\<rparr>) = queue t"
    "owner_of (t\<lparr>entries := AList.update k e (entries t)\<rparr>) = owner_of t"
    "queue (t\<lparr>entries := AList.update k e (entries t)\<rparr>) = queue t"
  using assms by (auto simp: fun_eq_iff owner_of_def queue_def update_conv')

lemma queue_inv_cong:
  "queue_inv t ps \<Longrightarrow> owner_of t' = owner_of t \<Longrightarrow> queue t' = queue t \<Longrightarrow> cells t' = cells t \<Longrightarrow>
     queue_inv t' ps"
  by (simp add: queue_inv_def)

lemma release_keys_inv:
  assumes "queue_inv t ps" "owner_inv txn ks t" "distinct ks" "txn \<noteq> NO_OWNER" "held_of t txn = []"
    and np0: "txn \<notin> (\<lambda>(_, w). w_txn w) ` set ps"
    and wf: "wf_table t"
  shows "\<exists>t'. release_keys txn committed_at visible_seq ks t = Inr t' \<and> queue_inv t' ps \<and> wf_table t' \<and>
    owner_inv txn [] t' \<and> held_of t' txn = [] \<and>
    (\<forall>k. owner_of t' k \<noteq> txn) \<and> (\<forall>k. owner_of t k \<noteq> txn \<longrightarrow> owner_of t' k = owner_of t k) \<and>
    (\<forall>k. owner_of t k = txn \<longrightarrow> owner_of t' k = next_owner (queue t k))"
  using assms(1-5) wf
proof (induction ks arbitrary: t)
  case Nil
  then have "owner_of t k \<noteq> txn" for k
    unfolding owner_inv_def by (metis empty_iff list.set(1))
  with Nil show ?case by simp
next
  case (Cons k ks)
  have np: "\<And>k' x. (k', x) \<in> set ps \<Longrightarrow> w_txn x \<noteq> txn"
    using np0 by force
  have own: "owner_of t k = txn"
    using Cons.prems(2,4) unfolding owner_inv_def by (simp del: split_paired_All) metis
  then obtain e where e: "map_of (entries t) k = Some e" "owner e = txn"
    using Cons.prems(4) by (cases "map_of (entries t) k") (auto simp: owner_of_def)
  define t1 where "t1 = t\<lparr>entries := AList.update k (case committed_at of None \<Rightarrow> e
      | Some seq \<Rightarrow> e\<lparr>last_commit_seq := max (last_commit_seq e) seq\<rparr>) (entries t)\<rparr>"
  have same: "owner_of t1 = owner_of t" "queue t1 = queue t" "cells t1 = cells t" "held_of t1 = held_of t"
    using stamp_same [OF e(1)] by (cases committed_at; simp add: t1_def)+
  have q1: "queue_inv t1 ps" using queue_inv_cong [OF Cons.prems(1) same(1-3)] .
  have o1: "owner_inv txn (k # ks) t1" using owner_inv_cong [OF Cons.prems(2) same(1,4)] .
  obtain t2 where t2: "hand_off k visible_seq t1 = Inr t2" "queue_inv t2 ps" "owner_inv txn ks t2"
    "owner_of t2 k \<noteq> txn"
    "\<forall>k'. k' \<noteq> k \<longrightarrow> owner_of t2 k' = owner_of t1 k' \<and> queue t2 k' = queue t1 k'"
    "held_of t2 txn = held_of t1 txn" "owner_of t2 k = next_owner (queue t1 k)"
    using hand_off_inv [OF q1 o1, of visible_seq] Cons.prems own np by (auto simp: same)
  have own1: "owner_of t1 k = txn" using own same(1) by simp
  have "wf_table t1"
    using e Cons.prems(4,6) by (cases committed_at) (auto simp: t1_def intro!: wf_update [OF _ e(1)])
  moreover obtain e1 where e1: "map_of (entries t1) k = Some e1" "owner e1 = txn"
    using own1 Cons.prems(4) by (cases "map_of (entries t1) k") (auto simp: owner_of_def)
  moreover have "w_txn w \<noteq> NO_OWNER" if "w \<in> set (waiters e1)" for w
    using queue_inv_queued(2) [OF q1, of w k] queue_inv_parked(1) [OF q1] that e1 by (auto simp: queue_def)
  ultimately have "wf_table t2"
    using hand_off_wf [OF _ _ _ _ t2(1)] Cons.prems(4) by blast
  with Cons.IH [OF t2(2,3)] Cons.prems t2(6) obtain t3 where
    "release_keys txn committed_at visible_seq ks t2 = Inr t3" "queue_inv t3 ps" "owner_inv txn [] t3"
    "wf_table t3"
    "held_of t3 txn = []" "\<forall>k. owner_of t3 k \<noteq> txn"
    "\<forall>k. owner_of t2 k \<noteq> txn \<longrightarrow> owner_of t3 k = owner_of t2 k"
    "\<forall>k. owner_of t2 k = txn \<longrightarrow> owner_of t3 k = next_owner (queue t2 k)"
    by (auto simp: same)
  moreover have "release_keys txn committed_at visible_seq (k # ks) t =
      release_keys txn committed_at visible_seq ks t2"
    using e t2(1) by (simp add: t1_def Let_def)
  ultimately show ?case using t2 own same by (metis (no_types))
qed

lemma map_of_filter_entry:
  "distinct (map fst es) \<Longrightarrow> map_of (filter (\<lambda>(_, e). Q e) es) k =
     (case map_of es k of None \<Rightarrow> None | Some e \<Rightarrow> if Q e then Some e else None)"
proof (induction es)
  case (Cons p es)
  then show ?case
    by (cases p) (auto split: option.split simp: map_of_eq_None_iff simp del: map_of_eq_Some_iff
        dest: map_of_SomeD)
qed simp

lemma sweep_same:
  assumes "wf_table t" and "queue_inv t ps"
  shows "owner_of (sweep v t) = owner_of t" "queue (sweep v t) = queue t" "cells (sweep v t) = cells t"
    "held_of (sweep v t) = held_of t" "wf_table (sweep v t)"
proof -
  have d: "distinct (map fst (entries t))" using assms(1) by (simp add: wf_table_def)
  have "waiters e = []" if "map_of (entries t) k = Some e" "owner e = NO_OWNER" for k e
    using unowned_queue [OF assms(2), of k] that by (simp add: owner_of_def queue_def)
  then show "owner_of (sweep v t) = owner_of t" "queue (sweep v t) = queue t"
    by (auto simp: sweep_def fun_eq_iff owner_of_def queue_def map_of_filter_entry [OF d] Let_def
        split: option.splits simp del: map_of_eq_Some_iff)
  show "cells (sweep v t) = cells t" "held_of (sweep v t) = held_of t"
    by (simp_all add: sweep_def Let_def)
  show "wf_table (sweep v t)"
    using assms(1) by (auto simp: sweep_def Let_def wf_table_def count_free_def distinct_map_filter)
qed

lemma owner_inv_drop_held:
  assumes "owner_inv NO_OWNER [] t" and "txn \<noteq> NO_OWNER"
  shows "owner_inv txn (held_of t txn) (t\<lparr>held := AList.delete txn (held t)\<rparr>)"
  using assms unfolding owner_inv_def by (simp del: split_paired_All)

lemma owner_inv_finish:
  "owner_inv txn [] t \<Longrightarrow> owner_inv NO_OWNER [] t"
  by (simp add: owner_inv_def)

lemma release_all_inv:
  assumes inv: "txn_inv s" and "txn \<noteq> NO_OWNER" and np: "\<not> is_parked s txn"
  shows "\<exists>t. release_all txn committed_at visible_seq (tbl s) = Inr t \<and> txn_inv (s\<lparr>tbl := t\<rparr>) \<and>
    (\<forall>k. owner_of t k \<noteq> txn) \<and> held_of t txn = [] \<and>
    (\<forall>k. owner_of (tbl s) k \<noteq> txn \<longrightarrow> owner_of t k = owner_of (tbl s) k) \<and>
    (\<forall>k. owner_of (tbl s) k = txn \<longrightarrow> owner_of t k = next_owner (queue (tbl s) k))"
proof (cases "map_of (held (tbl s)) txn")
  case None
  then have h: "held_of (tbl s) txn = []" by (simp add: held_of_def)
  moreover have "owner_of (tbl s) k \<noteq> txn" for k
    using inv h assms(2) unfolding txn_inv_def owner_inv_def by (metis empty_iff list.set(1))
  ultimately show ?thesis using inv None by (simp add: release_all_def)
next
  case (Some ks)
  let ?t = "tbl s\<lparr>held := AList.delete txn (held (tbl s))\<rparr>"
  have ks: "held_of (tbl s) txn = ks" using Some by (simp add: held_of_def)
  have q: "queue_inv ?t (parked s)" and w: "wf_table ?t"
    and o: "owner_inv txn ks ?t" and d: "distinct ks"
    using inv owner_inv_drop_held [of "tbl s" txn] assms(2) ks
    by (auto simp: txn_inv_def owner_inv_def intro: queue_inv_cong)
  have h: "held_of ?t txn = []" by simp
  from release_keys_inv [OF q o d assms(2) h np [unfolded is_parked_def] w,
      where committed_at = committed_at and visible_seq = visible_seq]
  obtain t where t: "release_keys txn committed_at visible_seq ks ?t = Inr t" "queue_inv t (parked s)"
    "wf_table t" "owner_inv txn [] t" "held_of t txn = []" "\<forall>k. owner_of t k \<noteq> txn"
    "\<forall>k. owner_of ?t k \<noteq> txn \<longrightarrow> owner_of t k = owner_of ?t k"
    "\<forall>k. owner_of ?t k = txn \<longrightarrow> owner_of t k = next_owner (queue ?t k)"
    by blast
  note sw = sweep_same [OF t(3,2), of visible_seq]
  have "txn_inv (s\<lparr>tbl := sweep visible_seq t\<rparr>)"
    using queue_inv_cong [OF t(2) sw(1-3)] owner_inv_cong [OF owner_inv_finish [OF t(4)] sw(1,4)] sw(5)
    by (simp add: txn_inv_def)
  moreover have "release_all txn committed_at visible_seq (tbl s) = Inr (sweep visible_seq t)"
    using Some t(1) by (simp add: release_all_def)
  ultimately show ?thesis using t(5-8) sw by simp
qed

lemma queue_inv_deny:
  assumes inv: "queue_inv t ps" and own: "owner_of t k = txn"
    and np: "\<And>k' x. (k', x) \<in> set ps \<Longrightarrow> w_txn x \<noteq> txn"
  shows "queue_inv (set_cells (queue t k) W_DENIED_RESERVED
    (t\<lparr>entries := AList.delete k (entries t)\<rparr>)) ps" (is "queue_inv ?t ps")
proof (rule queue_inv_update [OF inv])
  fix k' x
  have cell: "cells ?t ! w_cell x = (if k' = k \<and> x \<in> set (queue t k) then W_DENIED_RESERVED
      else cells t ! w_cell x)" if p: "(k', x) \<in> set ps"
  proof -
    have "w_cell x \<in> w_cell ` set (queue t k) \<longleftrightarrow> k' = k \<and> x \<in> set (queue t k)"
      using parked_cell_inj [OF inv p queue_inv_queued(2) [OF inv, of _ k]] by auto
    then show ?thesis using queue_inv_parked(2) [OF inv p] by simp
  qed
  show "w_txn x < owner_of ?t k'" if "x \<in> set (queue ?t k')"
    using that queue_inv_queued(1) [OF inv, of x k'] by (auto split: if_splits)
  show "cells ?t ! w_cell x = cells t ! w_cell x"
    if "(k', x) \<in> set ps" "x \<in> set (queue ?t k') \<or> x \<notin> set (queue t k')"
    using cell that by (auto split: if_splits)
  show "cells ?t ! w_cell x \<noteq> W_QUEUED \<and> cells ?t ! w_cell x \<in> waiter_states"
    if "(k', x) \<in> set ps" "x \<in> set (queue t k')" "x \<notin> set (queue ?t k')"
    using cell that by (auto simp: waiter_state_defs waiter_states_def split: if_splits)
  show "owner_of ?t k' = w_txn x" if p: "(k', x) \<in> set ps" and g: "cells ?t ! w_cell x = W_GRANTED"
    using cell [OF p] g queue_inv_parked(4) [OF inv p] np [OF p] own
    by (auto simp: waiter_state_defs split: if_splits)
qed (use queue_inv_distinct [OF inv] in auto)

lemma deny_keys_inv:
  assumes "queue_inv t ps" "owner_inv txn ks t" "distinct ks" "txn \<noteq> NO_OWNER" "held_of t txn = []"
    and np0: "txn \<notin> (\<lambda>(_, w). w_txn w) ` set ps"
    and wf: "wf_table t"
  shows "queue_inv (deny_keys txn ks t) ps \<and> wf_table (deny_keys txn ks t) \<and>
    owner_inv txn [] (deny_keys txn ks t)"
  using assms(1-5) wf
proof (induction ks arbitrary: t)
  case (Cons k ks)
  have np: "\<And>k' x. (k', x) \<in> set ps \<Longrightarrow> w_txn x \<noteq> txn"
    using np0 by force
  have own: "owner_of t k = txn"
    using Cons.prems(2,4) unfolding owner_inv_def by (simp del: split_paired_All) metis
  then obtain e where e: "map_of (entries t) k = Some e" "owner e = txn"
    using Cons.prems(4) by (cases "map_of (entries t) k") (auto simp: owner_of_def)
  let ?t = "set_cells (waiters e) W_DENIED_RESERVED (t\<lparr>entries := AList.delete k (entries t)\<rparr>)"
  have "queue_inv ?t ps"
    using queue_inv_deny [OF Cons.prems(1) own np] e by (simp add: queue_def)
  moreover have "k \<notin> set (held_of t x)" if "x \<noteq> NO_OWNER" for x
    using Cons.prems(2,5) own that unfolding owner_inv_def by (metis empty_iff list.set(1))
  then have "owner_inv txn ks ?t"
    using Cons.prems(2-5) own unfolding owner_inv_def by (auto simp del: split_paired_All)
  moreover have "wf_table ?t"
    using Cons.prems(4,6) e count_free_delete [of "entries t" k]
    by (simp add: wf_table_def set_cells_def distinct_delete del: map_of_eq_Some_iff)
  ultimately show ?case
    using Cons.IH [of ?t] Cons.prems e by simp
qed simp

lemma deny_all_inv:
  assumes inv: "txn_inv s" and "txn \<noteq> NO_OWNER" and np: "\<not> is_parked s txn"
  shows "txn_inv (s\<lparr>tbl := deny_all txn (tbl s)\<rparr>)"
proof (cases "map_of (held (tbl s)) txn")
  case None
  then show ?thesis using inv by (simp add: deny_all_def)
next
  case (Some ks)
  let ?t = "tbl s\<lparr>held := AList.delete txn (held (tbl s))\<rparr>"
  have ks: "held_of (tbl s) txn = ks" using Some by (simp add: held_of_def)
  have q: "queue_inv ?t (parked s)" and w: "wf_table ?t"
    and o: "owner_inv txn ks ?t" and d: "distinct ks"
    using inv owner_inv_drop_held [of "tbl s" txn] assms(2) ks
    by (auto simp: txn_inv_def owner_inv_def intro: queue_inv_cong)
  have h: "held_of ?t txn = []" by simp
  from deny_keys_inv [OF q o d assms(2) h np [unfolded is_parked_def] w] Some show ?thesis
    by (auto simp: deny_all_def txn_inv_def intro: owner_inv_finish)
qed

lemma wake_every_waiter_simps [simp]:
  "queue (wake_every_waiter t) k = []" "owner_of (wake_every_waiter t) = owner_of t"
  "held_of (wake_every_waiter t) = held_of t" "wf_table (wake_every_waiter t) = wf_table t"
proof -
  have m: "map_of (map (\<lambda>(k, e). (k, e\<lparr>waiters := []\<rparr>)) es) k =
      map_option (\<lambda>e. e\<lparr>waiters := []\<rparr>) (map_of es k)" for es :: "(lock_key \<times> lock_entry) list" and k
    by (induction es) auto
  have c: "count_free (map (\<lambda>(k, e). (k, e\<lparr>waiters := []\<rparr>)) es) = count_free es" for es
    by (induction es) auto
  have f: "map fst (map (\<lambda>(k, e). (k, e\<lparr>waiters := []\<rparr>)) es) = map fst es"
    for es :: "(lock_key \<times> lock_entry) list"
    by (induction es) auto
  show "queue (wake_every_waiter t) k = []" "owner_of (wake_every_waiter t) = owner_of t"
    "held_of (wake_every_waiter t) = held_of t"
    by (auto simp: wake_every_waiter_def queue_def owner_of_def m fun_eq_iff split: option.split)
  show "wf_table (wake_every_waiter t) = wf_table t"
    unfolding wf_table_def wake_every_waiter_def by (simp add: c f set_cells_def del: map_map)
qed

lemma wake_every_waiter_cells:
  assumes inv: "queue_inv t ps" and d: "distinct (map fst (entries t))" and p: "(k, x) \<in> set ps"
  shows "cells (wake_every_waiter t) ! w_cell x =
    (if x \<in> set (queue t k) then W_DENIED_SHUTDOWN else cells t ! w_cell x)"
proof -
  let ?ws = "concat (map (\<lambda>(_, e). waiters e) (entries t))"
  have ws: "y \<in> set ?ws \<longleftrightarrow> (\<exists>k'. y \<in> set (queue t k'))" for y
    using d by (force simp: queue_def split: option.splits)
  have "w_cell x \<in> w_cell ` set ?ws \<longleftrightarrow> x \<in> set (queue t k)"
  proof
    assume "w_cell x \<in> w_cell ` set ?ws"
    then obtain y k' where "w_cell x = w_cell y" "y \<in> set (queue t k')" using ws by blast
    with parked_cell_inj [OF inv p queue_inv_queued(2) [OF inv, of y k']] show "x \<in> set (queue t k)"
      by auto
  next
    assume "x \<in> set (queue t k)"
    then show "w_cell x \<in> w_cell ` set ?ws" using ws by blast
  qed
  then show ?thesis
    using queue_inv_parked(2) [OF inv p] by (simp add: wake_every_waiter_def)
qed

lemma wake_every_waiter_queue_inv:
  assumes inv: "queue_inv t ps" and d: "distinct (map fst (entries t))"
  shows "queue_inv (wake_every_waiter t) ps"
proof (rule queue_inv_update [OF inv])
  note cell = wake_every_waiter_cells [OF inv d]
  fix k' x
  show "length (cells (wake_every_waiter t)) = length (cells t)"
    by (simp add: wake_every_waiter_def)
  show "cells (wake_every_waiter t) ! w_cell x = cells t ! w_cell x"
    if "(k', x) \<in> set ps" "x \<in> set (queue (wake_every_waiter t) k') \<or> x \<notin> set (queue t k')"
    using cell that by simp
  show "cells (wake_every_waiter t) ! w_cell x \<noteq> W_QUEUED \<and> cells (wake_every_waiter t) ! w_cell x \<in> waiter_states"
    if "(k', x) \<in> set ps" "x \<in> set (queue t k')"
    using cell that by (simp add: waiter_state_defs waiter_states_def)
  show "owner_of (wake_every_waiter t) k' = w_txn x"
    if "(k', x) \<in> set ps" "cells (wake_every_waiter t) ! w_cell x = W_GRANTED"
    using cell that queue_inv_parked(4) [OF inv] by (auto simp: waiter_state_defs split: if_splits)
qed simp_all

lemma wake_every_waiter_inv:
  assumes "txn_inv s" and "owner_of t = owner_of (tbl s)" "queue t = queue (tbl s)"
    "cells t = cells (tbl s)" "held_of t = held_of (tbl s)" "wf_table t"
  shows "txn_inv (s\<lparr>tbl := wake_every_waiter t\<rparr>)"
proof -
  have "queue_inv t (parked s)" "owner_inv NO_OWNER [] t"
    using assms queue_inv_cong owner_inv_cong by (auto simp: txn_inv_def)
  then show ?thesis
    using wake_every_waiter_queue_inv [of t "parked s"] owner_inv_cong [of NO_OWNER "[]" t] assms(6)
    by (simp add: txn_inv_def wf_table_def [of t])
qed

lemma queue_inv_remove:
  assumes inv: "queue_inv t ps" and "(k, w) \<in> set ps" and "cells t ! w_cell w \<noteq> W_QUEUED"
  shows "queue_inv t (remove1 (k, w) ps)"
proof -
  have d: "distinct ps" using inv by (auto simp: queue_inv_def distinct_map)
  have "(k', x) \<in> set (remove1 (k, w) ps)" if "x \<in> set (queue t k')" for k' x
    using queue_inv_queued(2) [OF inv that] queue_inv_parked(3) [OF inv assms(2)] that assms(3) d by auto
  moreover have "distinct (map f (remove1 (k, w) ps))" if "distinct (map f ps)" for f :: "_ \<Rightarrow> 'b"
    using that by (metis distinct_map distinct_remove1 inj_on_subset set_remove1_subset)
  ultimately show ?thesis
    using inv notin_set_remove1 unfolding queue_inv_def by (metis (no_types, lifting))
qed

lemma txn_inv_step: "txn_step s t \<Longrightarrow> txn_inv s \<Longrightarrow> txn_inv t"
proof (induction rule: txn_step.induct)
  case (txn_acquire_return txn s cf key t r)
  then show ?case using acquire_start_inv by fastforce
next
  case (txn_acquire_park txn s cf key t w)
  then show ?case using acquire_start_inv by fastforce
next
  case (txn_wake k w s r)
  then have "cells (tbl s) ! w_cell w \<noteq> W_QUEUED"
    by (auto simp: acquire_wake_def waiter_state_defs Let_def split: if_splits)
  with txn_wake show ?case by (simp add: txn_inv_def queue_inv_remove)
next
  case (txn_release txn s committed_at visible_seq t)
  then show ?case using release_all_inv [of s txn committed_at visible_seq] by auto
next
  case (txn_deny txn s)
  then show ?case by (intro deny_all_inv)
next
  case (txn_wake_all s err)
  then show ?case
    unfolding wake_all_with_error_def by (intro wake_every_waiter_inv) (simp_all add: txn_inv_def)
next
  case (txn_shut_down s err)
  then show ?case
    unfolding shut_down_def Let_def by (intro wake_every_waiter_inv) (simp_all add: txn_inv_def)
qed

lemma txn_reachable_inv: "txn_reachable s \<Longrightarrow> txn_inv s"
proof (induction rule: txn_reachable.induct)
  case txn_reach_init
  then show ?case
    by (simp add: txn_init_def txn_inv_def queue_inv_def owner_inv_def wf_table_def lock_table_new_def
        queue_def owner_of_def held_of_def)
qed (blast intro: txn_inv_step)

lemma acquire_grant:
  "acquire_start txn cf key t = (t', Returned (Inr g)) \<Longrightarrow> owner_of t' (cf, key) = txn"
  by (erule acquire_start_cases) auto

definition waits_for :: "txn_state \<Rightarrow> u64 \<Rightarrow> u64 \<Rightarrow> bool" where
  "waits_for s a b \<longleftrightarrow> (\<exists>k w. w \<in> set (queue (tbl s) k) \<and> w_txn w = a \<and> owner_of (tbl s) k = b)"

lemma waits_for_less: "txn_inv s \<Longrightarrow> waits_for s a b \<Longrightarrow> a < b"
  unfolding waits_for_def txn_inv_def using queue_inv_queued(1) by blast

lemma finite_waited: "txn_inv s \<Longrightarrow> finite {b. \<exists>a. waits_for s a b}"
proof -
  assume "txn_inv s"
  then have "{b. \<exists>a. waits_for s a b} \<subseteq> (\<lambda>(k, w). owner_of (tbl s) k) ` set (parked s)"
    unfolding waits_for_def txn_inv_def using queue_inv_queued(2) by (force simp: image_iff)
  then show ?thesis using finite_surj by blast
qed

section \<open>Properties\<close>

text \<open>
  C8. Wait-die never deadlocks: in every reachable state, under any interleaving of
  acquisitions, wake-ups, commits, rollbacks, prepares, fail-stop and close, each wait leads from an
  older to a younger transaction, so the waits-for relation has no cycle, and whenever some
  transaction waits there is a lock owner it or another waits for that is not itself waiting.
\<close>

theorem wait_die_no_deadlock:
  assumes "txn_reachable s"
  shows "acyclic {(a, b). waits_for s a b} \<and> (\<forall>a b. waits_for s a b \<longrightarrow> a < b) \<and>
    ((\<exists>a b. waits_for s a b) \<longrightarrow> (\<exists>b. (\<exists>a. waits_for s a b) \<and> \<not> (\<exists>c. waits_for s b c)))"
proof -
  have inv: "txn_inv s" using txn_reachable_inv [OF assms] .
  have less: "waits_for s a b \<Longrightarrow> a < b" for a b using waits_for_less [OF inv] .
  have "trans {(a, b :: u64). a < b}" by (auto simp: trans_def)
  then have "acyclic {(a, b :: u64). a < b}" by (simp add: acyclic_def)
  then have "acyclic {(a, b). waits_for s a b}"
    by (rule acyclic_subset) (use less in auto)
  moreover have "\<exists>b. (\<exists>a. waits_for s a b) \<and> \<not> (\<exists>c. waits_for s b c)"
    if "waits_for s a0 b0" for a0 b0
  proof -
    define W where "W = {b. \<exists>a. waits_for s a b}"
    have fin: "finite W" and "W \<noteq> {}" using finite_waited [OF inv] that by (auto simp: W_def)
    then have "Max W \<in> W" by (rule Max_in)
    moreover have "\<not> waits_for s (Max W) c" for c
    proof
      assume w: "waits_for s (Max W) c"
      then have "c \<in> W" by (auto simp: W_def)
      from Max_ge [OF fin this] less [OF w] show False by simp
    qed
    ultimately show ?thesis by (auto simp: W_def)
  qed
  ultimately show ?thesis using less by blast
qed

lemma txn_reachable_sample:
  "txn_reachable \<lparr>tbl = \<lparr>entries = [((1, [7]), \<lparr>owner = 5, last_commit_seq = 0,
       waiters = [\<lparr>w_txn = 2, w_cell = 0\<rparr>]\<rparr>)], held = [(5, [(1, [7])])], free_stamped = 0,
       shutdown = None, wake_reason = None, cells = [0]\<rparr>,
     parked = [((1, [7]), \<lparr>w_txn = 2, w_cell = 0\<rparr>)]\<rparr>"
proof -
  let ?t1 = "\<lparr>entries = [((1, [7]), \<lparr>owner = 5, last_commit_seq = 0, waiters = []\<rparr>)],
    held = [(5, [(1, [7])])], free_stamped = 0, shutdown = None, wake_reason = None, cells = []\<rparr>"
  have "acquire_start 5 1 [7] lock_table_new = (?t1, Returned (Inr (Some 0)))"
    by code_simp
  then have 1: "txn_reachable \<lparr>tbl = ?t1, parked = []\<rparr>"
    using txn_reach_step [OF txn_reach_init txn_acquire_return [of 5 txn_init 1 "[7]"]]
    by (simp add: txn_init_def is_parked_def NO_OWNER_def)
  have "acquire_start 2 1 [7] ?t1 = (?t1\<lparr>entries := [((1, [7]), \<lparr>owner = 5, last_commit_seq = 0,
       waiters = [\<lparr>w_txn = 2, w_cell = 0\<rparr>]\<rparr>)], cells := [0]\<rparr>, Parked \<lparr>w_txn = 2, w_cell = 0\<rparr>)"
    by code_simp
  with txn_reach_step [OF 1 txn_acquire_park [of 2 _ 1 "[7]"]] show ?thesis
    by (simp add: is_parked_def NO_OWNER_def)
qed

theorem wait_die_no_deadlock_witness:
  "waits_for \<lparr>tbl = \<lparr>entries = [((1, [7]), \<lparr>owner = 5, last_commit_seq = 0,
       waiters = [\<lparr>w_txn = 2, w_cell = 0\<rparr>]\<rparr>)], held = [(5, [(1, [7])])], free_stamped = 0,
       shutdown = None, wake_reason = None, cells = [0]\<rparr>,
     parked = [((1, [7]), \<lparr>w_txn = 2, w_cell = 0\<rparr>)]\<rparr> 2 5 \<and> (2 :: u64) < 5"
  using wait_die_no_deadlock [OF txn_reachable_sample]
  by (auto simp: waits_for_def queue_def owner_of_def intro!: exI [of _ "(1, [7])"])

text \<open>
  C15. A lock is owned by whoever was told so, and by nobody else: in every reachable state
  no key is on the lists of two owners, a successful \<^const>\<open>acquire_start\<close> leaves the
  requester as the owner, and a parked transaction that is told it was granted the key is its
  owner at that moment; a transaction still parked is either already decided or queued, as
  the older one, behind a transaction that owns the key.
\<close>

theorem lock_grants_exclusive:
  assumes "txn_reachable s"
  shows "(k \<in> set (held_of (tbl s) a) \<and> k \<in> set (held_of (tbl s) b) \<longrightarrow> a = b) \<and>
    (acquire_start txn cf key (tbl s) = (t, Returned (Inr g)) \<longrightarrow> owner_of t (cf, key) = txn) \<and>
    ((k, w) \<in> set (parked s) \<longrightarrow>
      (case acquire_wake k w (tbl s) of
         Some (Inr _) \<Rightarrow> owner_of (tbl s) k = w_txn w
       | Some (Inl _) \<Rightarrow> True
       | None \<Rightarrow> w \<in> set (queue (tbl s) k) \<and> w_txn w < owner_of (tbl s) k))"
proof -
  have inv: "txn_inv s" using txn_reachable_inv [OF assms] .
  then have q: "queue_inv (tbl s) (parked s)" and o: "owner_inv NO_OWNER [] (tbl s)"
    by (simp_all add: txn_inv_def)
  have "a = b" if "k \<in> set (held_of (tbl s) a)" "k \<in> set (held_of (tbl s) b)"
    using o that unfolding owner_inv_def by (metis empty_iff list.set(1))
  moreover have "case acquire_wake k w (tbl s) of
         Some (Inr _) \<Rightarrow> owner_of (tbl s) k = w_txn w
       | Some (Inl _) \<Rightarrow> True
       | None \<Rightarrow> w \<in> set (queue (tbl s) k) \<and> w_txn w < owner_of (tbl s) k" if p: "(k, w) \<in> set (parked s)"
  proof -
    note pk = queue_inv_parked [OF q p]
    have "cells (tbl s) ! w_cell w \<in> waiter_states" by (rule pk(5))
    then show ?thesis
      using pk queue_inv_queued(1) [OF q, of w k]
      by (auto simp: acquire_wake_def waiter_states_def waiter_state_defs Let_def)
  qed
  ultimately show ?thesis using acquire_grant by blast
qed

theorem lock_grants_exclusive_witness:
  "acquire_wake (1, [7]) \<lparr>w_txn = 2, w_cell = 0\<rparr> \<lparr>entries = [((1, [7]), \<lparr>owner = 5, last_commit_seq = 0,
       waiters = [\<lparr>w_txn = 2, w_cell = 0\<rparr>]\<rparr>)], held = [(5, [(1, [7])])], free_stamped = 0,
       shutdown = None, wake_reason = None, cells = [0]\<rparr> = None \<and> (2 :: u64) < 5"
  using lock_grants_exclusive [OF txn_reachable_sample, of "(1, [7])" _ _ _ _ _ _ _ "\<lparr>w_txn = 2, w_cell = 0\<rparr>"]
  by (simp add: acquire_wake_def waiter_state_defs owner_of_def)

text \<open>
  C21. Release is complete, panic-free and in order: a transaction that is not itself
  waiting can always release, whatever it committed and whatever is visible; afterwards it
  owns nothing, every key it owned belongs to the first transaction queued for it (or to
  nobody if none was), and the keys of all others are untouched.
\<close>

theorem release_all_complete:
  assumes "txn_reachable s" and "txn \<noteq> NO_OWNER" and "\<not> is_parked s txn"
  shows "\<exists>t. release_all txn committed_at visible_seq (tbl s) = Inr t \<and>
    held_of t txn = [] \<and>
    (\<forall>k. owner_of t k = (if owner_of (tbl s) k = txn then next_owner (queue (tbl s) k)
                          else owner_of (tbl s) k) \<and> owner_of t k \<noteq> txn)"
  using release_all_inv [OF txn_reachable_inv [OF assms(1)] assms(2,3), of committed_at visible_seq]
  by (metis (no_types, lifting))

theorem release_all_complete_witness:
  "\<exists>t. release_all 5 (Some 9) 3 \<lparr>entries = [((1, [7]), \<lparr>owner = 5, last_commit_seq = 0,
       waiters = [\<lparr>w_txn = 2, w_cell = 0\<rparr>]\<rparr>)], held = [(5, [(1, [7])])], free_stamped = 0,
       shutdown = None, wake_reason = None, cells = [0]\<rparr> = Inr t \<and> held_of t 5 = []"
  using release_all_complete [OF txn_reachable_sample, of 5 "Some 9" 3]
  by (auto simp: NO_OWNER_def is_parked_def)

end
