(* ===== verification/Range_Tombstone.thy ===== *)
theory Range_Tombstone
  imports Key_Comparator Encoding
begin

text \<open>
  Range tombstones, \<open>src/src/range_tombstone.rs\<close>: the in-memory set of live spans beside a
  memtable, fragmentation into disjoint intervals with their stacks of sequence numbers,
  the codec of the table section that stores fragments, the point lookup by binary search
  and the scan cursor.

  \<open>rt_set\<close> is \<open>RangeTombstoneSet\<close> with its locked part; the registry that accounts the memory
  of cached fragment lists is not modelled. An index out of range is a panic.

  The specification is \<open>max_covering\<close>: the greatest sequence at or below the read sequence
  among the spans that contain a key. The lemmas show that the set's lookup, the binary
  search over fragments and the scan cursor all compute it, that fragments are disjoint,
  sorted and merged without changing any lookup, that fragmenting is idempotent through
  \<open>spans_of_fragments\<close>, and that the section codec round-trips and rejects the rest.
\<close>

section \<open>Spans and fragments\<close>

record span =
  sp_start :: bytes
  sp_end :: bytes
  sp_seq :: u64

record fragment =
  fr_start :: bytes
  fr_end :: bytes
  fr_seqs :: "u64 list"

definition fr_max_seq :: "fragment \<Rightarrow> u64" where
  "fr_max_seq f = (case fr_seqs f of [] \<Rightarrow> 0 | s # _ \<Rightarrow> s)"

definition fr_min_seq :: "fragment \<Rightarrow> u64" where
  "fr_min_seq f = (if fr_seqs f = [] then 0 else last (fr_seqs f))"

definition visible_seq :: "u64 list \<Rightarrow> u64 \<Rightarrow> u64 option" where
  "visible_seq seqs read_seq = find (\<lambda>s. s \<le> read_seq) seqs"

definition clip_low :: "(bytes \<Rightarrow> bytes \<Rightarrow> ordering) \<Rightarrow> bytes option \<Rightarrow> bytes \<Rightarrow> bytes" where
  "clip_low cmp lower k = (case lower of
     Some l \<Rightarrow> if is_lt (cmp k l) then l else k
   | None \<Rightarrow> k)"

definition clip_high :: "(bytes \<Rightarrow> bytes \<Rightarrow> ordering) \<Rightarrow> bytes option \<Rightarrow> bytes \<Rightarrow> bytes" where
  "clip_high cmp upper k = (case upper of
     Some u \<Rightarrow> if is_gt (cmp k u) then u else k
   | None \<Rightarrow> k)"

fun span_bounds ::
  "(bytes \<Rightarrow> bytes \<Rightarrow> ordering) \<Rightarrow> bytes option \<Rightarrow> bytes option \<Rightarrow> span list \<Rightarrow> bytes list" where
  "span_bounds cmp lower upper [] = []"
| "span_bounds cmp lower upper (s # ss) =
     (let a = clip_low cmp lower (sp_start s); b = clip_high cmp upper (sp_end s)
      in if is_ge (cmp a b) then span_bounds cmp lower upper ss
         else a # b # span_bounds cmp lower upper ss)"

text \<open>The covering sequences of one elementary interval, newest first.\<close>

definition covering_stack ::
  "(bytes \<Rightarrow> bytes \<Rightarrow> ordering) \<Rightarrow> span list \<Rightarrow> bytes \<Rightarrow> bytes \<Rightarrow> u64 list" where
  "covering_stack cmp spans a b =
     dedup_by (\<lambda>x y. x = y) (sort_by (\<lambda>x y. ord_cmp y x)
       (map sp_seq (filter (\<lambda>s. is_le (cmp (sp_start s) a) \<and> is_ge (cmp (sp_end s) b)) spans)))"

text \<open>
  One round of the loop: no covering sequence adds nothing, and an interval with the same
  sequences as the fragment that ends where it starts extends that fragment.
\<close>

definition push_fragment ::
  "(bytes \<Rightarrow> bytes \<Rightarrow> ordering) \<Rightarrow> fragment list \<Rightarrow> bytes \<Rightarrow> bytes \<Rightarrow> u64 list \<Rightarrow> fragment list" where
  "push_fragment cmp out a b seqs =
     (if seqs = [] then out
      else if out \<noteq> [] \<and> fr_seqs (last out) = seqs \<and> is_eq (cmp (fr_end (last out)) a)
      then butlast out @ [(last out)\<lparr>fr_end := b\<rparr>]
      else out @ [\<lparr>fr_start = a, fr_end = b, fr_seqs = seqs\<rparr>])"

fun fragment_loop ::
  "(bytes \<Rightarrow> bytes \<Rightarrow> ordering) \<Rightarrow> span list \<Rightarrow> fragment list \<Rightarrow> (bytes \<times> bytes) list \<Rightarrow> fragment list" where
  "fragment_loop cmp spans out [] = out"
| "fragment_loop cmp spans out ((a, b) # pairs) =
     fragment_loop cmp spans (push_fragment cmp out a b (covering_stack cmp spans a b)) pairs"

definition fragment_spans ::
  "(bytes \<Rightarrow> bytes \<Rightarrow> ordering) \<Rightarrow> span list \<Rightarrow> bytes option \<Rightarrow> bytes option \<Rightarrow> fragment list" where
  "fragment_spans cmp spans lower upper =
     (let bounds = span_bounds cmp lower upper spans in
      if bounds = [] then []
      else
        let bounds = sort_by cmp bounds;
            bounds = dedup_by (\<lambda>a b. is_eq (cmp a b)) bounds
        in fragment_loop cmp spans [] (windows2 bounds))"

definition spans_of_fragments :: "fragment list \<Rightarrow> span list" where
  "spans_of_fragments frags = concat (map (\<lambda>f. map (\<lambda>seq.
     \<lparr>sp_start = fr_start f, sp_end = fr_end f, sp_seq = seq\<rparr>) (fr_seqs f)) frags)"

record range_summary =
  rsum_count :: u64
  rsum_min_seq :: u64
  rsum_max_seq :: u64
  rsum_min_key :: "bytes option"
  rsum_max_key :: "bytes option"

definition summarize :: "fragment list \<Rightarrow> range_summary" where
  "summarize frags =
     \<lparr>rsum_count = of_nat (length frags),
      rsum_min_seq = (case map fr_min_seq frags of [] \<Rightarrow> 0 | x # xs \<Rightarrow> foldl min x xs),
      rsum_max_seq = (case map fr_max_seq frags of [] \<Rightarrow> 0 | x # xs \<Rightarrow> foldl max x xs),
      rsum_min_key = (if frags = [] then None else Some (fr_start (hd frags))),
      rsum_max_key = (if frags = [] then None else Some (fr_end (last frags)))\<rparr>"

section \<open>The live set\<close>

record rt_set =
  rt_spans :: "span list"
  rt_cache :: "fragment list option"
  rt_retired :: bool
  rt_builds :: u64
  rt_prefix_max_end :: "bytes list"
  rt_len :: nat
  rt_hits :: nat

definition rt_new :: rt_set where
  "rt_new = \<lparr>rt_spans = [], rt_cache = None, rt_retired = False, rt_builds = 0,
     rt_prefix_max_end = [], rt_len = 0, rt_hits = 0\<rparr>"

definition rt_is_empty :: "rt_set \<Rightarrow> bool" where
  "rt_is_empty r \<longleftrightarrow> rt_len r = 0"

fun running_max ::
  "(bytes \<Rightarrow> bytes \<Rightarrow> ordering) \<Rightarrow> bytes option \<Rightarrow> bytes list \<Rightarrow> bytes list" where
  "running_max cmp running [] = []"
| "running_max cmp running (e # es) =
     (let m = (case running of
        Some m \<Rightarrow> if is_ge (cmp m e) then m else e
      | None \<Rightarrow> e)
      in m # running_max cmp (Some m) es)"

definition rt_add :: "(bytes \<Rightarrow> bytes \<Rightarrow> ordering) \<Rightarrow> bytes \<Rightarrow> bytes \<Rightarrow> u64 \<Rightarrow> rt_set \<Rightarrow> rt_set" where
  "rt_add cmp start end' seq r =
     (let at = partition_point (\<lambda>s. is_le (cmp (sp_start s) start)) (rt_spans r);
          spans = take at (rt_spans r) @ [\<lparr>sp_start = start, sp_end = end', sp_seq = seq\<rparr>]
                    @ drop at (rt_spans r);
          kept = take at (rt_prefix_max_end r);
          running = (if kept = [] then None else Some (last kept))
      in r\<lparr>rt_cache := None, rt_spans := spans,
           rt_prefix_max_end := kept @ running_max cmp running (map sp_end (drop at spans)),
           rt_len := rt_len r + 1\<rparr>)"

fun rt_scan ::
  "(bytes \<Rightarrow> bytes \<Rightarrow> ordering) \<Rightarrow> rt_set \<Rightarrow> bytes \<Rightarrow> u64 \<Rightarrow> nat \<Rightarrow> u64 option \<Rightarrow> u64 option result" where
  "rt_scan cmp r key read_seq 0 best = Inr best"
| "rt_scan cmp r key read_seq (Suc i) best =
     (if length (rt_prefix_max_end r) \<le> i \<or> length (rt_spans r) \<le> i then Inl Panic
      else if is_le (cmp (rt_prefix_max_end r ! i) key) then Inr best
      else
        let s = rt_spans r ! i;
            best = (if sp_seq s \<le> read_seq \<and> is_gt (cmp (sp_end s) key)
                    then Some (case best of None \<Rightarrow> sp_seq s | Some b \<Rightarrow> max b (sp_seq s))
                    else best)
        in rt_scan cmp r key read_seq i best)"

definition rt_covering_seq ::
  "(bytes \<Rightarrow> bytes \<Rightarrow> ordering) \<Rightarrow> bytes \<Rightarrow> u64 \<Rightarrow> rt_set \<Rightarrow> u64 option result" where
  "rt_covering_seq cmp key read_seq r =
     (if rt_is_empty r then Inr None
      else rt_scan cmp r key read_seq
        (partition_point (\<lambda>s. is_le (cmp (sp_start s) key)) (rt_spans r)) None)"

definition rt_fragments ::
  "(bytes \<Rightarrow> bytes \<Rightarrow> ordering) \<Rightarrow> bytes option \<Rightarrow> bytes option \<Rightarrow> rt_set \<Rightarrow> fragment list" where
  "rt_fragments cmp lower upper r =
     (if rt_is_empty r then [] else fragment_spans cmp (rt_spans r) lower upper)"

definition rt_retire :: "rt_set \<Rightarrow> rt_set" where
  "rt_retire r = r\<lparr>rt_retired := True, rt_cache := None\<rparr>"

definition rt_fragment_snapshot ::
  "(bytes \<Rightarrow> bytes \<Rightarrow> ordering) \<Rightarrow> rt_set \<Rightarrow> rt_set \<times> fragment list" where
  "rt_fragment_snapshot cmp r = (case rt_cache r of
     Some snapshot \<Rightarrow> (r\<lparr>rt_hits := rt_hits r + 1\<rparr>, snapshot)
   | None \<Rightarrow>
       let snapshot = fragment_spans cmp (rt_spans r) None None
       in (r\<lparr>rt_builds := rt_builds r + 1, rt_cache := Some snapshot\<rparr>, snapshot))"

section \<open>The section codec\<close>

definition encode_fragment :: "bytes \<Rightarrow> fragment \<Rightarrow> bytes" where
  "encode_fragment b f =
     (let b = append_uvarint b (of_nat (length (fr_start f)));
          b = b @ fr_start f;
          b = append_uvarint b (of_nat (length (fr_end f)));
          b = b @ fr_end f;
          b = append_uvarint b (of_nat (length (fr_seqs f)))
      in foldl append_uvarint b (fr_seqs f))"

definition encode_fragments :: "fragment list \<Rightarrow> bytes" where
  "encode_fragments frags =
     foldl encode_fragment (append_uvarint [] (of_nat (length frags))) frags"

definition bad_fragments :: onda_error where
  "bad_fragments = Corruption ''sst: malformed range-fragment section''"

definition take_bytes :: "bytes \<Rightarrow> (bytes \<times> bytes) result" where
  "take_bytes p = rbind (ok_or (uvarint p) bad_fragments) (\<lambda>(n, used).
     let p = drop used p; n = unat n in
     if length p < n then Inl bad_fragments else Inr (take n p, drop n p))"

fun decode_seqs :: "nat \<Rightarrow> bytes \<Rightarrow> (u64 list \<times> bytes) result" where
  "decode_seqs 0 p = Inr ([], p)"
| "decode_seqs (Suc n) p = rbind (ok_or (uvarint p) bad_fragments) (\<lambda>(s, used).
     rbind (decode_seqs n (drop used p)) (\<lambda>(ss, p). Inr (s # ss, p)))"

fun decode_fragment_loop :: "nat \<Rightarrow> bytes \<Rightarrow> (fragment list \<times> bytes) result" where
  "decode_fragment_loop 0 p = Inr ([], p)"
| "decode_fragment_loop (Suc n) p =
     rbind (take_bytes p) (\<lambda>(start, p).
     rbind (take_bytes p) (\<lambda>(end', p).
     rbind (ok_or (uvarint p) bad_fragments) (\<lambda>(nseq, used).
       let p = drop used p in
       if nseq = 0 then Inl bad_fragments
       else rbind (decode_seqs (unat nseq) p) (\<lambda>(seqs, p).
         if list_ex (\<lambda>(x, y). x \<le> y) (windows2 seqs) then Inl bad_fragments
         else rbind (decode_fragment_loop n p) (\<lambda>(fs, p).
           Inr (\<lparr>fr_start = start, fr_end = end', fr_seqs = seqs\<rparr> # fs, p))))))"

definition decode_fragments :: "bytes \<Rightarrow> fragment list result" where
  "decode_fragments p = rbind (ok_or (uvarint p) bad_fragments) (\<lambda>(count, used).
     rbind (decode_fragment_loop (unat count) (drop used p)) (\<lambda>(out, p).
       if p \<noteq> [] then Inl bad_fragments else Inr out))"

section \<open>Lookups\<close>

definition covering_seq_in ::
  "(bytes \<Rightarrow> bytes \<Rightarrow> ordering) \<Rightarrow> fragment list \<Rightarrow> bytes \<Rightarrow> u64 \<Rightarrow> u64 option" where
  "covering_seq_in cmp frags key read_seq =
     (if frags = [] then None
      else
        let i = partition_point (\<lambda>f. is_le (cmp (fr_end f) key)) frags in
        if length frags \<le> i then None
        else
          let f = frags ! i in
          if is_gt (cmp (fr_start f) key) then None
          else visible_seq (fr_seqs f) read_seq)"

record frag_cursor =
  fc_frags :: "fragment list"
  fc_idx :: nat
  fc_start :: nat
  fc_stop :: nat
  fc_prefix :: "bytes option"

text \<open>\<open>bound[..8]\<close> panics on a bound shorter than the prefix of a unified source.\<close>

definition fc_compare ::
  "(bytes \<Rightarrow> bytes \<Rightarrow> ordering) \<Rightarrow> frag_cursor \<Rightarrow> bytes \<Rightarrow> bytes \<Rightarrow> ordering result" where
  "fc_compare cmp c bound key = (case fc_prefix c of
     Some prefix \<Rightarrow>
       if length bound < 8 then Inl Panic
       else Inr (then_with (slice_cmp (take 8 bound) prefix) (cmp (drop 8 bound) key))
   | None \<Rightarrow> Inr (cmp bound key))"

text \<open>The two walks of the cursor; \<open>fuel\<close> is the distance to the end of the window.\<close>

fun fc_forward ::
  "(bytes \<Rightarrow> bytes \<Rightarrow> ordering) \<Rightarrow> bytes \<Rightarrow> nat \<Rightarrow> frag_cursor \<Rightarrow> frag_cursor result" where
  "fc_forward cmp key 0 c = Inr c"
| "fc_forward cmp key (Suc n) c =
     (if fc_idx c < fc_stop c then
        if length (fc_frags c) \<le> fc_idx c then Inl Panic
        else rbind (fc_compare cmp c (fr_end (fc_frags c ! fc_idx c)) key) (\<lambda>o'.
          if is_le o' then fc_forward cmp key n (c\<lparr>fc_idx := fc_idx c + 1\<rparr>) else Inr c)
      else Inr c)"

fun fc_backward ::
  "(bytes \<Rightarrow> bytes \<Rightarrow> ordering) \<Rightarrow> bytes \<Rightarrow> nat \<Rightarrow> frag_cursor \<Rightarrow> frag_cursor result" where
  "fc_backward cmp key 0 c = Inr c"
| "fc_backward cmp key (Suc n) c =
     (if fc_idx c > fc_start c then
        if length (fc_frags c) \<le> fc_idx c - 1 then Inl Panic
        else rbind (fc_compare cmp c (fr_end (fc_frags c ! (fc_idx c - 1))) key) (\<lambda>o'.
          if is_gt o' then fc_backward cmp key n (c\<lparr>fc_idx := fc_idx c - 1\<rparr>) else Inr c)
      else Inr c)"

definition fc_covering_seq ::
  "(bytes \<Rightarrow> bytes \<Rightarrow> ordering) \<Rightarrow> bytes \<Rightarrow> u64 \<Rightarrow> frag_cursor \<Rightarrow> (frag_cursor \<times> u64 option) result" where
  "fc_covering_seq cmp key read_seq c =
     rbind (fc_forward cmp key (fc_stop c - fc_idx c) c) (\<lambda>c.
     rbind (fc_backward cmp key (fc_idx c - fc_start c) c) (\<lambda>c.
       if fc_idx c = fc_stop c then Inr (c, None)
       else if length (fc_frags c) \<le> fc_idx c then Inl Panic
       else
         let f = fc_frags c ! fc_idx c in
         rbind (fc_compare cmp c (fr_start f) key) (\<lambda>o'.
           if is_gt o' then Inr (c, None)
           else Inr (c, visible_seq (fr_seqs f) read_seq))))"

definition push_snapshot ::
  "(bytes \<Rightarrow> bytes \<Rightarrow> ordering) \<Rightarrow> fragment list \<Rightarrow> bytes option \<Rightarrow> bytes option \<Rightarrow> bytes option
     \<Rightarrow> frag_cursor list \<Rightarrow> frag_cursor list" where
  "push_snapshot cmp frags lower upper prefix sources =
     (let start = (case lower of None \<Rightarrow> 0
            | Some k \<Rightarrow> partition_point (\<lambda>f. is_le (cmp (fr_end f) k)) frags);
          stop = (case upper of None \<Rightarrow> length frags
            | Some k \<Rightarrow> partition_point (\<lambda>f. is_lt (cmp (fr_start f) k)) frags)
      in if start < stop
         then sources @ [\<lparr>fc_frags = frags, fc_idx = start, fc_start = start, fc_stop = stop,
                fc_prefix = prefix\<rparr>]
         else sources)"

fun mask_loop ::
  "(bytes \<Rightarrow> bytes \<Rightarrow> ordering) \<Rightarrow> bytes \<Rightarrow> u64 \<Rightarrow> frag_cursor list \<Rightarrow> u64 option
     \<Rightarrow> (frag_cursor list \<times> u64 option) result" where
  "mask_loop cmp key read_seq [] best = Inr ([], best)"
| "mask_loop cmp key read_seq (src # srcs) best =
     rbind (fc_covering_seq cmp key read_seq src) (\<lambda>(src, s).
       let best = (case s of None \<Rightarrow> best
            | Some s \<Rightarrow> Some (case best of None \<Rightarrow> s | Some b \<Rightarrow> max b s))
       in rbind (mask_loop cmp key read_seq srcs best) (\<lambda>(srcs, best). Inr (src # srcs, best)))"

definition mask_covering_seq ::
  "(bytes \<Rightarrow> bytes \<Rightarrow> ordering) \<Rightarrow> bytes \<Rightarrow> u64 \<Rightarrow> frag_cursor list
     \<Rightarrow> (frag_cursor list \<times> u64 option) result" where
  "mask_covering_seq cmp key read_seq sources =
     (if sources = [] then Inr ([], None) else mask_loop cmp key read_seq sources None)"

section \<open>Specification\<close>

definition span_covers :: "(bytes \<Rightarrow> bytes \<Rightarrow> ordering) \<Rightarrow> span \<Rightarrow> bytes \<Rightarrow> bool" where
  "span_covers cmp s key \<longleftrightarrow> is_le (cmp (sp_start s) key) \<and> is_lt (cmp key (sp_end s))"

definition max_opt :: "u64 list \<Rightarrow> u64 option" where
  "max_opt xs = (if xs = [] then None else Some (Max (set xs)))"

definition max_covering :: "(bytes \<Rightarrow> bytes \<Rightarrow> ordering) \<Rightarrow> span list \<Rightarrow> bytes \<Rightarrow> u64 \<Rightarrow> u64 option" where
  "max_covering cmp spans key read_seq =
     max_opt (map sp_seq (filter (\<lambda>s. span_covers cmp s key \<and> sp_seq s \<le> read_seq) spans))"

definition in_bounds :: "(bytes \<Rightarrow> bytes \<Rightarrow> ordering) \<Rightarrow> bytes option \<Rightarrow> bytes option \<Rightarrow> bytes \<Rightarrow> bool" where
  "in_bounds cmp lower upper k \<longleftrightarrow>
     (case lower of None \<Rightarrow> True | Some l \<Rightarrow> is_le (cmp l k)) \<and>
     (case upper of None \<Rightarrow> True | Some u \<Rightarrow> is_lt (cmp k u))"

fun opt_max :: "u64 option \<Rightarrow> u64 option \<Rightarrow> u64 option" where
  "opt_max None b = b"
| "opt_max (Some a) None = Some a"
| "opt_max (Some a) (Some b) = Some (max a b)"

section \<open>Stacks of sequence numbers\<close>

lemma max_opt_cong: "set xs = set ys \<Longrightarrow> max_opt xs = max_opt ys"
  by (metis max_opt_def set_empty)

lemma max_opt_Cons: "max_opt (x # xs) = Some (case max_opt xs of None \<Rightarrow> x | Some m \<Rightarrow> max x m)"
  by (simp add: max_opt_def)

lemma opt_max_None [simp]: "opt_max a None = a"
  by (cases a) simp_all

lemma opt_max_assoc: "opt_max (opt_max a b) c = opt_max a (opt_max b c)"
  by (cases a; cases b; cases c) (simp_all add: max.assoc)

lemma opt_max_commute: "opt_max a b = opt_max b a"
  by (cases a; cases b) (simp_all add: max.commute)

lemma max_opt_append: "max_opt (xs @ ys) = opt_max (max_opt xs) (max_opt ys)"
  by (simp add: max_opt_def Max_Un)

lemma max_opt_single [simp]: "max_opt [x] = Some x" "max_opt [] = None"
  by (simp_all add: max_opt_def)

lemma opt_max_Some: "opt_max (Some x) b = Some (case b of None \<Rightarrow> x | Some y \<Rightarrow> max y x)"
  by (cases b) (simp_all add: max.commute)

lemma visible_seq_max:
  "sorted_wrt (>) xs \<Longrightarrow> visible_seq xs r = max_opt (filter (\<lambda>s. s \<le> r) xs)"
proof (induction xs)
  case (Cons x xs)
  have "Max (insert x {s \<in> set xs. s \<le> r}) = x"
    using Cons.prems by (intro Max_eqI) (auto simp: less_imp_le)
  with Cons show ?case by (auto simp: visible_seq_def max_opt_def)
qed (simp add: visible_seq_def max_opt_def)

lemma desc_order: "key_order (\<lambda>x y :: u64. ord_cmp y x)"
  by (rule key_order_reverse [OF key_order_ord_cmp])

lemma covering_stack_sorted: "sorted_wrt (>) (covering_stack cmp spans a b)"
  and covering_stack_set: "set (covering_stack cmp spans a b) =
    sp_seq ` {s \<in> set spans. is_le (cmp (sp_start s) a) \<and> is_ge (cmp (sp_end s) b)}"
proof -
  let ?d = "\<lambda>x y :: u64. ord_cmp y x"
  have eq: "(\<lambda>x y. x = y) = (\<lambda>x y. is_eq (?d x y))"
    by (auto simp: fun_eq_iff ord_cmp_def is_eq_def)
  have lt: "(\<lambda>x y. is_lt (?d x y)) = (>)"
    by (auto simp: fun_eq_iff ord_cmp_def is_lt_def)
  note d = key_order.dedup_sorted [OF desc_order key_order.sorted_sort_by [OF desc_order]]
  show "sorted_wrt (>) (covering_stack cmp spans a b)"
    unfolding covering_stack_def eq using d by (simp add: lt)
  show "set (covering_stack cmp spans a b) =
      sp_seq ` {s \<in> set spans. is_le (cmp (sp_start s) a) \<and> is_ge (cmp (sp_end s) b)}"
    unfolding covering_stack_def eq using d by (auto simp: image_iff)
qed

section \<open>Fragments\<close>

definition frag_covers :: "(bytes \<Rightarrow> bytes \<Rightarrow> ordering) \<Rightarrow> bytes \<Rightarrow> fragment \<Rightarrow> bool" where
  "frag_covers cmp key f \<longleftrightarrow> is_le (cmp (fr_start f) key) \<and> is_lt (cmp key (fr_end f))"

definition frag_stack :: "(bytes \<Rightarrow> bytes \<Rightarrow> ordering) \<Rightarrow> fragment list \<Rightarrow> bytes \<Rightarrow> u64 list" where
  "frag_stack cmp frags key = (case find (frag_covers cmp key) frags of None \<Rightarrow> [] | Some f \<Rightarrow> fr_seqs f)"

definition frag_wf :: "(bytes \<Rightarrow> bytes \<Rightarrow> ordering) \<Rightarrow> fragment \<Rightarrow> bool" where
  "frag_wf cmp f \<longleftrightarrow> is_lt (cmp (fr_start f) (fr_end f)) \<and> fr_seqs f \<noteq> [] \<and> sorted_wrt (>) (fr_seqs f)"

text \<open>Sorted, disjoint, non-empty fragments with strictly descending stacks.\<close>

definition frags_wf :: "(bytes \<Rightarrow> bytes \<Rightarrow> ordering) \<Rightarrow> fragment list \<Rightarrow> bool" where
  "frags_wf cmp fs \<longleftrightarrow> (\<forall>f\<in>set fs. frag_wf cmp f) \<and>
     sorted_wrt (\<lambda>f g. is_le (cmp (fr_end f) (fr_start g))) fs"

lemma frag_stack_simps [simp]:
  "frag_stack cmp [] key = []"
  "frag_stack cmp (f # fs) key = (if frag_covers cmp key f then fr_seqs f else frag_stack cmp fs key)"
  by (simp_all add: frag_stack_def)

lemma frag_stack_none: "\<forall>g\<in>set fs. \<not> frag_covers cmp key g \<Longrightarrow> frag_stack cmp fs key = []"
  by (induction fs) auto

lemma frag_stack_append:
  "\<forall>f\<in>set fs. fr_seqs f \<noteq> [] \<Longrightarrow> frag_stack cmp (fs @ gs) key =
     (if frag_stack cmp fs key = [] then frag_stack cmp gs key else frag_stack cmp fs key)"
  by (induction fs) auto

definition pair_stack ::
  "(bytes \<Rightarrow> bytes \<Rightarrow> ordering) \<Rightarrow> span list \<Rightarrow> (bytes \<times> bytes) list \<Rightarrow> bytes \<Rightarrow> u64 list" where
  "pair_stack cmp spans pairs key =
     (case find (\<lambda>(a, b). is_le (cmp a key) \<and> is_lt (cmp key b)) pairs of
        None \<Rightarrow> [] | Some (a, b) \<Rightarrow> covering_stack cmp spans a b)"

lemma pair_stack_simps [simp]:
  "pair_stack cmp spans [] key = []"
  "pair_stack cmp spans ((a, b) # ps) key = (if is_le (cmp a key) \<and> is_lt (cmp key b)
     then covering_stack cmp spans a b else pair_stack cmp spans ps key)"
  by (simp_all add: pair_stack_def)

text \<open>The live set: spans sorted by start, beside the running maximum of their ends.\<close>

definition max_ends :: "(bytes \<Rightarrow> bytes \<Rightarrow> ordering) \<Rightarrow> bytes list \<Rightarrow> bytes list \<Rightarrow> bool" where
  "max_ends cmp ends ms \<longleftrightarrow> length ms = length ends \<and>
     (\<forall>i<length ends. ms ! i \<in> set (take (Suc i) ends) \<and> (\<forall>e\<in>set (take (Suc i) ends). is_le (cmp e (ms ! i))))"

definition rt_inv :: "(bytes \<Rightarrow> bytes \<Rightarrow> ordering) \<Rightarrow> rt_set \<Rightarrow> bool" where
  "rt_inv cmp r \<longleftrightarrow> sorted_wrt (\<lambda>s t. is_le (cmp (sp_start s) (sp_start t))) (rt_spans r) \<and>
     max_ends cmp (map sp_end (rt_spans r)) (rt_prefix_max_end r) \<and> rt_len r = length (rt_spans r) \<and>
     (\<forall>fs. rt_cache r = Some fs \<longrightarrow> fs = fragment_spans cmp (rt_spans r) None None)"

text \<open>The set that a sequence of range deletes builds.\<close>

definition rt_build :: "(bytes \<Rightarrow> bytes \<Rightarrow> ordering) \<Rightarrow> span list \<Rightarrow> rt_set" where
  "rt_build cmp adds = foldl (\<lambda>r s. rt_add cmp (sp_start s) (sp_end s) (sp_seq s) r) rt_new adds"

text \<open>The window that a snapshot pushed with bounds gets, and the states its cursor reaches.\<close>

definition window_start :: "(bytes \<Rightarrow> bytes \<Rightarrow> ordering) \<Rightarrow> fragment list \<Rightarrow> bytes option \<Rightarrow> nat" where
  "window_start cmp frags lower = (case lower of None \<Rightarrow> 0
     | Some k \<Rightarrow> partition_point (\<lambda>f. is_le (cmp (fr_end f) k)) frags)"

definition window_stop :: "(bytes \<Rightarrow> bytes \<Rightarrow> ordering) \<Rightarrow> fragment list \<Rightarrow> bytes option \<Rightarrow> nat" where
  "window_stop cmp frags upper = (case upper of None \<Rightarrow> length frags
     | Some k \<Rightarrow> partition_point (\<lambda>f. is_lt (cmp (fr_start f) k)) frags)"

definition cursor_ok ::
  "(bytes \<Rightarrow> bytes \<Rightarrow> ordering) \<Rightarrow> bytes option \<Rightarrow> bytes option \<Rightarrow> frag_cursor \<Rightarrow> bool" where
  "cursor_ok cmp lower upper c \<longleftrightarrow> fc_prefix c = None \<and>
     fc_start c = window_start cmp (fc_frags c) lower \<and> fc_stop c = window_stop cmp (fc_frags c) upper \<and>
     fc_start c \<le> fc_idx c \<and> fc_idx c \<le> fc_stop c"

definition fc_window :: "frag_cursor \<Rightarrow> fragment list" where
  "fc_window c = take (fc_stop c - fc_start c) (drop (fc_start c) (fc_frags c))"

text \<open>Consecutive, non-empty intervals.\<close>

definition pairs_wf :: "(bytes \<Rightarrow> bytes \<Rightarrow> ordering) \<Rightarrow> (bytes \<times> bytes) list \<Rightarrow> bool" where
  "pairs_wf cmp ps \<longleftrightarrow> (\<forall>(a, b)\<in>set ps. is_lt (cmp a b)) \<and>
     sorted_wrt (\<lambda>p q. is_le (cmp (snd p) (fst q))) ps"

context user_key_order
begin

lemma frag_stack_ended:
  assumes "frags_wf cmp fs" and "\<forall>f\<in>set fs. is_le (cmp (fr_end f) a)" and "is_le (cmp a key)"
  shows "frag_stack cmp fs key = []"
  using assms(2)
proof (induction fs)
  case (Cons f fs)
  have "\<not> frag_covers cmp key f"
    using Cons.prems assms(3) by (auto simp: frag_covers_def key.not_less intro: key.order_trans)
  with Cons show ?case by simp
qed simp

lemma frags_wf_snoc:
  "frags_wf cmp (fs @ [f]) \<longleftrightarrow> frags_wf cmp fs \<and> frag_wf cmp f \<and>
     (\<forall>g\<in>set fs. is_le (cmp (fr_end g) (fr_start f)))"
  by (auto simp: frags_wf_def sorted_wrt_append)

lemma pair_stack_before:
  "\<forall>q\<in>set ps. is_le (cmp b (fst q)) \<Longrightarrow> is_lt (cmp key b) \<Longrightarrow> pair_stack cmp spans ps key = []"
proof (induction ps)
  case (Cons q ps)
  have "\<not> is_le (cmp (fst q) key)"
    using Cons.prems by (auto simp: key.not_le intro: key.less_le_trans)
  with Cons show ?case by (cases q) auto
qed simp

lemma frags_merge_last:
  assumes wf: "frags_wf cmp (fs @ [g])" and ab: "is_lt (cmp (fr_end g) b)"
  shows "frags_wf cmp (fs @ [g\<lparr>fr_end := b\<rparr>]) \<and>
    (\<forall>f\<in>set (fs @ [g\<lparr>fr_end := b\<rparr>]). is_le (cmp (fr_end f) b)) \<and>
    frag_stack cmp (fs @ [g\<lparr>fr_end := b\<rparr>]) key =
      (if frag_stack cmp (fs @ [g]) key = []
       then (if is_le (cmp (fr_end g) key) \<and> is_lt (cmp key b) then fr_seqs g else [])
       else frag_stack cmp (fs @ [g]) key)"
proof -
  from wf have g: "is_lt (cmp (fr_start g) (fr_end g))" "fr_seqs g \<noteq> []" "sorted_wrt (>) (fr_seqs g)"
    and fs: "frags_wf cmp fs" "\<forall>f\<in>set fs. is_le (cmp (fr_end f) (fr_start g))"
    by (auto simp: frags_wf_snoc frag_wf_def)
  have "frag_wf cmp (g\<lparr>fr_end := b\<rparr>)"
    using g ab by (auto simp: frag_wf_def intro: key.less_trans)
  moreover have "\<forall>f\<in>set fs. is_le (cmp (fr_end f) b)"
    using fs(2) g(1) ab by (meson key.le_less_trans key.less_imp_le key.less_trans)
  moreover have "frag_covers cmp key (g\<lparr>fr_end := b\<rparr>) \<longleftrightarrow>
      frag_covers cmp key g \<or> is_le (cmp (fr_end g) key) \<and> is_lt (cmp key b)"
    using g(1) ab unfolding frag_covers_def
    by (auto simp: key.not_le intro: key.less_trans key.less_imp_le key.le_less_trans key.less_le_trans)
  moreover have "\<forall>f\<in>set fs. fr_seqs f \<noteq> []"
    using fs(1) by (auto simp: frags_wf_def frag_wf_def)
  ultimately show ?thesis
    using fs g by (auto simp: frags_wf_snoc frag_stack_append)
qed

lemma frags_push:
  assumes wf: "frags_wf cmp fs" and le: "\<forall>f\<in>set fs. is_le (cmp (fr_end f) a)"
    and ab: "is_lt (cmp a b)" and seqs: "seqs \<noteq> []" "sorted_wrt (>) seqs"
  defines "g \<equiv> \<lparr>fr_start = a, fr_end = b, fr_seqs = seqs\<rparr>"
  shows "frags_wf cmp (fs @ [g]) \<and> (\<forall>f\<in>set (fs @ [g]). is_le (cmp (fr_end f) b)) \<and>
    frag_stack cmp (fs @ [g]) key =
      (if frag_stack cmp fs key = []
       then (if is_le (cmp a key) \<and> is_lt (cmp key b) then seqs else [])
       else frag_stack cmp fs key)"
proof -
  have "\<forall>f\<in>set fs. is_le (cmp (fr_end f) b)"
    using le ab by (meson key.le_less_trans key.less_imp_le)
  moreover have "\<forall>f\<in>set fs. fr_seqs f \<noteq> []"
    using wf by (auto simp: frags_wf_def frag_wf_def)
  ultimately show ?thesis
    using assms by (auto simp: frags_wf_snoc frag_stack_append frag_wf_def frag_covers_def)
qed

lemma fragment_loop_correct:
  assumes "frags_wf cmp out" and "pairs_wf cmp ps"
    and "\<forall>f\<in>set out. \<forall>p\<in>set ps. is_le (cmp (fr_end f) (fst p))"
  shows "frags_wf cmp (fragment_loop cmp spans out ps) \<and>
    frag_stack cmp (fragment_loop cmp spans out ps) key =
      (if frag_stack cmp out key = [] then pair_stack cmp spans ps key else frag_stack cmp out key)"
  using assms
proof (induction ps arbitrary: out)
  case (Cons p ps)
  obtain a b where p: "p = (a, b)" by (cases p)
  let ?seqs = "covering_stack cmp spans a b"
  have ab: "is_lt (cmp a b)" and ps: "pairs_wf cmp ps" and nxt: "\<forall>q\<in>set ps. is_le (cmp b (fst q))"
    using Cons.prems(2) by (auto simp: pairs_wf_def p)
  have out_le: "\<forall>f\<in>set out. is_le (cmp (fr_end f) a)" using Cons.prems(3) p by auto
  have out_ne: "\<forall>f\<in>set out. fr_seqs f \<noteq> []"
    using Cons.prems(1) by (auto simp: frags_wf_def frag_wf_def)
  show ?case
  proof (cases "?seqs = []")
    case True
    with Cons.IH [OF Cons.prems(1) ps] Cons.prems(3)
      frag_stack_ended [OF Cons.prems(1) out_le, of key] pair_stack_before [OF nxt, of key]
    show ?thesis by (auto simp: p push_fragment_def)
  next
    case False
    define out' where "out' = push_fragment cmp out a b ?seqs"
    have step: "fragment_loop cmp spans out (p # ps) = fragment_loop cmp spans out' ps"
      by (simp add: p out'_def)
    have wf': "frags_wf cmp out' \<and> (\<forall>f\<in>set out'. is_le (cmp (fr_end f) b)) \<and>
      frag_stack cmp out' key = (if frag_stack cmp out key = []
        then (if is_le (cmp a key) \<and> is_lt (cmp key b) then ?seqs else []) else frag_stack cmp out key)"
    proof (cases "out \<noteq> [] \<and> fr_seqs (last out) = ?seqs \<and> is_eq (cmp (fr_end (last out)) a)")
      case True
      then have l: "out = butlast out @ [last out]" "fr_end (last out) = a" by (auto simp: is_eq_iff)
      have "out' = butlast out @ [(last out)\<lparr>fr_end := b\<rparr>]"
        unfolding out'_def push_fragment_def if_not_P [OF False] using True by (rule if_P)
      with frags_merge_last [of "butlast out" "last out" b key] Cons.prems(1) True l ab
      show ?thesis by simp
    next
      case no_merge: False
      have "out' = out @ [\<lparr>fr_start = a, fr_end = b, fr_seqs = ?seqs\<rparr>]"
        unfolding out'_def push_fragment_def if_not_P [OF False] using no_merge by (rule if_not_P)
      with frags_push [OF Cons.prems(1) out_le ab False covering_stack_sorted, of key]
      show ?thesis by simp
    qed
    then have "\<forall>f\<in>set out'. \<forall>q\<in>set ps. is_le (cmp (fr_end f) (fst q))"
      using nxt key.order_trans by blast
    with Cons.IH [of out'] ps wf' False show ?thesis unfolding step by (auto simp: p)
  qed
qed simp

lemma set_span_bounds:
  "x \<in> set (span_bounds cmp lower upper spans) \<longleftrightarrow>
     (\<exists>s\<in>set spans. is_lt (cmp (clip_low cmp lower (sp_start s)) (clip_high cmp upper (sp_end s))) \<and>
       (x = clip_low cmp lower (sp_start s) \<or> x = clip_high cmp upper (sp_end s)))"
  by (induction spans) (auto simp: Let_def is_ge_iff key.not_le dest: key.leD)

lemma clip_bounds:
  "is_le (cmp k (clip_low cmp lower k))" "is_le (cmp (clip_high cmp upper k) k)"
  "lower = Some l \<Longrightarrow> is_le (cmp l (clip_low cmp lower k))"
  "upper = Some u \<Longrightarrow> is_le (cmp (clip_high cmp upper k) u)"
  by (auto simp: clip_low_def clip_high_def key_simps key.not_less key.less_imp_le split: option.split)

lemma clip_low_le: "in_bounds cmp lower upper key \<Longrightarrow> is_le (cmp k key) \<Longrightarrow> is_le (cmp (clip_low cmp lower k) key)"
  by (auto simp: clip_low_def in_bounds_def split: option.splits)

lemma clip_high_gt: "in_bounds cmp lower upper key \<Longrightarrow> is_lt (cmp key k) \<Longrightarrow> is_lt (cmp key (clip_high cmp upper k))"
  by (auto simp: clip_high_def in_bounds_def split: option.splits)

lemma span_bounds_in:
  assumes "x \<in> set (span_bounds cmp lower upper spans)"
  shows "(\<forall>l. lower = Some l \<longrightarrow> is_le (cmp l x)) \<and> (\<forall>u. upper = Some u \<longrightarrow> is_le (cmp x u))"
proof -
  from assms obtain s :: span where s: "is_lt (cmp (clip_low cmp lower (sp_start s)) (clip_high cmp upper (sp_end s)))"
    "x = clip_low cmp lower (sp_start s) \<or> x = clip_high cmp upper (sp_end s)"
    unfolding set_span_bounds by blast
  have "is_le (cmp (clip_low cmp lower (sp_start s)) x)" "is_le (cmp x (clip_high cmp upper (sp_end s)))"
    using s by (auto simp: key.less_imp_le)
  then show ?thesis by (meson clip_bounds key.order_trans)
qed

text \<open>The elementary interval around a key sees exactly the spans that cover the key.\<close>

lemma window_spans:
  assumes sorted: "sorted_lt bs" and bs: "set bs = set (span_bounds cmp lower upper spans)"
    and ab: "(a, b) \<in> set (windows2 bs)" and key: "is_le (cmp a key)" "is_lt (cmp key b)"
    and s: "s \<in> set spans"
  shows "is_le (cmp (sp_start s) a) \<and> is_ge (cmp (sp_end s) b) \<longleftrightarrow> span_covers cmp s key"
proof
  assume "is_le (cmp (sp_start s) a) \<and> is_ge (cmp (sp_end s) b)"
  with key show "span_covers cmp s key"
    by (auto simp: span_covers_def is_ge_iff intro: key.order_trans key.less_le_trans)
next
  assume cov: "span_covers cmp s key"
  note w = sorted_lt_windows2 [OF sorted ab]
  have bounds: "in_bounds cmp lower upper key"
    using span_bounds_in [of a lower upper spans] span_bounds_in [of b lower upper spans] w bs key
    by (auto simp: in_bounds_def split: option.split intro: key.order_trans key.less_le_trans)
  let ?a = "clip_low cmp lower (sp_start s)" and ?b = "clip_high cmp upper (sp_end s)"
  have le: "is_le (cmp ?a key)" "is_lt (cmp key ?b)"
    using clip_low_le [OF bounds] clip_high_gt [OF bounds] cov by (auto simp: span_covers_def)
  then have "is_lt (cmp ?a ?b)" by (rule key.le_less_trans)
  then have "?a \<in> set bs" "?b \<in> set bs" using s bs by (auto simp: set_span_bounds)
  with w le key have "is_le (cmp ?a a)" "is_le (cmp b ?b)"
    by (meson key.le_less_trans key.less_le_trans key.not_le)+
  then show "is_le (cmp (sp_start s) a) \<and> is_ge (cmp (sp_end s) b)"
    using clip_bounds(1,2) by (auto simp: is_ge_iff intro: key.order_trans)
qed

lemma windows2_pairs_wf: "sorted_lt bs \<Longrightarrow> pairs_wf cmp (windows2 bs)"
proof (induction bs rule: induct_list012)
  case (3 x y zs)
  have "is_le (cmp y (fst q))" if "q \<in> set (windows2 (y # zs))" for q
  proof -
    have "fst q \<in> set (y # zs)" using that set_windows2 [of "fst q" "snd q" "y # zs"] by simp
    with 3(3) show ?thesis by (auto simp: key.less_imp_le)
  qed
  with 3 show ?case by (auto simp: pairs_wf_def)
qed (simp_all add: pairs_wf_def)

lemma find_windows2:
  assumes "pairs_wf cmp ps" and "(a, b) \<in> set ps" and "is_le (cmp a key)" "is_lt (cmp key b)"
  shows "pair_stack cmp spans ps key = covering_stack cmp spans a b"
  using assms
proof (induction ps)
  case (Cons p ps)
  show ?case
  proof (cases "p = (a, b)")
    case False
    with Cons.prems have "(a, b) \<in> set ps" "is_le (cmp (snd p) a)" by (auto simp: pairs_wf_def)
    with Cons.prems have "\<not> is_lt (cmp key (snd p))"
      by (auto simp: key.not_less intro: key.order_trans)
    with Cons \<open>(a, b) \<in> set ps\<close> show ?thesis by (cases p) (auto simp: pairs_wf_def)
  qed (use Cons.prems in simp)
qed simp

lemma pair_stack_none:
  "\<forall>(a, b)\<in>set ps. \<not> (is_le (cmp a key) \<and> is_lt (cmp key b)) \<Longrightarrow> pair_stack cmp spans ps key = []"
  by (induction ps) auto

lemma fragment_spans_correct:
  "frags_wf cmp (fragment_spans cmp spans lower upper) \<and>
   set (frag_stack cmp (fragment_spans cmp spans lower upper) key) =
     (if in_bounds cmp lower upper key then sp_seq ` {s \<in> set spans. span_covers cmp s key} else {}) \<and>
   sorted_wrt (>) (frag_stack cmp (fragment_spans cmp spans lower upper) key)"
proof -
  define bs where "bs = dedup_by (\<lambda>a b. is_eq (cmp a b)) (sort_by cmp (span_bounds cmp lower upper spans))"
  have bs: "set bs = set (span_bounds cmp lower upper spans)" and sorted: "sorted_lt bs"
    using dedup_sorted [OF sorted_sort_by] by (auto simp: bs_def)
  have f: "fragment_spans cmp spans lower upper = fragment_loop cmp spans [] (windows2 bs)"
    by (auto simp: fragment_spans_def bs_def Let_def)
  have wf: "frags_wf cmp (fragment_spans cmp spans lower upper)"
    and stack: "frag_stack cmp (fragment_spans cmp spans lower upper) key =
      pair_stack cmp spans (windows2 bs) key"
    using fragment_loop_correct [OF _ windows2_pairs_wf [OF sorted], of "[]" spans key]
    by (simp_all add: f frags_wf_def)
  show ?thesis
  proof (cases "\<exists>(a, b)\<in>set (windows2 bs). is_le (cmp a key) \<and> is_lt (cmp key b)")
    case True
    then obtain a b where ab: "(a, b) \<in> set (windows2 bs)" "is_le (cmp a key)" "is_lt (cmp key b)"
      by auto
    note w = sorted_lt_windows2 [OF sorted ab(1)]
    have "in_bounds cmp lower upper key"
      using span_bounds_in [of a lower upper spans] span_bounds_in [of b lower upper spans] w bs ab
      by (auto simp: in_bounds_def split: option.split intro: key.order_trans key.less_le_trans)
    moreover have "{s \<in> set spans. is_le (cmp (sp_start s) a) \<and> is_ge (cmp (sp_end s) b)} =
        {s \<in> set spans. span_covers cmp s key}"
      using window_spans [OF sorted bs ab] by blast
    ultimately show ?thesis
      using wf stack find_windows2 [OF windows2_pairs_wf [OF sorted] ab, of spans]
      by (simp add: covering_stack_set covering_stack_sorted)
  next
    case False
    have "\<not> span_covers cmp s key" if "s \<in> set spans" "in_bounds cmp lower upper key" for s
    proof
      assume cov: "span_covers cmp s key"
      let ?a = "clip_low cmp lower (sp_start s)" and ?b = "clip_high cmp upper (sp_end s)"
      have le: "is_le (cmp ?a key)" "is_lt (cmp key ?b)"
        using clip_low_le [OF that(2)] clip_high_gt [OF that(2)] cov by (auto simp: span_covers_def)
      then have "is_lt (cmp ?a ?b)" by (rule key.le_less_trans)
      then have "?a \<in> set bs" "?b \<in> set bs" using that bs by (auto simp: set_span_bounds)
      with windows2_covers [OF sorted _ _ le] False show False by blast
    qed
    moreover have "pair_stack cmp spans (windows2 bs) key = []"
      using False by (intro pair_stack_none) auto
    ultimately show ?thesis using wf stack by auto
  qed
qed

lemma covering_seq_in_stack:
  assumes "frags_wf cmp fs"
  shows "covering_seq_in cmp fs key r = visible_seq (frag_stack cmp fs key) r"
proof -
  have main: "(if length fs \<le> partition_point (\<lambda>f. is_le (cmp (fr_end f) key)) fs then None
      else if is_gt (cmp (fr_start (fs ! partition_point (\<lambda>f. is_le (cmp (fr_end f) key)) fs)) key) then None
      else visible_seq (fr_seqs (fs ! partition_point (\<lambda>f. is_le (cmp (fr_end f) key)) fs)) r)
    = visible_seq (frag_stack cmp fs key) r"
    using assms
  proof (induction fs)
    case (Cons f fs)
    show ?case
    proof (cases "is_le (cmp (fr_end f) key)")
      case True
      then have "\<not> frag_covers cmp key f" by (simp add: frag_covers_def key.not_less)
      with True Cons show ?thesis by (auto simp: frags_wf_def split: if_splits)
    next
      case False
      then have end': "is_lt (cmp key (fr_end f))" by (simp add: key.not_le)
      show ?thesis
      proof (cases "is_gt (cmp (fr_start f) key)")
        case True
        have "frag_stack cmp (f # fs) key = []"
        proof -
          have "\<not> frag_covers cmp key g" if "g \<in> set fs" for g
          proof -
            have "is_le (cmp (fr_end f) (fr_start g))" using Cons.prems that by (simp add: frags_wf_def)
            with end' show ?thesis
              by (auto simp: frag_covers_def key.not_le intro: key.less_le_trans)
          qed
          then have "find (frag_covers cmp key) fs = None" by (auto simp: find_None_iff)
          moreover have "\<not> frag_covers cmp key f"
            using True by (auto simp: frag_covers_def is_gt_iff dest: key.leD)
          ultimately show ?thesis by (simp add: frag_stack_def)
        qed
        with True False show ?thesis by (simp add: visible_seq_def)
      next
        case start: False
        then have "frag_covers cmp key f" using end' by (simp add: frag_covers_def key_simps key.not_less)
        with False start show ?thesis by simp
      qed
    qed
  qed (simp add: visible_seq_def)
  show ?thesis
  proof (cases "fs = []")
    case False
    with main show ?thesis by (simp only: covering_seq_in_def Let_def if_False)
  qed (simp add: covering_seq_in_def visible_seq_def)
qed

lemma covering_seq_in_fragments:
  "covering_seq_in cmp (fragment_spans cmp spans lower upper) key r =
     (if in_bounds cmp lower upper key then max_covering cmp spans key r else None)"
proof -
  note f = fragment_spans_correct [of spans lower upper key]
  then have "covering_seq_in cmp (fragment_spans cmp spans lower upper) key r =
      max_opt (filter (\<lambda>s. s \<le> r) (frag_stack cmp (fragment_spans cmp spans lower upper) key))"
    by (simp add: covering_seq_in_stack visible_seq_max)
  also have "\<dots> = (if in_bounds cmp lower upper key then max_covering cmp spans key r else None)"
  proof (cases "in_bounds cmp lower upper key")
    case True
    with f have "set (filter (\<lambda>s. s \<le> r) (frag_stack cmp (fragment_spans cmp spans lower upper) key)) =
        set (map sp_seq (filter (\<lambda>s. span_covers cmp s key \<and> sp_seq s \<le> r) spans))"
      by auto
    with True show ?thesis by (simp add: max_covering_def max_opt_cong)
  qed (use f in \<open>simp add: max_opt_def\<close>)
  finally show ?thesis .
qed

lemma max_ends_Nil [simp]: "max_ends cmp [] ms \<longleftrightarrow> ms = []"
  by (auto simp: max_ends_def)

lemma max_ends_snoc:
  "max_ends cmp (ends @ [e]) (ms @ [m]) \<longleftrightarrow> max_ends cmp ends ms \<and> m \<in> set (ends @ [e]) \<and>
     (\<forall>x\<in>set (ends @ [e]). is_le (cmp x m))"
  by (auto simp: max_ends_def nth_append less_Suc_eq take_Suc_conv_app_nth)

lemma max_ends_take: "max_ends cmp ends ms \<Longrightarrow> max_ends cmp (take n ends) (take n ms)"
  by (auto simp: max_ends_def min_def)

lemma max_ends_last:
  assumes "max_ends cmp ends ms" and "ends \<noteq> []"
  shows "last ms \<in> set ends \<and> (\<forall>e\<in>set ends. is_le (cmp e (last ms)))"
proof -
  have "ms \<noteq> []" "length ms = length ends" using assms by (auto simp: max_ends_def)
  then have "last ms = ms ! (length ends - 1)" by (simp add: last_conv_nth)
  moreover have "length ends - 1 < length ends" "take (Suc (length ends - 1)) ends = ends"
    using assms(2) by simp_all
  ultimately show ?thesis
    using assms(1) unfolding max_ends_def by metis
qed

lemma running_max_correct:
  assumes "max_ends cmp ends ms" and "running = (if ms = [] then None else Some (last ms))"
  shows "max_ends cmp (ends @ es) (ms @ running_max cmp running es)"
  using assms
proof (induction es arbitrary: ends ms running)
  case (Cons e es)
  define m where "m = (case running of Some m \<Rightarrow> if is_ge (cmp m e) then m else e | None \<Rightarrow> e)"
  have "m \<in> set (ends @ [e]) \<and> (\<forall>x\<in>set (ends @ [e]). is_le (cmp x m))"
  proof (cases "ends = []")
    case True
    then show ?thesis using Cons.prems by (simp add: m_def)
  next
    case False
    then have "running = Some (last ms)" using Cons.prems by (auto simp: max_ends_def)
    with max_ends_last [OF Cons.prems(1) False] show ?thesis
      by (auto simp: m_def key_simps key.not_le intro: key.order_trans key.less_imp_le)
  qed
  then have "max_ends cmp (ends @ [e]) (ms @ [m])" using Cons.prems(1) by (simp add: max_ends_snoc)
  from Cons.IH [OF this, of "Some m"] show ?case by (simp add: m_def Let_def)
qed simp

lemma rt_inv_new: "rt_inv cmp rt_new"
  by (simp add: rt_inv_def rt_new_def)

lemma sorted_takeWhile_le:
  assumes "sorted_wrt (\<lambda>s t. is_le (cmp (sp_start s) (sp_start t))) ss" and "s \<in> set (dropWhile (\<lambda>s. is_le (cmp (sp_start s) k)) ss)"
  shows "is_lt (cmp k (sp_start s))"
  using assms
proof (induction ss)
  case (Cons x ss)
  then show ?case by (auto simp: key.not_le split: if_splits intro: key.less_le_trans)
qed simp

lemma rt_inv_add:
  assumes "rt_inv cmp r"
  shows "rt_inv cmp (rt_add cmp start end' seq r)"
    and "set (rt_spans (rt_add cmp start end' seq r)) =
      insert \<lparr>sp_start = start, sp_end = end', sp_seq = seq\<rparr> (set (rt_spans r))"
proof -
  let ?P = "\<lambda>s. is_le (cmp (sp_start s) start)"
  let ?s = "\<lparr>sp_start = start, sp_end = end', sp_seq = seq\<rparr>"
  define pre where "pre = takeWhile ?P (rt_spans r)"
  define post where "post = dropWhile ?P (rt_spans r)"
  let ?at = "partition_point ?P (rt_spans r)"
  have split: "rt_spans r = pre @ post" by (simp add: pre_def post_def)
  have td: "take ?at (rt_spans r) = pre" "drop ?at (rt_spans r) = post"
    by (simp_all add: pre_def post_def take_partition_point drop_partition_point)
  have at: "?at = length pre" by (simp add: partition_point_def pre_def)
  have spans: "rt_spans (rt_add cmp start end' seq r) = pre @ ?s # post"
    by (simp add: rt_add_def Let_def td)
  have "is_le (cmp (sp_start s) start)" if "s \<in> set pre" for s
    using that by (auto simp: pre_def dest: set_takeWhileD)
  moreover have "is_le (cmp start (sp_start s))" if "s \<in> set post" for s
    using that assms sorted_takeWhile_le [of "rt_spans r" s start]
    by (auto simp: post_def rt_inv_def key.less_imp_le)
  ultimately have sorted: "sorted_wrt (\<lambda>s t. is_le (cmp (sp_start s) (sp_start t))) (pre @ ?s # post)"
    using assms split by (auto simp: rt_inv_def sorted_wrt_append)
  let ?kept = "take ?at (rt_prefix_max_end r)"
  have "max_ends cmp (map sp_end pre) ?kept"
    using max_ends_take [of "map sp_end (rt_spans r)" "rt_prefix_max_end r" ?at] assms split at
    by (simp add: rt_inv_def)
  from running_max_correct [OF this refl, of "map sp_end (?s # post)"]
  have "max_ends cmp (map sp_end (pre @ ?s # post))
      (?kept @ running_max cmp (if ?kept = [] then None else Some (last ?kept)) (map sp_end (?s # post)))"
    by simp
  moreover have "rt_prefix_max_end (rt_add cmp start end' seq r) =
      ?kept @ running_max cmp (if ?kept = [] then None else Some (last ?kept)) (map sp_end (?s # post))"
    unfolding rt_add_def Let_def td by (simp add: at)
  moreover have "rt_len (rt_add cmp start end' seq r) = Suc (length pre + length post)"
    using assms split by (simp add: rt_add_def Let_def rt_inv_def)
  moreover have "rt_cache (rt_add cmp start end' seq r) = None"
    by (simp add: rt_add_def Let_def)
  ultimately show "rt_inv cmp (rt_add cmp start end' seq r)"
    using sorted unfolding rt_inv_def spans by simp
  show "set (rt_spans (rt_add cmp start end' seq r)) = insert ?s (set (rt_spans r))"
    using spans split by auto
qed

lemma rt_scan_correct:
  assumes inv: "rt_inv cmp r" and "i \<le> length (rt_spans r)"
  shows "rt_scan cmp r key rs i best = Inr (opt_max (max_opt (map sp_seq
    (filter (\<lambda>s. is_lt (cmp key (sp_end s)) \<and> sp_seq s \<le> rs) (take i (rt_spans r))))) best)"
  using assms(2)
proof (induction i arbitrary: best)
  case (Suc i)
  let ?W = "\<lambda>s. is_lt (cmp key (sp_end s)) \<and> sp_seq s \<le> rs"
  let ?s = "rt_spans r ! i"
  have len: "length (rt_prefix_max_end r) = length (rt_spans r)"
    and ends: "\<forall>e\<in>set (take (Suc i) (map sp_end (rt_spans r))). is_le (cmp e (rt_prefix_max_end r ! i))"
    using inv Suc.prems by (auto simp: rt_inv_def max_ends_def)
  have take_Suc: "take (Suc i) (rt_spans r) = take i (rt_spans r) @ [?s]"
    using Suc.prems by (simp add: take_Suc_conv_app_nth)
  show ?case
  proof (cases "is_le (cmp (rt_prefix_max_end r ! i) key)")
    case True
    have "\<not> ?W s" if "s \<in> set (take (Suc i) (rt_spans r))" for s
    proof -
      have "is_le (cmp (sp_end s) (rt_prefix_max_end r ! i))"
        using ends that by (simp add: take_map)
      with True show ?thesis by (auto simp: key.not_less intro: key.order_trans)
    qed
    then have "filter ?W (take (Suc i) (rt_spans r)) = []" by (intro filter_False) blast
    with True Suc.prems len show ?thesis by simp
  next
    case False
    let ?best = "if ?W ?s then opt_max (Some (sp_seq ?s)) best else best"
    have "rt_scan cmp r key rs (Suc i) best = rt_scan cmp r key rs i ?best"
      using False Suc.prems len by (simp add: Let_def is_gt_iff opt_max_Some conj_commute)
    with Suc show ?thesis
      by (simp add: take_Suc max_opt_append opt_max_assoc)
  qed
qed simp

lemma rt_covering_seq_correct:
  assumes inv: "rt_inv cmp r"
  shows "rt_covering_seq cmp key rs r = Inr (max_covering cmp (rt_spans r) key rs)"
proof -
  let ?P = "\<lambda>s. is_le (cmp (sp_start s) key)"
  let ?W = "\<lambda>s. is_lt (cmp key (sp_end s)) \<and> sp_seq s \<le> rs"
  have "filter (\<lambda>s. span_covers cmp s key \<and> sp_seq s \<le> rs) (rt_spans r) = filter ?W (takeWhile ?P (rt_spans r))"
  proof -
    have "filter (\<lambda>s. span_covers cmp s key \<and> sp_seq s \<le> rs) (dropWhile ?P (rt_spans r)) = []"
    proof (intro filter_False ballI notI)
      fix s
      assume "s \<in> set (dropWhile ?P (rt_spans r))" and cov: "span_covers cmp s key \<and> sp_seq s \<le> rs"
      then have "is_lt (cmp key (sp_start s))"
        using inv sorted_takeWhile_le [of "rt_spans r" s key] by (simp add: rt_inv_def)
      with cov show False by (auto simp: span_covers_def dest: key.leD)
    qed
    moreover have "filter (\<lambda>s. span_covers cmp s key \<and> sp_seq s \<le> rs) (takeWhile ?P (rt_spans r)) =
        filter ?W (takeWhile ?P (rt_spans r))"
      by (rule filter_cong) (auto simp: span_covers_def dest: set_takeWhileD)
    ultimately have "filter (\<lambda>s. span_covers cmp s key \<and> sp_seq s \<le> rs)
        (takeWhile ?P (rt_spans r) @ dropWhile ?P (rt_spans r)) = filter ?W (takeWhile ?P (rt_spans r))"
      unfolding filter_append by simp
    then show ?thesis by simp
  qed
  moreover have "rt_spans r = []" if "rt_is_empty r"
    using that inv by (simp add: rt_is_empty_def rt_inv_def)
  ultimately show ?thesis
    using rt_scan_correct [OF inv partition_point_le [of ?P], of key rs None]
    by (simp add: rt_covering_seq_def max_covering_def take_partition_point)
qed

lemma rt_inv_snapshot:
  assumes "rt_inv cmp r" and "rt_fragment_snapshot cmp r = (r', fs)"
  shows "rt_inv cmp r' \<and> fs = fragment_spans cmp (rt_spans r) None None \<and> rt_spans r' = rt_spans r"
  using assms by (auto simp: rt_fragment_snapshot_def rt_inv_def Let_def split: option.splits)

lemma rt_inv_retire: "rt_inv cmp r \<Longrightarrow> rt_inv cmp (rt_retire r)"
  by (simp add: rt_inv_def rt_retire_def)

text \<open>
  The scan cursor. Without a prefix its comparison is the comparator's, and the two walks
  move the index to the first fragment of the window whose end lies past the key.
\<close>

lemma fc_compare_plain: "fc_prefix c = None \<Longrightarrow> fc_compare cmp c bound key = Inr (cmp bound key)"
  by (simp add: fc_compare_def)

lemma fc_forward_correct:
  assumes "fc_prefix c = None" "fc_stop c \<le> length (fc_frags c)" "fc_idx c \<le> fc_stop c"
    "n = fc_stop c - fc_idx c"
  shows "\<exists>i. fc_forward cmp key n c = Inr (c\<lparr>fc_idx := i\<rparr>) \<and> fc_idx c \<le> i \<and> i \<le> fc_stop c \<and>
    (\<forall>j. fc_idx c \<le> j \<longrightarrow> j < i \<longrightarrow> is_le (cmp (fr_end (fc_frags c ! j)) key)) \<and>
    (i < fc_stop c \<longrightarrow> is_lt (cmp key (fr_end (fc_frags c ! i))))"
  using assms
proof (induction n arbitrary: c)
  case 0
  then show ?case by (auto intro!: exI [of _ "fc_idx c"])
next
  case (Suc n)
  show ?case
  proof (cases "is_le (cmp (fr_end (fc_frags c ! fc_idx c)) key)")
    case True
    let ?c = "c\<lparr>fc_idx := fc_idx c + 1\<rparr>"
    have "\<exists>i. fc_forward cmp key n ?c = Inr (?c\<lparr>fc_idx := i\<rparr>) \<and> fc_idx ?c \<le> i \<and> i \<le> fc_stop ?c \<and>
      (\<forall>j. fc_idx ?c \<le> j \<longrightarrow> j < i \<longrightarrow> is_le (cmp (fr_end (fc_frags ?c ! j)) key)) \<and>
      (i < fc_stop ?c \<longrightarrow> is_lt (cmp key (fr_end (fc_frags ?c ! i))))"
      using Suc.prems by (intro Suc.IH) auto
    then obtain i where i: "fc_forward cmp key n ?c = Inr (c\<lparr>fc_idx := i\<rparr>)" "fc_idx c + 1 \<le> i"
      "i \<le> fc_stop c" "\<forall>j. fc_idx c + 1 \<le> j \<longrightarrow> j < i \<longrightarrow> is_le (cmp (fr_end (fc_frags c ! j)) key)"
      "i < fc_stop c \<longrightarrow> is_lt (cmp key (fr_end (fc_frags c ! i)))"
      by auto
    moreover have "fc_idx c < fc_stop c" using Suc.prems(4) by simp
    then have "fc_forward cmp key (Suc n) c = fc_forward cmp key n ?c"
      using Suc.prems(1-3) True by (simp add: fc_compare_plain)
    moreover have "\<forall>j. fc_idx c \<le> j \<longrightarrow> j < i \<longrightarrow> is_le (cmp (fr_end (fc_frags c ! j)) key)"
      using i(4) True by (metis Suc_eq_plus1 Suc_leI le_neq_implies_less)
    ultimately show ?thesis by (auto intro!: exI [of _ i])
  next
    case False
    have "fc_idx c < fc_stop c" using Suc.prems(4) by simp
    with False Suc.prems(1-3) show ?thesis
      by (intro exI [of _ "fc_idx c"]) (auto simp: fc_compare_plain key.not_le dest: key.leD)
  qed
qed

lemma fc_backward_correct:
  assumes "fc_prefix c = None" "fc_stop c \<le> length (fc_frags c)" "fc_idx c \<le> fc_stop c"
    "fc_start c \<le> fc_idx c" "n = fc_idx c - fc_start c"
    "fc_idx c < fc_stop c \<longrightarrow> is_lt (cmp key (fr_end (fc_frags c ! fc_idx c)))"
  shows "\<exists>i. fc_backward cmp key n c = Inr (c\<lparr>fc_idx := i\<rparr>) \<and> fc_start c \<le> i \<and> i \<le> fc_idx c \<and>
    (fc_start c < i \<longrightarrow> is_le (cmp (fr_end (fc_frags c ! (i - 1))) key)) \<and>
    (i < fc_stop c \<longrightarrow> is_lt (cmp key (fr_end (fc_frags c ! i))))"
  using assms
proof (induction n arbitrary: c)
  case 0
  then show ?case by (auto intro!: exI [of _ "fc_idx c"])
next
  case (Suc n)
  show ?case
  proof (cases "is_gt (cmp (fr_end (fc_frags c ! (fc_idx c - 1))) key)")
    case True
    let ?c = "c\<lparr>fc_idx := fc_idx c - 1\<rparr>"
    have "\<exists>i. fc_backward cmp key n ?c = Inr (?c\<lparr>fc_idx := i\<rparr>) \<and> fc_start ?c \<le> i \<and> i \<le> fc_idx ?c \<and>
      (fc_start ?c < i \<longrightarrow> is_le (cmp (fr_end (fc_frags ?c ! (i - 1))) key)) \<and>
      (i < fc_stop ?c \<longrightarrow> is_lt (cmp key (fr_end (fc_frags ?c ! i))))"
      using Suc.prems True by (intro Suc.IH) (auto simp: is_gt_iff)
    moreover have "fc_start c < fc_idx c" using Suc.prems(5) by simp
    then have "fc_backward cmp key (Suc n) c = fc_backward cmp key n ?c"
      using Suc.prems(1-4) True by (auto simp: fc_compare_plain)
    ultimately show ?thesis by auto
  next
    case False
    have "fc_start c < fc_idx c" using Suc.prems(5) by simp
    with False Suc.prems(1-4,6) show ?thesis
      by (intro exI [of _ "fc_idx c"]) (auto simp: fc_compare_plain is_gt_iff key.not_less dest: key.leD)
  qed
qed

lemma partition_point_nth:
  assumes "j < partition_point P xs"
  shows "P (xs ! j)"
proof -
  have "takeWhile P xs ! j \<in> set (takeWhile P xs)"
    using assms by (auto simp: partition_point_def)
  then show ?thesis
    using assms by (auto simp: partition_point_def takeWhile_nth dest: set_takeWhileD)
qed

lemma frags_wf_ends_mono:
  assumes "frags_wf cmp fs" "i < j" "j < length fs"
  shows "is_lt (cmp (fr_end (fs ! i)) (fr_end (fs ! j)))"
proof -
  have "is_le (cmp (fr_end (fs ! i)) (fr_start (fs ! j)))"
    using assms by (auto simp: frags_wf_def sorted_wrt_iff_nth_less)
  moreover have "is_lt (cmp (fr_start (fs ! j)) (fr_end (fs ! j)))"
    using assms by (auto simp: frags_wf_def frag_wf_def)
  ultimately show ?thesis by (rule key.le_less_trans)
qed

lemma frags_wf_starts_mono:
  assumes "frags_wf cmp fs" "i < j" "j < length fs"
  shows "is_le (cmp (fr_end (fs ! i)) (fr_start (fs ! j)))" "is_lt (cmp (fr_start (fs ! i)) (fr_start (fs ! j)))"
proof -
  show le: "is_le (cmp (fr_end (fs ! i)) (fr_start (fs ! j)))"
    using assms by (auto simp: frags_wf_def sorted_wrt_iff_nth_less)
  have "is_lt (cmp (fr_start (fs ! i)) (fr_end (fs ! i)))"
    using assms by (auto simp: frags_wf_def frag_wf_def)
  then show "is_lt (cmp (fr_start (fs ! i)) (fr_start (fs ! j)))"
    using le by (rule key.less_le_trans)
qed

lemma frag_stack_single:
  assumes "\<And>j. j < length fs \<Longrightarrow> frag_covers cmp key (fs ! j) \<Longrightarrow> j = i"
  shows "frag_stack cmp fs key =
    (if i < length fs \<and> frag_covers cmp key (fs ! i) then fr_seqs (fs ! i) else [])"
proof (cases "find (frag_covers cmp key) fs")
  case None
  then have "\<not> frag_covers cmp key (fs ! i)" if "i < length fs"
    using that by (auto simp: find_None_iff)
  with None show ?thesis by (auto simp: frag_stack_def)
next
  case (Some f)
  then obtain j where "j < length fs" "frag_covers cmp key (fs ! j)" "f = fs ! j"
    by (auto simp: find_Some_iff)
  with assms Some show ?thesis by (auto simp: frag_stack_def)
qed

lemma window_outside:
  assumes wf: "frags_wf cmp fs" and bounds: "in_bounds cmp lower upper key" and j: "j < length fs"
    and out: "j < window_start cmp fs lower \<or> window_stop cmp fs upper \<le> j"
  shows "\<not> frag_covers cmp key (fs ! j)"
  using out
proof
  assume "j < window_start cmp fs lower"
  then obtain l where l: "lower = Some l" "is_le (cmp (fr_end (fs ! j)) l)"
    by (auto simp: window_start_def split: option.splits dest: partition_point_nth)
  then have "is_le (cmp (fr_end (fs ! j)) key)"
    using bounds by (auto simp: in_bounds_def intro: key.order_trans)
  then show ?thesis by (simp add: frag_covers_def key.not_less)
next
  assume stop: "window_stop cmp fs upper \<le> j"
  then obtain u where u: "upper = Some u" "partition_point (\<lambda>f. is_lt (cmp (fr_start f) u)) fs \<le> j"
    using j by (auto simp: window_stop_def split: option.splits)
  let ?p = "partition_point (\<lambda>f. is_lt (cmp (fr_start f) u)) fs"
  have "?p < length fs" using u j by simp
  then have "\<not> is_lt (cmp (fr_start (fs ! ?p)) u)"
    unfolding partition_point_def by (rule nth_length_takeWhile)
  moreover have "is_le (cmp (fr_start (fs ! ?p)) (fr_start (fs ! j)))"
    using frags_wf_starts_mono(2) [OF wf, of ?p j] u j by (cases "?p = j") (auto intro: key.less_imp_le)
  ultimately have "is_le (cmp u (fr_start (fs ! j)))"
    by (auto simp: key.not_less intro: key.order_trans)
  then have "is_lt (cmp key (fr_start (fs ! j)))"
    using bounds u(1) by (auto simp: in_bounds_def intro: key.less_le_trans)
  then show ?thesis by (auto simp: frag_covers_def dest: key.leD)
qed

text \<open>Where the two walks of a cursor leave it, and what it answers there.\<close>

lemma fc_walk:
  assumes c: "fc_prefix c = None" "fc_stop c \<le> length (fc_frags c)" "fc_start c \<le> fc_idx c" "fc_idx c \<le> fc_stop c"
  shows "\<exists>i. fc_start c \<le> i \<and> i \<le> fc_stop c \<and>
    (fc_start c < i \<longrightarrow> is_le (cmp (fr_end (fc_frags c ! (i - 1))) key)) \<and>
    (i < fc_stop c \<longrightarrow> is_lt (cmp key (fr_end (fc_frags c ! i)))) \<and>
    fc_covering_seq cmp key r c = Inr (c\<lparr>fc_idx := i\<rparr>,
      visible_seq (if i < fc_stop c \<and> frag_covers cmp key (fc_frags c ! i) then fr_seqs (fc_frags c ! i) else []) r)"
proof -
  let ?fs = "fc_frags c"
  obtain i1 where i1: "fc_forward cmp key (fc_stop c - fc_idx c) c = Inr (c\<lparr>fc_idx := i1\<rparr>)"
    "fc_idx c \<le> i1" "i1 \<le> fc_stop c" "i1 < fc_stop c \<longrightarrow> is_lt (cmp key (fr_end (?fs ! i1)))"
    using fc_forward_correct [OF c(1,2,4) refl, of key] by blast
  let ?c = "c\<lparr>fc_idx := i1\<rparr>"
  have "\<exists>i. fc_backward cmp key (fc_idx ?c - fc_start ?c) ?c = Inr (?c\<lparr>fc_idx := i\<rparr>) \<and>
    fc_start ?c \<le> i \<and> i \<le> fc_idx ?c \<and>
    (fc_start ?c < i \<longrightarrow> is_le (cmp (fr_end (fc_frags ?c ! (i - 1))) key)) \<and>
    (i < fc_stop ?c \<longrightarrow> is_lt (cmp key (fr_end (fc_frags ?c ! i))))"
    using c i1 by (intro fc_backward_correct) auto
  then obtain i where i: "fc_backward cmp key (i1 - fc_start c) ?c = Inr (c\<lparr>fc_idx := i\<rparr>)"
    "fc_start c \<le> i" "i \<le> i1" "fc_start c < i \<longrightarrow> is_le (cmp (fr_end (?fs ! (i - 1))) key)"
    "i < fc_stop c \<longrightarrow> is_lt (cmp key (fr_end (?fs ! i)))"
    by auto
  have "fc_covering_seq cmp key r c = Inr (c\<lparr>fc_idx := i\<rparr>,
      visible_seq (if i < fc_stop c \<and> frag_covers cmp key (?fs ! i) then fr_seqs (?fs ! i) else []) r)"
  proof (cases "i = fc_stop c")
    case True
    with i1(1) i(1) show ?thesis by (simp add: fc_covering_seq_def visible_seq_def)
  next
    case False
    with i(3) i1(3) c(2) have lt: "i < fc_stop c" "i < length ?fs" by linarith+
    then have "frag_covers cmp key (?fs ! i) \<longleftrightarrow> \<not> is_gt (cmp (fr_start (?fs ! i)) key)"
      using i(5) by (simp add: frag_covers_def is_gt_iff key.not_less)
    with lt i1(1) i(1) c(1) show ?thesis
      by (simp add: fc_covering_seq_def fc_compare_plain visible_seq_def Let_def)
  qed
  with i i1(3) show ?thesis by (meson order_trans)
qed

text \<open>Of the fragments in the window, only the one the walk stops at can cover the key.\<close>

lemma fc_walk_only:
  assumes wf: "frags_wf cmp fs" and stop: "stop \<le> length fs"
    and i: "i \<le> stop" "start < i \<longrightarrow> is_le (cmp (fr_end (fs ! (i - 1))) key)"
      "i < stop \<longrightarrow> is_lt (cmp key (fr_end (fs ! i)))"
    and j: "start \<le> j" "j < stop" "frag_covers cmp key (fs ! j)"
  shows "j = i"
proof (rule ccontr)
  assume "j \<noteq> i"
  with i(1) j(1,2) consider "j < i" "j \<le> i - 1" "start < i" | "i < j" "i < stop" by linarith
  then show False
  proof cases
    case 1
    have "is_le (cmp (fr_end (fs ! j)) (fr_end (fs ! (i - 1))))"
      using frags_wf_ends_mono [OF wf, of j "i - 1"] 1 i(1) stop
      by (cases "j = i - 1") (auto intro: key.less_imp_le)
    with i(2) 1 have "is_le (cmp (fr_end (fs ! j)) key)" by (auto intro: key.order_trans)
    with j(3) show False by (auto simp: frag_covers_def dest: key.leD)
  next
    case 2
    with i(3) frags_wf_starts_mono(1) [OF wf 2(1)] j(2) stop
    have "is_lt (cmp key (fr_start (fs ! j)))" by (auto intro: key.less_le_trans)
    with j(3) show False by (auto simp: frag_covers_def dest: key.leD)
  qed
qed

lemma fc_covering_seq_correct:
  assumes wf: "frags_wf cmp (fc_frags c)" and ok: "cursor_ok cmp lower upper c"
    and bounds: "in_bounds cmp lower upper key"
  shows "\<exists>i. fc_covering_seq cmp key r c = Inr (c\<lparr>fc_idx := i\<rparr>, covering_seq_in cmp (fc_frags c) key r) \<and>
    cursor_ok cmp lower upper (c\<lparr>fc_idx := i\<rparr>)"
proof -
  let ?fs = "fc_frags c"
  have c: "fc_prefix c = None" "fc_stop c \<le> length ?fs" "fc_start c \<le> fc_idx c" "fc_idx c \<le> fc_stop c"
    "fc_start c = window_start cmp ?fs lower" "fc_stop c = window_stop cmp ?fs upper"
    using ok by (auto simp: cursor_ok_def window_stop_def split: option.splits)
  obtain i where i: "fc_start c \<le> i" "i \<le> fc_stop c" "fc_start c < i \<longrightarrow> is_le (cmp (fr_end (?fs ! (i - 1))) key)"
    "i < fc_stop c \<longrightarrow> is_lt (cmp key (fr_end (?fs ! i)))"
    and walk: "fc_covering_seq cmp key r c = Inr (c\<lparr>fc_idx := i\<rparr>,
      visible_seq (if i < fc_stop c \<and> frag_covers cmp key (?fs ! i) then fr_seqs (?fs ! i) else []) r)"
    using fc_walk [OF c(1-4)] by blast
  have inside: "fc_start c \<le> j" "j < fc_stop c" if "j < length ?fs" "frag_covers cmp key (?fs ! j)" for j
    using window_outside [OF wf bounds that(1)] that(2) c(5,6) by (metis linorder_not_le)+
  have only: "j = i" if "j < length ?fs" "frag_covers cmp key (?fs ! j)" for j
    using fc_walk_only [OF wf c(2) i(2-4) inside [OF that] that(2)] .
  have "covering_seq_in cmp ?fs key r = visible_seq
      (if i < fc_stop c \<and> frag_covers cmp key (?fs ! i) then fr_seqs (?fs ! i) else []) r"
    unfolding covering_seq_in_stack [OF wf] using inside(2) [of i] c(2)
    by (subst frag_stack_single [OF only]) auto
  moreover have "cursor_ok cmp lower upper (c\<lparr>fc_idx := i\<rparr>)"
    using ok i(1,2) by (simp add: cursor_ok_def)
  ultimately show ?thesis using walk by auto
qed

text \<open>For any key, in bounds or not, a cursor answers for the fragments of its window.\<close>

lemma fc_covering_seq_window:
  assumes wf: "frags_wf cmp (fc_frags c)"
    and c: "fc_prefix c = None" "fc_stop c \<le> length (fc_frags c)" "fc_start c \<le> fc_idx c" "fc_idx c \<le> fc_stop c"
  shows "\<exists>i. fc_start c \<le> i \<and> i \<le> fc_stop c \<and> fc_covering_seq cmp key r c =
    Inr (c\<lparr>fc_idx := i\<rparr>, visible_seq (frag_stack cmp (fc_window c) key) r)"
proof -
  let ?fs = "fc_frags c" and ?w = "fc_window c"
  obtain i where i: "fc_start c \<le> i" "i \<le> fc_stop c" "fc_start c < i \<longrightarrow> is_le (cmp (fr_end (?fs ! (i - 1))) key)"
    "i < fc_stop c \<longrightarrow> is_lt (cmp key (fr_end (?fs ! i)))"
    and walk: "fc_covering_seq cmp key r c = Inr (c\<lparr>fc_idx := i\<rparr>,
      visible_seq (if i < fc_stop c \<and> frag_covers cmp key (?fs ! i) then fr_seqs (?fs ! i) else []) r)"
    using fc_walk [OF c] by blast
  have len: "length ?w = fc_stop c - fc_start c" using c by (simp add: fc_window_def)
  have nth: "?w ! j = ?fs ! (fc_start c + j)" if "j < length ?w" for j
    using that len c by (simp add: fc_window_def)
  have "frag_stack cmp ?w key = (if i - fc_start c < length ?w \<and> frag_covers cmp key (?w ! (i - fc_start c))
      then fr_seqs (?w ! (i - fc_start c)) else [])"
  proof (rule frag_stack_single)
    fix j assume j: "j < length ?w" "frag_covers cmp key (?w ! j)"
    then have "fc_start c + j = i"
      using fc_walk_only [OF wf c(2) i(2-4), of "fc_start c + j"] nth [OF j(1)] len by simp
    then show "j = i - fc_start c" by simp
  qed
  moreover have "i - fc_start c < length ?w \<longleftrightarrow> i < fc_stop c" using i(1) len by auto
  ultimately have "frag_stack cmp ?w key =
      (if i < fc_stop c \<and> frag_covers cmp key (?fs ! i) then fr_seqs (?fs ! i) else [])"
    using nth [of "i - fc_start c"] i(1) by auto
  with walk i(1,2) show ?thesis by auto
qed

text \<open>Exploding well-formed fragments into spans and looking those up.\<close>

lemma spans_of_fragments_covering:
  assumes "frags_wf cmp fs"
  shows "sp_seq ` {s \<in> set (spans_of_fragments fs). span_covers cmp s key} = set (frag_stack cmp fs key)"
  using assms
proof (induction fs)
  case (Cons f fs)
  have later: "\<not> frag_covers cmp key g" if "frag_covers cmp key f" "g \<in> set fs" for g
  proof -
    have "is_le (cmp (fr_end f) (fr_start g))" using Cons.prems that by (simp add: frags_wf_def)
    with that(1) have "is_lt (cmp key (fr_start g))"
      by (auto simp: frag_covers_def intro: key.less_le_trans)
    then show ?thesis by (auto simp: frag_covers_def dest: key.leD)
  qed
  have "frag_stack cmp fs key = []" if "frag_covers cmp key f"
    using later [OF that] by (intro frag_stack_none) blast
  moreover have "sp_seq ` {s \<in> set (spans_of_fragments (f # fs)). span_covers cmp s key} =
      (if frag_covers cmp key f then set (fr_seqs f) else {}) \<union>
      sp_seq ` {s \<in> set (spans_of_fragments fs). span_covers cmp s key}"
  proof -
    let ?m = "map (\<lambda>seq. \<lparr>sp_start = fr_start f, sp_end = fr_end f, sp_seq = seq\<rparr>) (fr_seqs f)"
    have "sp_seq ` {s \<in> set ?m. span_covers cmp s key} = (if frag_covers cmp key f then set (fr_seqs f) else {})"
      by (force simp: span_covers_def frag_covers_def)
    moreover have "set (spans_of_fragments (f # fs)) = set ?m \<union> set (spans_of_fragments fs)"
      by (simp add: spans_of_fragments_def)
    ultimately show ?thesis by blast
  qed
  ultimately show ?case using Cons by (auto simp: frags_wf_def)
qed (simp add: spans_of_fragments_def)

lemma max_covering_fragments:
  assumes "frags_wf cmp fs"
  shows "max_covering cmp (spans_of_fragments fs) key r = covering_seq_in cmp fs key r"
proof -
  have "frag_stack cmp fs key = [] \<or> (\<exists>f\<in>set fs. frag_stack cmp fs key = fr_seqs f)"
    by (induction fs) auto
  then have "sorted_wrt (>) (frag_stack cmp fs key)"
    using assms by (auto simp: frags_wf_def frag_wf_def)
  moreover have "set (map sp_seq (filter (\<lambda>s. span_covers cmp s key \<and> sp_seq s \<le> r) (spans_of_fragments fs))) =
      set (filter (\<lambda>s. s \<le> r) (frag_stack cmp fs key))"
    using spans_of_fragments_covering [OF assms, of key] by auto
  ultimately show ?thesis
    by (simp add: covering_seq_in_stack [OF assms] visible_seq_max max_covering_def max_opt_cong)
qed

lemma rt_build_inv:
  "rt_inv cmp (rt_build cmp adds) \<and> set (rt_spans (rt_build cmp adds)) = set adds"
proof (induction adds rule: rev_induct)
  case (snoc s adds)
  have step: "rt_build cmp (adds @ [s]) = rt_add cmp (sp_start s) (sp_end s) (sp_seq s) (rt_build cmp adds)"
    by (simp add: rt_build_def)
  from snoc have inv: "rt_inv cmp (rt_build cmp adds)" by blast
  show ?case
    using rt_inv_add [OF inv, of "sp_start s" "sp_end s" "sp_seq s"] snoc unfolding step by (cases s) simp
qed (simp add: rt_build_def rt_inv_new, simp add: rt_new_def)

lemma max_covering_cong: "set xs = set ys \<Longrightarrow> max_covering cmp xs key r = max_covering cmp ys key r"
  unfolding max_covering_def by (intro max_opt_cong) auto

end

section \<open>The codec\<close>

definition encodable :: "fragment \<Rightarrow> bool" where
  "encodable f \<longleftrightarrow> length (fr_start f) < 2 ^ 64 \<and> length (fr_end f) < 2 ^ 64 \<and>
     length (fr_seqs f) < 2 ^ 64 \<and> fr_seqs f \<noteq> [] \<and> sorted_wrt (>) (fr_seqs f)"

definition fragment_bytes :: "fragment \<Rightarrow> bytes" where
  "fragment_bytes f = append_uvarint [] (of_nat (length (fr_start f))) @ fr_start f
     @ append_uvarint [] (of_nat (length (fr_end f))) @ fr_end f
     @ append_uvarint [] (of_nat (length (fr_seqs f))) @ concat (map (append_uvarint []) (fr_seqs f))"

lemma foldl_append_uvarint: "foldl append_uvarint b xs = b @ concat (map (append_uvarint []) xs)"
proof (induction xs arbitrary: b)
  case (Cons x xs)
  have "foldl append_uvarint b (x # xs) = append_uvarint b x @ concat (map (append_uvarint []) xs)"
    by (simp add: Cons)
  then show ?case by (subst (asm) append_uvarint_acc) simp
qed simp

lemma encode_fragment_eq: "encode_fragment b f = b @ fragment_bytes f"
  unfolding encode_fragment_def Let_def foldl_append_uvarint fragment_bytes_def
  by (subst (1 2 3) append_uvarint_acc) simp

lemma encode_fragments_eq:
  "encode_fragments fs = append_uvarint [] (of_nat (length fs)) @ concat (map fragment_bytes fs)"
proof -
  have "foldl encode_fragment b fs = b @ concat (map fragment_bytes fs)" for b
    by (induction fs arbitrary: b) (simp_all add: encode_fragment_eq)
  then show ?thesis by (simp add: encode_fragments_def)
qed

lemma unat_of_nat_u64: "n < 2 ^ 64 \<Longrightarrow> unat (of_nat n :: u64) = n"
  by (simp add: unat_of_nat)

lemma take_bytes_append:
  assumes "length x < 2 ^ 64"
  shows "take_bytes (append_uvarint [] (of_nat (length x)) @ x @ rest) = Inr (x, rest)"
  using unat_of_nat_u64 [OF assms] by (simp add: take_bytes_def uvarint_append)

lemma decode_seqs_append: "decode_seqs (length ss) (concat (map (append_uvarint []) ss) @ rest) = Inr (ss, rest)"
  by (induction ss) (simp_all add: uvarint_append)

lemma windows2_desc: "sorted_wrt (>) ss \<Longrightarrow> \<not> list_ex (\<lambda>(x, y). x \<le> y) (windows2 (ss :: u64 list))"
  by (induction ss rule: induct_list012) auto

lemma windows2_desc_conv: "\<not> list_ex (\<lambda>(x, y). x \<le> y) (windows2 (ss :: u64 list)) \<Longrightarrow> sorted_wrt (>) ss"
proof (induction ss rule: induct_list012)
  case (3 x y zs)
  then have "sorted_wrt (>) (y # zs)" "y < x" by auto
  then show ?case by (auto intro: less_trans)
qed simp_all

lemma decode_fragment_loop_append:
  "\<forall>f\<in>set fs. encodable f \<Longrightarrow>
     decode_fragment_loop (length fs) (concat (map fragment_bytes fs) @ rest) = Inr (fs, rest)"
proof (induction fs)
  case (Cons f fs)
  let ?rest = "concat (map fragment_bytes fs) @ rest"
  from Cons.prems have f: "length (fr_start f) < 2 ^ 64" "length (fr_end f) < 2 ^ 64"
    "length (fr_seqs f) < 2 ^ 64" "fr_seqs f \<noteq> []" "sorted_wrt (>) (fr_seqs f)"
    by (simp_all add: encodable_def)
  have n: "unat (of_nat (length (fr_seqs f)) :: u64) = length (fr_seqs f)" by (rule unat_of_nat_u64 [OF f(3)])
  then have nz: "(of_nat (length (fr_seqs f)) :: u64) \<noteq> 0" using f(4) by auto
  show ?case
    using Cons n nz f windows2_desc [OF f(5)]
    by (simp add: fragment_bytes_def take_bytes_append uvarint_append decode_seqs_append)
qed simp

lemma decode_encode_fragments:
  assumes "\<forall>f\<in>set fs. encodable f" and "length fs < 2 ^ 64"
  shows "decode_fragments (encode_fragments fs) = Inr fs"
  using decode_fragment_loop_append [OF assms(1), of "[]"] unat_of_nat_u64 [OF assms(2)]
  by (simp add: decode_fragments_def encode_fragments_eq uvarint_append)

lemma decode_seqs_length: "decode_seqs m q = Inr (ss, q') \<Longrightarrow> length ss = m"
  by (induction m arbitrary: q ss) (auto simp: rbind_Inr_iff)

lemma decode_fragment_loop_ok:
  "decode_fragment_loop n p = Inr (fs, rest) \<Longrightarrow>
     length fs = n \<and> (\<forall>f\<in>set fs. fr_seqs f \<noteq> [] \<and> sorted_wrt (>) (fr_seqs f))"
proof (induction n arbitrary: p fs)
  case (Suc n)
  from Suc.prems obtain start end' seqs q fs' p' and nseq :: u64 where
    seqs: "decode_seqs (unat nseq) q = Inr (seqs, p')" "nseq \<noteq> 0"
      "\<not> list_ex (\<lambda>(x, y). x \<le> y) (windows2 seqs)"
    and rest: "decode_fragment_loop n p' = Inr (fs', rest)"
    and fs: "fs = \<lparr>fr_start = start, fr_end = end', fr_seqs = seqs\<rparr> # fs'"
    by (auto simp: rbind_Inr_iff Let_def split: if_splits)
  have "seqs \<noteq> []" using decode_seqs_length [OF seqs(1)] seqs(2) by (auto simp: unat_eq_zero)
  with Suc.IH [OF rest] windows2_desc_conv [OF seqs(3)] fs show ?case by simp
qed simp

lemma decode_fragments_no_panic: "decode_fragments p \<noteq> Inl Panic"
proof -
  have tb: "take_bytes q \<noteq> Inl Panic" for q
    by (auto simp: take_bytes_def rbind_Inl_iff bad_fragments_def Let_def split: if_splits)
  have ds: "decode_seqs m q \<noteq> Inl Panic" for m q
    by (induction m arbitrary: q) (auto simp: rbind_Inl_iff bad_fragments_def)
  have "decode_fragment_loop n q \<noteq> Inl Panic" for n q
    using tb ds by (induction n arbitrary: q)
      (auto simp: rbind_Inl_iff bad_fragments_def Let_def split: if_splits)
  then show ?thesis
    by (auto simp: decode_fragments_def rbind_Inl_iff bad_fragments_def split: if_splits)
qed

section \<open>Properties\<close>

text \<open>
  C10. The live set answers every lookup exactly: after any sequence of range deletes, in any
  order and with overlapping or empty spans, \<^const>\<open>rt_covering_seq\<close> finds without a panic the
  greatest sequence at or below the read sequence among the spans that contain the key,
  although its backward scan stops early.
\<close>

theorem rt_lookup_exact:
  assumes "user_key_order cmp"
  shows "rt_covering_seq cmp key read_seq (rt_build cmp adds) = Inr (max_covering cmp adds key read_seq)"
  using user_key_order.rt_build_inv [OF assms, of adds] user_key_order.rt_covering_seq_correct [OF assms]
    user_key_order.max_covering_cong [OF assms]
  by metis

theorem rt_lookup_exact_witness:
  "rt_covering_seq (compare Bytewise) [5] 9 (rt_build (compare Bytewise)
     [\<lparr>sp_start = [1], sp_end = [9], sp_seq = 4\<rparr>, \<lparr>sp_start = [4], sp_end = [6], sp_seq = 7\<rparr>])
   = Inr (Some 7)"
proof -
  have "max_covering (compare Bytewise) [\<lparr>sp_start = [1], sp_end = [9], sp_seq = 4\<rparr>,
      \<lparr>sp_start = [4], sp_end = [6], sp_seq = 7\<rparr>] [5] 9 = Some 7"
    by code_simp
  then show ?thesis
    using rt_lookup_exact [OF bytewise.user_key_order_axioms, of "[5]" 9
        "[\<lparr>sp_start = [1], sp_end = [9], sp_seq = 4\<rparr>, \<lparr>sp_start = [4], sp_end = [6], sp_seq = 7\<rparr>]"]
    by (simp only:)
qed

text \<open>
  C9. Fragmentation loses and invents nothing: for any spans and any clipping interval,
  \<^const>\<open>fragment_spans\<close> yields sorted, disjoint, non-empty fragments with strictly descending
  stacks, and the binary search over them returns, for a key inside the interval, exactly
  the newest covering sequence of the spans, and nothing for a key outside it.
\<close>

theorem fragments_exact:
  assumes "user_key_order cmp"
  shows "frags_wf cmp (fragment_spans cmp spans lower upper) \<and>
    covering_seq_in cmp (fragment_spans cmp spans lower upper) key read_seq =
      (if in_bounds cmp lower upper key then max_covering cmp spans key read_seq else None)"
  using user_key_order.fragment_spans_correct [OF assms] user_key_order.covering_seq_in_fragments [OF assms]
  by blast

theorem fragments_exact_witness:
  "covering_seq_in (compare Bytewise) (fragment_spans (compare Bytewise)
     [\<lparr>sp_start = [1], sp_end = [9], sp_seq = 4\<rparr>, \<lparr>sp_start = [4], sp_end = [6], sp_seq = 7\<rparr>]
     (Some [2]) None) [5] 6 = Some 4"
proof -
  have "max_covering (compare Bytewise) [\<lparr>sp_start = [1], sp_end = [9], sp_seq = 4\<rparr>,
      \<lparr>sp_start = [4], sp_end = [6], sp_seq = 7\<rparr>] [5] 6 = Some 4"
    "in_bounds (compare Bytewise) (Some [2]) None [5]"
    by code_simp+
  then show ?thesis
    using fragments_exact [OF bytewise.user_key_order_axioms,
        of "[\<lparr>sp_start = [1], sp_end = [9], sp_seq = 4\<rparr>, \<lparr>sp_start = [4], sp_end = [6], sp_seq = 7\<rparr>]"
          "Some [2]" None "[5]" 6]
    by (simp only: if_True)
qed



text \<open>
  C23. Compaction's rebuild keeps the mask: exploding well-formed fragments into spans and
  fragmenting those again over a job interval answers every lookup inside the interval as the
  original fragments did.
\<close>

theorem refragment_preserves:
  assumes "user_key_order cmp" and "frags_wf cmp fs" and "in_bounds cmp lower upper key"
  shows "covering_seq_in cmp (fragment_spans cmp (spans_of_fragments fs) lower upper) key read_seq =
    covering_seq_in cmp fs key read_seq"
  using user_key_order.covering_seq_in_fragments [OF assms(1)]
    user_key_order.max_covering_fragments [OF assms(1,2)] assms(3) by simp

theorem refragment_preserves_witness:
  "covering_seq_in (compare Bytewise) (fragment_spans (compare Bytewise)
     (spans_of_fragments [\<lparr>fr_start = [4], fr_end = [6], fr_seqs = [7, 2]\<rparr>]) None (Some [9])) [5] 9 = Some 7"
proof -
  have h: "frags_wf (compare Bytewise) [\<lparr>fr_start = [4], fr_end = [6], fr_seqs = [7, 2]\<rparr>]"
    "in_bounds (compare Bytewise) None (Some [9]) [5]"
    "covering_seq_in (compare Bytewise) [\<lparr>fr_start = [4], fr_end = [6], fr_seqs = [7, 2]\<rparr>] [5] 9 = Some 7"
    by code_simp+
  from refragment_preserves [OF bytewise.user_key_order_axioms h(1,2), of 9] h(3) show ?thesis
    by (simp only:)
qed

text \<open>
  C24. The section codec: every list of fragments with non-empty, strictly descending stacks
  (lengths below \<open>2^64\<close>) is read back from its encoding, and conversely decoding arbitrary
  bytes never panics and only ever accepts fragments with such stacks, which the early exit
  of the visibility test relies on.
\<close>

theorem fragment_codec:
  assumes "\<forall>f\<in>set fs. encodable f" and "length fs < 2 ^ 64"
  shows "decode_fragments (encode_fragments fs) = Inr fs \<and> decode_fragments p \<noteq> Inl Panic \<and>
    (\<forall>gs. decode_fragments p = Inr gs \<longrightarrow> (\<forall>g\<in>set gs. fr_seqs g \<noteq> [] \<and> sorted_wrt (>) (fr_seqs g)))"
proof -
  have "\<forall>g\<in>set gs. fr_seqs g \<noteq> [] \<and> sorted_wrt (>) (fr_seqs g)" if "decode_fragments p = Inr gs" for gs
    using that decode_fragment_loop_ok
    by (fastforce simp: decode_fragments_def rbind_Inr_iff split: if_splits)
  with decode_encode_fragments [OF assms] decode_fragments_no_panic show ?thesis by blast
qed

theorem fragment_codec_witness:
  "decode_fragments (encode_fragments [\<lparr>fr_start = [4], fr_end = [6], fr_seqs = [7, 2]\<rparr>]) =
     Inr [\<lparr>fr_start = [4], fr_end = [6], fr_seqs = [7, 2]\<rparr>]"
  using fragment_codec [of "[\<lparr>fr_start = [4], fr_end = [6], fr_seqs = [7, 2]\<rparr>]" "[]"]
  by (simp add: encodable_def)

end
