(* ===== verification/Index_Heap.thy ===== *)
theory Index_Heap
  imports Prelude "HOL-Library.Multiset"
begin

text \<open>
  The binary heap of cursor indices that the k-way merges of \<open>src/src/memtable.rs\<close> and
  \<open>src/src/iterator.rs\<close> keep: sifting one index down, building the heap from the valid
  cursors, and restoring it after the top cursor moved. The comparison is the merge's
  \<open>before\<close>.

  The lemmas show that sifting is a permutation that restores the heap, whatever index it
  starts from, and that the first index of a heap is minimal.
\<close>

section \<open>Operations\<close>

function heap_down :: "(nat \<Rightarrow> nat \<Rightarrow> bool) \<Rightarrow> nat \<Rightarrow> nat list \<Rightarrow> nat list" where
  "heap_down before i h =
     (let n = length h;
          l = 2 * i + 1;
          r = 2 * i + 2;
          best = (if l < n \<and> before (h ! l) (h ! i) then l else i);
          best = (if r < n \<and> before (h ! r) (h ! best) then r else best)
      in if best = i then h
         else heap_down before best (h[i := h ! best, best := h ! i]))"
  by pat_completeness auto

termination
  by (relation "measure (\<lambda>(_, i, h). length h - i)") (auto simp: Let_def split: if_splits)

declare heap_down.simps [simp del]

text \<open>The loop \<open>for i in (0..heap.len() / 2).rev()\<close>, which a single cursor skips.\<close>

definition heapify :: "(nat \<Rightarrow> nat \<Rightarrow> bool) \<Rightarrow> nat list \<Rightarrow> nat list" where
  "heapify before h =
     (if length h > 1 then fold (heap_down before) (rev [0..<length h div 2]) h else h)"

text \<open>The first index after its cursor moved: it leaves the heap when the cursor ran out.\<close>

definition settle :: "(nat \<Rightarrow> nat \<Rightarrow> bool) \<Rightarrow> bool \<Rightarrow> nat list \<Rightarrow> nat list" where
  "settle before still_valid h =
     (let h = (if still_valid then h else butlast (h[0 := h ! (length h - 1)]))
      in if h = [] then h else heap_down before 0 h)"

section \<open>Permutation\<close>

lemma mset_swap_nth:
  assumes "i < length h" and "j < length h"
  shows "mset (h[i := h ! j, j := h ! i]) = mset h"
  using mset_swap [OF assms] by (cases "i = j") (simp_all add: list_update_swap)

lemma mset_heap_down [simp]: "mset (heap_down before i h) = mset h"
proof (induction before i h rule: heap_down.induct)
  case (1 before i h)
  then show ?case
    by (subst heap_down.simps) (auto simp: Let_def mset_swap_nth)
qed

lemma length_heap_down [simp]: "length (heap_down before i h) = length h"
  by (metis mset_heap_down size_mset)

lemma set_heap_down [simp]: "set (heap_down before i h) = set h"
  by (metis mset_heap_down set_mset_mset)

lemma mset_heapify [simp]: "mset (heapify before h) = mset h"
proof -
  have "mset (fold (heap_down before) is h) = mset h" for "is"
    by (induction "is" arbitrary: h) simp_all
  then show ?thesis by (simp add: heapify_def)
qed

lemma set_heapify [simp]: "set (heapify before h) = set h"
  by (metis mset_heapify set_mset_mset)

lemma distinct_heapify [simp]: "distinct (heapify before h) \<longleftrightarrow> distinct h"
  by (metis mset_heapify mset_eq_imp_distinct_iff)

lemma mset_settle:
  assumes "h \<noteq> []"
  shows "mset (settle before v h) = (if v then mset h else mset h - {#h ! 0#})"
proof (cases v)
  case True
  then show ?thesis using assms by (simp add: settle_def)
next
  case False
  obtain x t where h: "h = x # t" using assms by (cases h) auto
  have "mset (butlast (h[0 := h ! (length h - 1)])) = mset t"
  proof (cases "t = []")
    case False
    then have "butlast (h[0 := h ! (length h - 1)]) = last t # butlast t"
      by (simp add: h last_conv_nth)
    moreover have "mset t = mset (butlast t @ [last t])" using False by simp
    ultimately show ?thesis by (simp del: append_butlast_last_id)
  qed (simp add: h)
  with False show ?thesis
    by (auto simp: settle_def Let_def h simp del: butlast.simps)
qed

lemma set_settle:
  assumes "h \<noteq> []" and "distinct h"
  shows "set (settle before v h) = (if v then set h else set h - {h ! 0})"
    and "distinct (settle before v h)"
proof -
  obtain x t where h: "h = x # t" using assms(1) by (cases h) auto
  have m: "mset (settle before v h) = mset (if v then h else t)"
    using mset_settle [OF assms(1)] by (simp add: h)
  from m [THEN mset_eq_setD] assms(2)
  show "set (settle before v h) = (if v then set h else set h - {h ! 0})"
    by (auto simp: h)
  from m assms(2) show "distinct (settle before v h)"
    by (metis h distinct.simps(2) mset_eq_imp_distinct_iff)
qed

section \<open>Order\<close>

definition parent :: "nat \<Rightarrow> nat" where "parent j = (j - 1) div 2"

definition heap_from :: "(nat \<Rightarrow> nat \<Rightarrow> bool) \<Rightarrow> nat \<Rightarrow> nat list \<Rightarrow> bool" where
  "heap_from before lo h \<longleftrightarrow>
     (\<forall>j < length h. 0 < j \<longrightarrow> lo \<le> parent j \<longrightarrow> \<not> before (h ! j) (h ! parent j))"

text \<open>Every edge is in order but those below \<open>i\<close>, whose children are below its parent.\<close>

definition heap_but :: "(nat \<Rightarrow> nat \<Rightarrow> bool) \<Rightarrow> nat \<Rightarrow> nat \<Rightarrow> nat list \<Rightarrow> bool" where
  "heap_but before lo i h \<longleftrightarrow>
     (\<forall>j < length h. 0 < j \<longrightarrow> lo \<le> parent j \<longrightarrow> parent j \<noteq> i \<longrightarrow> \<not> before (h ! j) (h ! parent j))
     \<and> (\<forall>j < length h. 0 < j \<longrightarrow> parent j = i \<longrightarrow> 0 < i \<longrightarrow> lo \<le> parent i \<longrightarrow>
          \<not> before (h ! j) (h ! parent i))"

lemma parent_iff: "0 < j \<Longrightarrow> parent j = i \<longleftrightarrow> j = 2 * i + 1 \<or> j = 2 * i + 2"
  unfolding parent_def by presburger

lemma parent_less: "0 < j \<Longrightarrow> parent j < j"
  by (simp add: parent_def)

text \<open>
  What a merge promises of \<open>before\<close> on the cursors it keeps: a strict weak order.
\<close>

locale heap_order =
  fixes before :: "nat \<Rightarrow> nat \<Rightarrow> bool" and valid :: "nat set"
  assumes asym: "x \<in> valid \<Longrightarrow> y \<in> valid \<Longrightarrow> before x y \<Longrightarrow> \<not> before y x"
    and neg_trans: "x \<in> valid \<Longrightarrow> y \<in> valid \<Longrightarrow> z \<in> valid \<Longrightarrow>
      \<not> before x y \<Longrightarrow> \<not> before y z \<Longrightarrow> \<not> before x z"
begin

lemma before_trans:
  "x \<in> valid \<Longrightarrow> y \<in> valid \<Longrightarrow> z \<in> valid \<Longrightarrow> before x y \<Longrightarrow> before y z \<Longrightarrow> before x z"
  using asym neg_trans by metis

lemma heap_but_swap:
  assumes b: "b < length h" "0 < b" "parent b = i" and i: "lo \<le> i"
    and h: "set h \<subseteq> valid" "heap_but before lo i h"
    and better: "before (h ! b) (h ! i)"
    and best: "\<forall>j < length h. 0 < j \<longrightarrow> parent j = i \<longrightarrow> \<not> before (h ! j) (h ! b)"
  shows "heap_but before lo b (h[i := h ! b, b := h ! i])"
proof -
  let ?h = "h[i := h ! b, b := h ! i]"
  have ib: "i < b" using b parent_less by blast
  have in_valid: "h ! j \<in> valid" if "j < length h" for j
    using h(1) that nth_mem by blast
  have nth: "?h ! j = (if j = b then h ! i else if j = i then h ! b else h ! j)" if "j < length h" for j
    using that b(1) ib by simp
  have edges: "\<not> before (?h ! j) (?h ! parent j)"
    if j: "j < length h" "0 < j" "lo \<le> parent j" "parent j \<noteq> b" for j
  proof (cases "parent j = i")
    case True
    then show ?thesis
      using asym [OF in_valid in_valid better] best j b(1) ib parent_less [OF j(2)]
      by (auto simp: nth nth_list_update)
  next
    case False
    then have "j \<noteq> b" using b by blast
    moreover have "parent j < length h" using j parent_less order_less_trans by blast
    ultimately have "?h ! j = (if j = i then h ! b else h ! j)" "?h ! parent j = h ! parent j"
      using False j by (simp_all add: nth)
    then show ?thesis
      using False h(2) j b unfolding heap_but_def by (metis (full_types))
  qed
  have "\<not> before (?h ! j) (?h ! parent b)" if "j < length h" "0 < j" "parent j = b" for j
  proof -
    have "j \<noteq> b" "j \<noteq> i" using that parent_less [of j] ib by auto
    then have "?h ! j = h ! j" "?h ! parent b = h ! b" using that b ib by (simp_all add: nth)
    then show ?thesis
      using that h(2) b i ib unfolding heap_but_def by (metis less_or_eq_imp_le order_trans nat_neq_iff)
  qed
  with edges show ?thesis
    by (simp add: heap_but_def)
qed

lemma heap_down_from:
  assumes "heap_but before lo i h" and "lo \<le> i" and "set h \<subseteq> valid"
  shows "heap_from before lo (heap_down before i h)"
  using assms
proof (induction "length h - i" arbitrary: i h rule: less_induct)
  case less
  define l r where "l = 2 * i + 1" and "r = 2 * i + 2"
  define b1 where "b1 = (if l < length h \<and> before (h ! l) (h ! i) then l else i)"
  define b where "b = (if r < length h \<and> before (h ! r) (h ! b1) then r else b1)"
  have down: "heap_down before i h =
      (if b = i then h else heap_down before b (h[i := h ! b, b := h ! i]))"
    by (subst heap_down.simps) (simp add: Let_def b_def b1_def l_def r_def)
  have in_valid: "h ! j \<in> valid" if "j < length h" for j
    using less.prems(3) that nth_mem by blast
  have children: "parent j = i \<longleftrightarrow> j = l \<or> j = r" if "0 < j" for j
    using parent_iff [OF that] by (simp add: l_def r_def)
  have lr: "i < l" "l < r" by (simp_all add: l_def r_def)
  have irrefl: "\<not> before (h ! j) (h ! j)" if "j < length h" for j
    using asym in_valid [OF that] by blast
  have asym': "\<not> before (h ! k) (h ! j)" if "j < length h" "k < length h" "before (h ! j) (h ! k)" for j k
    using asym in_valid [OF that(1)] in_valid [OF that(2)] that(3) by blast
  have trans': "before (h ! j) (h ! m)"
    if "j < length h" "k < length h" "m < length h" "before (h ! j) (h ! k)" "before (h ! k) (h ! m)" for j k m
    using before_trans in_valid that by blast
  show ?case
  proof (cases "b = i")
    case True
    then have "\<not> before (h ! j) (h ! i)" if "j < length h" "0 < j" "parent j = i" for j
      using that lr children by (auto simp: b_def b1_def split: if_splits)
    with True less.prems(1) show ?thesis
      unfolding down by (auto simp: heap_but_def heap_from_def)
  next
    case False
    then consider (left) "b = l" "b1 = l" "\<not> (r < length h \<and> before (h ! r) (h ! l))"
      | (right_l) "b = r" "b1 = l" "r < length h" "before (h ! r) (h ! l)"
      | (right) "b = r" "b1 = i" "r < length h" "before (h ! r) (h ! i)"
      unfolding b_def b1_def by (cases "l < length h \<and> before (h ! l) (h ! i)") (simp_all split: if_splits)
    then have b: "b < length h \<and> 0 < b \<and> parent b = i \<and> before (h ! b) (h ! i) \<and>
        (b = l \<or> \<not> (l < length h \<and> before (h ! l) (h ! b))) \<and>
        (b = r \<or> \<not> (r < length h \<and> before (h ! r) (h ! b)))"
    proof cases
      case left
      then have "l < length h" "before (h ! l) (h ! i)" using lr by (auto simp: b1_def split: if_splits)
      with left(1,3) lr children [of l] show ?thesis by simp
    next
      case right_l
      then have "l < length h" "before (h ! l) (h ! i)" using lr by (auto simp: b1_def split: if_splits)
      with right_l lr children [of r] trans' [of r l i] asym' [of r l] show ?thesis by simp
    next
      case right
      then have "\<not> (l < length h \<and> before (h ! l) (h ! i))" using lr by (auto simp: b1_def)
      with right lr children [of r] trans' [of l r i] show ?thesis by auto
    qed
    then have "\<forall>j < length h. 0 < j \<longrightarrow> parent j = i \<longrightarrow> \<not> before (h ! j) (h ! b)"
      using children irrefl by auto
    with b less.prems have but: "heap_but before lo b (h[i := h ! b, b := h ! i])"
      by (intro heap_but_swap) simp_all
    have "i < b" using b parent_less by blast
    moreover have "set (h[i := h ! b, b := h ! i]) \<subseteq> valid"
      using mset_swap_nth [of i h b] \<open>i < b\<close> b less.prems(3)
      by (metis order_less_trans set_mset_mset)
    moreover have "length (h[i := h ! b, b := h ! i]) - b < length h - i"
      using \<open>i < b\<close> b by (simp add: diff_less_mono2)
    ultimately show ?thesis
      unfolding down if_not_P [OF False] using but less.prems(2) by (intro less.hyps) simp_all
  qed
qed

lemma heap_from_mono: "heap_from before lo h \<Longrightarrow> lo \<le> lo' \<Longrightarrow> heap_from before lo' h"
  by (auto simp: heap_from_def)

lemma heap_but_lower: "heap_from before (Suc lo) h \<Longrightarrow> heap_but before lo lo h"
  using parent_less [of lo] by (force simp: heap_from_def heap_but_def)

lemma heapify_heap: "set h \<subseteq> valid \<Longrightarrow> heap_from before 0 (heapify before h)"
proof -
  assume h: "set h \<subseteq> valid"
  have loop: "heap_from before 0 (fold (heap_down before) (rev [0..<n]) g)"
    if "heap_from before n g" "set g \<subseteq> valid" for n g
    using that
  proof (induction n arbitrary: g)
    case (Suc n)
    have "heap_from before n (heap_down before n g)"
      using heap_down_from [OF heap_but_lower [OF Suc.prems(1)]] Suc.prems(2) by simp
    with Suc.IH Suc.prems(2) show ?case by simp
  qed simp
  have "heap_from before (length h div 2) h"
    by (auto simp: heap_from_def parent_def)
  with loop h show ?thesis
    by (cases "length h > 1") (auto simp: heapify_def heap_from_def)
qed

lemma heap_top:
  assumes "heap_from before 0 h" and "set h \<subseteq> valid" and "j < length h"
  shows "\<not> before (h ! j) (h ! 0)"
  using assms(3)
proof (induction j rule: less_induct)
  case (less j)
  show ?case
  proof (cases "j = 0")
    case True
    then show ?thesis using asym assms(2) less.prems nth_mem by blast
  next
    case False
    then have "parent j < j" by (simp add: parent_less)
    with less have "\<not> before (h ! parent j) (h ! 0)" by simp
    moreover have "\<not> before (h ! j) (h ! parent j)"
      using assms(1) False less.prems by (simp add: heap_from_def)
    moreover have "0 < length h" "parent j < length h"
      using \<open>parent j < j\<close> less.prems by linarith+
    ultimately show ?thesis
      using neg_trans less.prems assms(2) nth_mem by (metis subsetD)
  qed
qed

lemma heap_top_min:
  assumes "heap_from before 0 h" and "set h \<subseteq> valid" and "x \<in> set h"
  shows "\<not> before x (h ! 0)"
  using assms heap_top by (metis in_set_conv_nth)

lemma settle_heap:
  assumes h: "heap_from before0 0 h" "distinct h" "h \<noteq> []"
    and same: "\<forall>x \<in> set h - {h ! 0}. \<forall>y \<in> set h - {h ! 0}. before x y = before0 x y"
    and still: "set (settle before v h) \<subseteq> valid"
  shows "heap_from before 0 (settle before v h)"
proof -
  define g where "g = (if v then h else butlast (h[0 := h ! (length h - 1)]))"
  have g: "settle before v h = (if g = [] then [] else heap_down before 0 g)"
    by (simp add: settle_def g_def Let_def)
  have "heap_but before 0 0 g"
    unfolding heap_but_def
  proof (intro conjI allI impI)
    fix j assume j: "j < length g" "0 < j" "parent j \<noteq> 0"
    then have "parent j < j" by (simp add: parent_less)
    with j have len: "j < length h" "parent j < length h"
      by (auto simp: g_def split: if_splits)
    have nth: "g ! j = h ! j" "g ! parent j = h ! parent j"
      using j \<open>parent j < j\<close> by (auto simp: g_def nth_butlast split: if_splits)
    have "h ! j \<in> set h - {h ! 0}" "h ! parent j \<in> set h - {h ! 0}"
      using len j h(2,3) by (simp_all add: nth_eq_iff_index_eq)
    with same have "before (h ! j) (h ! parent j) = before0 (h ! j) (h ! parent j)" by blast
    with h(1) len j nth show "\<not> before (g ! j) (g ! parent j)"
      by (simp add: heap_from_def)
  qed simp
  moreover have "g \<noteq> [] \<Longrightarrow> set g \<subseteq> valid" using still by (simp add: g)
  ultimately show ?thesis
    using heap_down_from [of 0 0 g] by (cases "g = []") (simp_all add: g heap_from_def)
qed

end

end
