(* ===== verification/Internal_Order.thy ===== *)
theory Internal_Order
  imports Format Index_Heap
begin

text \<open>
  Versioned entries and the order every merge uses: user key ascending under the column
  family's comparator, sequence number descending. Holds the \<open>Entry\<close> record and the
  internal key of \<open>src/src/memtable.rs\<close> and the 8-byte prefix comparison of
  \<open>src/src/sst/iter.rs\<close>.

  An \<open>IKey\<close> holds the bytes of \<^const>\<open>make_internal_key\<close>, and every reader splits them
  again, which gives the user key and the sequence number back (theory \<open>Format\<close>); the model
  keeps that pair. The lemmas show that the order is total when the comparator is, that the
  prefix shortcut never changes a comparison, and what one step of a k-way merge of sorted
  runs takes away.
\<close>

section \<open>Entries\<close>

record entry =
  e_key :: bytes
  e_value :: bytes
  e_seq :: u64
  e_ttl :: i64
  e_kind :: u64

definition entry_tombstone :: "entry \<Rightarrow> bool" where
  "entry_tombstone e \<longleftrightarrow> e_kind e = KIND_DELETE \<or> e_kind e = KIND_SINGLE_DELETE"

definition entry_single_delete :: "entry \<Rightarrow> bool" where
  "entry_single_delete e \<longleftrightarrow> e_kind e = KIND_SINGLE_DELETE"

definition entry_is_merge :: "entry \<Rightarrow> bool" where
  "entry_is_merge e \<longleftrightarrow> e_kind e = KIND_MERGE"

text \<open>\<open>std::ops::Bound\<close>\<close>

datatype 'a bound = Included 'a | Excluded 'a | Unbounded

type_synonym ikey = "bytes \<times> u64"

definition entry_ikey :: "entry \<Rightarrow> ikey" where
  "entry_ikey e = (e_key e, e_seq e)"

section \<open>Comparisons\<close>

definition ikey_cmp :: "comparator \<Rightarrow> ikey \<Rightarrow> ikey \<Rightarrow> ordering" where
  "ikey_cmp c a b =
     then_with (if is_bytewise c then slice_cmp (fst a) (fst b) else compare c (fst a) (fst b))
       (ord_cmp (snd b) (snd a))"

definition key_prefix8 :: "bytes \<Rightarrow> u64" where
  "key_prefix8 k =
     (let n = min (length k) 8 in from_be_bytes (take n k @ replicate (8 - n) 0))"

text \<open>The user-key comparison of the merges: prefixes first when the order is bytewise.\<close>

definition merge_key_cmp :: "comparator \<Rightarrow> bytes \<Rightarrow> bytes \<Rightarrow> ordering" where
  "merge_key_cmp c a b =
     (if is_bytewise c
      then case ord_cmp (key_prefix8 a) (key_prefix8 b) of
             Equal \<Rightarrow> slice_cmp a b
           | other \<Rightarrow> other
      else compare c a b)"

section \<open>Lemmas on the comparisons\<close>

lemma is_bytewise_compare: "is_bytewise c \<Longrightarrow> compare c a b = slice_cmp a b"
  by (cases c) simp_all

lemma ikey_cmp_eq: "ikey_cmp c a b = then_with (compare c (fst a) (fst b)) (ord_cmp (snd b) (snd a))"
  by (simp add: ikey_cmp_def is_bytewise_compare)

lemma key_order_ikey_cmp:
  assumes "user_key_order (compare c)"
  shows "key_order (ikey_cmp c)"
proof -
  have "key_order (\<lambda>a b :: u64. ord_cmp b a)"
    by (rule key_order_reverse [OF key_order_ord_cmp])
  moreover have "key_order (compare c)"
    using assms by (rule user_key_order.axioms)
  ultimately have "key_order (\<lambda>a b :: ikey. then_with (compare c (fst a) (fst b)) (ord_cmp (snd b) (snd a)))"
    by (intro key_order_then_with [where d = "\<lambda>a b. ord_cmp b a"]) (auto simp: prod_eq_iff)
  then show ?thesis by (simp add: ikey_cmp_eq [abs_def])
qed

text \<open>Padding two keys with zeros never reverses their order.\<close>

lemma slice_cmp_pad:
  "slice_cmp (take n a @ replicate (n - length a) 0) (take n b @ replicate (n - length b) (0 :: u8))
     \<in> {Equal, slice_cmp a b}"
proof (induction n arbitrary: a b)
  case (Suc n)
  show ?case
  proof (cases a)
    case Nil
    then show ?thesis using Suc.IH [of "[]" "tl b"]
      by (cases b) (auto simp: slice_cmp_Nil ord_cmp_def then_with_def split: if_splits)
  next
    case (Cons x xs)
    then show ?thesis using Suc.IH [of xs "tl b"]
      by (cases b) (auto simp: slice_cmp_Nil ord_cmp_def then_with_def split: if_splits)
  qed
qed simp

lemma key_prefix8_cmp:
  "ord_cmp (key_prefix8 a) (key_prefix8 b) \<in> {Equal, slice_cmp a b}"
proof -
  let ?pad = "\<lambda>k :: bytes. take 8 k @ replicate (8 - length k) 0"
  have len: "length (?pad k) = 8" for k by simp
  have p: "key_prefix8 k = of_nat (be_nat (?pad k))" for k
    by (simp add: key_prefix8_def Let_def from_be_bytes_eq min_def)
  have u: "unat (key_prefix8 k) = be_nat (?pad k)" for k
    using be_nat_less [of "?pad k"] by (simp only: p len) (simp add: unat_of_nat)
  have "ord_cmp (key_prefix8 a) (key_prefix8 b) = slice_cmp (?pad a) (?pad b)"
    by (subst be_nat_slice_cmp) (simp_all add: ord_cmp_def word_less_nat_alt u)
  with slice_cmp_pad [of 8 a b] show ?thesis by simp
qed

lemma merge_key_cmp_eq: "merge_key_cmp c a b = compare c a b"
  using key_prefix8_cmp [of a b]
  by (auto simp: merge_key_cmp_def is_bytewise_compare split: ordering.split)

section \<open>Merging sorted runs\<close>

text \<open>
  Comparing cursors by the key they stand on is a strict weak order on any set of cursors,
  so a total key order provides what the heap relies on.
\<close>

sublocale key_order \<subseteq> cursors: heap_order "\<lambda>i j. is_lt (cmp (f i) (f j))" A
  for f :: "nat \<Rightarrow> 'a" and A
proof
  fix x y z
  show "is_lt (cmp (f x) (f y)) \<Longrightarrow> \<not> is_lt (cmp (f y) (f x))"
    by (simp add: key.not_less key.less_imp_le)
  show "\<not> is_lt (cmp (f x) (f y)) \<Longrightarrow> \<not> is_lt (cmp (f y) (f z)) \<Longrightarrow> \<not> is_lt (cmp (f x) (f z))"
    by (auto simp: key.not_less intro: key.order_trans)
qed

context key_order
begin

abbreviation (input) sorted_on :: "('e \<Rightarrow> 'a) \<Rightarrow> 'e list \<Rightarrow> bool" where
  "sorted_on f \<equiv> sorted_wrt (\<lambda>a b. is_lt (cmp (f a) (f b)))"

lemma sorted_on_inj:
  assumes "sorted_on f xs" and "x \<in> set xs" and "y \<in> set xs" and "f x = f y"
  shows "x = y"
  using assms by (induction xs) auto

lemma sorted_on_hd:
  assumes "sorted_on f xs" and "y \<in> set xs"
  shows "is_le (cmp (f (hd xs)) (f y))"
  using assms by (cases xs) (auto simp: key.less_imp_le)

lemma sorted_on_unique:
  assumes "sorted_on f xs" and "sorted_on f ys" and "set xs = set ys"
  shows "xs = ys"
  using assms
proof (induction xs arbitrary: ys)
  case (Cons x xs)
  then obtain y zs where ys: "ys = y # zs" by (cases ys) auto
  have "is_le (cmp (f x) (f y))" "is_le (cmp (f y) (f x))"
    using sorted_on_hd [OF Cons.prems(1), of y] sorted_on_hd [OF Cons.prems(2), of x] Cons.prems(3) ys
    by auto
  then have "f x = f y" by (rule key.order_antisym)
  then have xy: "x = y"
    using sorted_on_inj [OF Cons.prems(1), of x y] Cons.prems(3) ys by auto
  have "x \<notin> set xs" "y \<notin> set zs"
    using Cons.prems(1,2) ys by auto
  with Cons.prems ys xy have "set xs = set zs" by auto
  with Cons ys xy show ?case by simp
qed simp

text \<open>The smallest head of the runs is the head of the merged list, and it leaves one run.\<close>

lemma kway_top:
  assumes M: "sorted_on f M" "set M = \<Union> (set (map set R))"
    and R: "\<forall>r \<in> set R. sorted_on f r"
    and i: "i < length R" "R ! i = x # t"
    and min: "\<forall>r \<in> set R. r \<noteq> [] \<longrightarrow> is_le (cmp (f x) (f (hd r)))"
  shows "M = x # tl M"
proof -
  have x: "x \<in> set M" using i M(2) nth_mem [OF i(1)] by force
  then obtain m ms where m: "M = m # ms" by (cases M) auto
  then obtain r where r: "r \<in> set R" "m \<in> set r" using M(2) by auto
  then have "is_le (cmp (f x) (f (hd r)))" "is_le (cmp (f (hd r)) (f m))"
    using min R sorted_on_hd [of f r m] by (auto simp del: sorted_wrt.simps)
  moreover have "is_le (cmp (f m) (f x))"
    using sorted_on_hd [OF M(1) x] m by simp
  ultimately have "f x = f m" using key.order_trans key.order_antisym by blast
  then show ?thesis using sorted_on_inj [OF M(1) x, of m] m by simp
qed

lemma kway_step:
  assumes M: "sorted_on f M" "set M = \<Union> (set (map set R))" "M = x # M'"
    and R: "\<forall>r \<in> set R. sorted_on f r"
    and disj: "\<forall>i < length R. \<forall>j < length R. i \<noteq> j \<longrightarrow> set (R ! i) \<inter> set (R ! j) = {}"
    and i: "i < length R" "R ! i = x # t"
  shows "sorted_on f M'" and "set M' = \<Union> (set (map set (R[i := t])))"
proof -
  show "sorted_on f M'" using M by simp
  have xM: "x \<notin> set M'" using M(1,3) by auto
  have xt: "x \<notin> set t" using R i nth_mem [OF i(1)] by fastforce
  have U: "\<Union> (set (map set Q)) = (\<Union>j < length Q. set (Q ! j))" for Q :: "'e list list"
    unfolding set_map by (auto simp: in_set_conv_nth Bex_def) (metis nth_mem)+
  have "x \<notin> set (R[i := t] ! j)" if "j < length R" for j
    using that i disj xt by (cases "j = i") auto
  then have "x \<notin> (\<Union>j < length R. set (R[i := t] ! j))" by blast
  moreover have "(\<Union>j < length R. set (R ! j)) = insert x (\<Union>j < length R. set (R[i := t] ! j))"
  proof (intro equalityI subsetI)
    fix y assume "y \<in> (\<Union>j < length R. set (R ! j))"
    then obtain j where "j < length R" "y \<in> set (R ! j)" by blast
    then show "y \<in> insert x (\<Union>j < length R. set (R[i := t] ! j))"
      using i by (cases "j = i") (auto intro!: bexI [of _ j])
  next
    fix y assume "y \<in> insert x (\<Union>j < length R. set (R[i := t] ! j))"
    then consider "y = x" | j where "j < length R" "y \<in> set (R[i := t] ! j)" by blast
    then show "y \<in> (\<Union>j < length R. set (R ! j))"
    proof cases
      case 1
      then show ?thesis using i by (intro UN_I [of i]) simp_all
    next
      case (2 j)
      then have "y \<in> set (R ! j)" using i by (cases "j = i") simp_all
      with 2 show ?thesis by blast
    qed
  qed
  ultimately have "(\<Union>j < length R. set (R[i := t] ! j)) = (\<Union>j < length R. set (R ! j)) - {x}"
    by blast
  then show "set M' = \<Union> (set (map set (R[i := t])))"
    using M xM unfolding U by auto
qed

end

end
