(* ===== verification/Memtable.thy ===== *)
theory Memtable
  imports Internal_Order Range_Tombstone
begin

unbundle bit_operations_syntax

text \<open>
  The sharded MVCC write buffer of \<open>src/src/memtable.rs\<close> (default build): the per-shard
  ordered maps, the word-granular filter in front of them, single and batched inserts, point
  reads, version chains and the materialised snapshot.

  The ordered map of a shard is \<open>crossbeam_skiplist::SkipMap\<close>, which is not part of this
  code base: its operations are the parameter \<open>ops\<close> and the locale \<open>skip_map\<close> states what
  its documentation promises. The hash \<open>xxh3_64\<close> is the parameter \<open>hash\<close>. Operations
  run one after the other; the counters are the values the atomics hold.
\<close>

section \<open>The ordered map of a shard\<close>

record val =
  v_value :: bytes
  v_ttl :: i64
  v_flags :: u8
  v_kind :: u8

record 'm skip_ops =
  sk_new :: 'm
  sk_insert :: "(ikey \<Rightarrow> ikey \<Rightarrow> ordering) \<Rightarrow> ikey \<Rightarrow> val \<Rightarrow> 'm \<Rightarrow> 'm"
  sk_lower_bound :: "(ikey \<Rightarrow> ikey \<Rightarrow> ordering) \<Rightarrow> ikey bound \<Rightarrow> 'm \<Rightarrow> (ikey \<times> val) option"
  sk_upper_bound :: "(ikey \<Rightarrow> ikey \<Rightarrow> ordering) \<Rightarrow> ikey bound \<Rightarrow> 'm \<Rightarrow> (ikey \<times> val) option"
  sk_front :: "'m \<Rightarrow> (ikey \<times> val) option"
  sk_back :: "'m \<Rightarrow> (ikey \<times> val) option"
  sk_next :: "(ikey \<Rightarrow> ikey \<Rightarrow> ordering) \<Rightarrow> ikey \<Rightarrow> 'm \<Rightarrow> (ikey \<times> val) option"
  sk_prev :: "(ikey \<Rightarrow> ikey \<Rightarrow> ordering) \<Rightarrow> ikey \<Rightarrow> 'm \<Rightarrow> (ikey \<times> val) option"
  sk_iter :: "'m \<Rightarrow> (ikey \<times> val) list"

text \<open>The contents after an insert: in key order, an equal key replaced.\<close>

fun ordered_put :: "('k \<Rightarrow> 'k \<Rightarrow> ordering) \<Rightarrow> 'k \<Rightarrow> 'v \<Rightarrow> ('k \<times> 'v) list \<Rightarrow> ('k \<times> 'v) list" where
  "ordered_put cmp k v [] = [(k, v)]"
| "ordered_put cmp k v ((k', v') # xs) =
     (case cmp k k' of
        Less \<Rightarrow> (k, v) # (k', v') # xs
      | Equal \<Rightarrow> (k, v) # xs
      | Greater \<Rightarrow> (k', v') # ordered_put cmp k v xs)"

definition above_bound :: "('k \<Rightarrow> 'k \<Rightarrow> ordering) \<Rightarrow> 'k bound \<Rightarrow> 'k \<Rightarrow> bool" where
  "above_bound cmp b k = (case b of
     Included p \<Rightarrow> is_ge (cmp k p) | Excluded p \<Rightarrow> is_gt (cmp k p) | Unbounded \<Rightarrow> True)"

definition below_bound :: "('k \<Rightarrow> 'k \<Rightarrow> ordering) \<Rightarrow> 'k bound \<Rightarrow> 'k \<Rightarrow> bool" where
  "below_bound cmp b k = (case b of
     Included p \<Rightarrow> is_le (cmp k p) | Excluded p \<Rightarrow> is_lt (cmp k p) | Unbounded \<Rightarrow> True)"

abbreviation in_key_order :: "('k \<Rightarrow> 'k \<Rightarrow> ordering) \<Rightarrow> ('k \<times> 'v) list \<Rightarrow> bool" where
  "in_key_order cmp \<equiv> sorted_wrt (\<lambda>a b. is_lt (cmp (fst a) (fst b)))"

locale skip_map =
  fixes ops :: "'m skip_ops" and cmp :: "ikey \<Rightarrow> ikey \<Rightarrow> ordering"
  assumes iter_new: "sk_iter ops (sk_new ops) = []"
    and iter_insert: "in_key_order cmp (sk_iter ops m) \<Longrightarrow>
      sk_iter ops (sk_insert ops cmp k v m) = ordered_put cmp k v (sk_iter ops m)"
    and lower_bound: "in_key_order cmp (sk_iter ops m) \<Longrightarrow>
      sk_lower_bound ops cmp b m = find (\<lambda>e. above_bound cmp b (fst e)) (sk_iter ops m)"
    and upper_bound: "in_key_order cmp (sk_iter ops m) \<Longrightarrow>
      sk_upper_bound ops cmp b m = find (\<lambda>e. below_bound cmp b (fst e)) (rev (sk_iter ops m))"
    and front_entry: "sk_front ops m = (case sk_iter ops m of [] \<Rightarrow> None | e # _ \<Rightarrow> Some e)"
    and back_entry: "sk_back ops m = (case rev (sk_iter ops m) of [] \<Rightarrow> None | e # _ \<Rightarrow> Some e)"
    and move_next: "in_key_order cmp (sk_iter ops m) \<Longrightarrow> k \<in> fst ` set (sk_iter ops m) \<Longrightarrow>
      sk_next ops cmp k m = find (\<lambda>e. above_bound cmp (Excluded k) (fst e)) (sk_iter ops m)"
    and move_prev: "in_key_order cmp (sk_iter ops m) \<Longrightarrow> k \<in> fst ` set (sk_iter ops m) \<Longrightarrow>
      sk_prev ops cmp k m = find (\<lambda>e. below_bound cmp (Excluded k) (fst e)) (rev (sk_iter ops m))"

text \<open>An ordered list is such a map.\<close>

definition list_ops :: "(ikey \<times> val) list skip_ops" where
  "list_ops = \<lparr>
     sk_new = [],
     sk_insert = ordered_put,
     sk_lower_bound = (\<lambda>cmp b m. find (\<lambda>e. above_bound cmp b (fst e)) m),
     sk_upper_bound = (\<lambda>cmp b m. find (\<lambda>e. below_bound cmp b (fst e)) (rev m)),
     sk_front = (\<lambda>m. case m of [] \<Rightarrow> None | e # _ \<Rightarrow> Some e),
     sk_back = (\<lambda>m. case rev m of [] \<Rightarrow> None | e # _ \<Rightarrow> Some e),
     sk_next = (\<lambda>cmp k m. find (\<lambda>e. above_bound cmp (Excluded k) (fst e)) m),
     sk_prev = (\<lambda>cmp k m. find (\<lambda>e. below_bound cmp (Excluded k) (fst e)) (rev m)),
     sk_iter = (\<lambda>m. m)\<rparr>"

interpretation list_map: skip_map list_ops cmp for cmp
  by unfold_locales (simp_all add: list_ops_def)

section \<open>The memtable\<close>

definition NUM_SHARDS :: nat where "NUM_SHARDS = 16"
definition FILTER_BITS_PER_KEY :: nat where "FILTER_BITS_PER_KEY = 4"
definition FILTER_WORDS :: nat where "FILTER_WORDS = 2 ^ 16"

text \<open>The filter's words by index; every index is below \<^const>\<open>FILTER_WORDS\<close>.\<close>

type_synonym mem_filter = "nat \<Rightarrow> u64"

record 'm memtable =
  shards :: "'m list"
  mt_cmp :: comparator
  approx_size :: i64
  num_entries :: i64
  max_seq :: u64
  mt_filter :: "mem_filter option"
  mt_ranges :: rt_set

record lookup =
  lk_value :: bytes
  lk_seq :: u64
  lk_found :: bool
  lk_deleted :: bool
  lk_kind :: u64

definition lookup_default :: lookup where
  "lookup_default = \<lparr>lk_value = [], lk_seq = 0, lk_found = False, lk_deleted = False, lk_kind = KIND_PUT\<rparr>"

definition filter_new :: mem_filter where
  "filter_new = (\<lambda>_. 0)"

fun mask_bits :: "nat \<Rightarrow> u64 \<Rightarrow> u64 \<Rightarrow> u64" where
  "mask_bits 0 bits x = bits"
| "mask_bits (Suc n) bits x = mask_bits n (bits OR push_bit (unat (x AND 63)) 1) (drop_bit 6 x)"

definition word_and_mask :: "u64 \<Rightarrow> nat \<times> u64" where
  "word_and_mask h =
     (unat (drop_bit 24 h AND of_nat (FILTER_WORDS - 1)), mask_bits FILTER_BITS_PER_KEY 0 h)"

definition filter_insert :: "u64 \<Rightarrow> mem_filter \<Rightarrow> mem_filter" where
  "filter_insert h words =
     (let (w, bits) = word_and_mask h; cur = words w in
      if cur AND bits \<noteq> bits then words(w := words w OR bits) else words)"

definition filter_may_contain :: "u64 \<Rightarrow> mem_filter \<Rightarrow> bool" where
  "filter_may_contain h words = (let (w, bits) = word_and_mask h in words w AND bits = bits)"

definition shard_of :: "u64 \<Rightarrow> nat" where
  "shard_of h = unat ((h XOR drop_bit 32 h) AND of_nat (NUM_SHARDS - 1))"

definition flag_bits :: "bool \<Rightarrow> bool \<Rightarrow> i64 \<Rightarrow> u8" where
  "flag_bits tombstone single_delete ttl =
     normalized_entry_flags tombstone single_delete (ttl \<noteq> 0) False"

definition flag_bits_for_kind :: "u64 \<Rightarrow> i64 \<Rightarrow> u8" where
  "flag_bits_for_kind kind ttl =
     flag_bits (kind = KIND_DELETE \<or> kind = KIND_SINGLE_DELETE) (kind = KIND_SINGLE_DELETE) ttl"

definition mem_new :: "'m skip_ops \<Rightarrow> comparator \<Rightarrow> 'm memtable" where
  "mem_new ops c =
     \<lparr>shards = replicate NUM_SHARDS (sk_new ops), mt_cmp = c, approx_size = 0, num_entries = 0,
      max_seq = 0, mt_filter = None, mt_ranges = rt_new\<rparr>"

definition add_range :: "bytes \<Rightarrow> bytes \<Rightarrow> u64 \<Rightarrow> 'm memtable \<Rightarrow> 'm memtable" where
  "add_range start end' seq m =
     m\<lparr>mt_ranges := rt_add (compare (mt_cmp m)) start end' seq (mt_ranges m),
       max_seq := max (max_seq m) seq\<rparr>"

definition get_or_init :: "mem_filter option \<Rightarrow> mem_filter" where
  "get_or_init f = (case f of None \<Rightarrow> filter_new | Some w \<Rightarrow> w)"

definition after_insert :: "nat \<Rightarrow> u64 \<Rightarrow> 'm memtable \<Rightarrow> 'm memtable" where
  "after_insert added seq m =
     m\<lparr>approx_size := approx_size m + of_nat added,
       num_entries := num_entries m + 1,
       max_seq := (if seq > max_seq m then seq else max_seq m)\<rparr>"

definition mem_put ::
  "'m skip_ops \<Rightarrow> (bytes \<Rightarrow> u64) \<Rightarrow> bytes \<Rightarrow> bytes \<Rightarrow> u64 \<Rightarrow> i64 \<Rightarrow> u64 \<Rightarrow> 'm memtable \<Rightarrow> 'm memtable" where
  "mem_put ops hash user_key value seq ttl kind m =
     (let fl = flag_bits_for_kind kind ttl;
          h = hash user_key;
          m = m\<lparr>mt_filter := Some (filter_insert h (get_or_init (mt_filter m)))\<rparr>;
          s = shard_of h;
          added = length user_key + length value + 64;
          shard = sk_insert ops (ikey_cmp (mt_cmp m)) (user_key, seq)
            \<lparr>v_value = value, v_ttl = ttl, v_flags = fl, v_kind = ucast kind\<rparr> (shards m ! s);
          m = m\<lparr>shards := (shards m)[s := shard]\<rparr>
      in after_insert added seq m)"

definition put_ref :: "'m skip_ops \<Rightarrow> (bytes \<Rightarrow> u64) \<Rightarrow> entry \<Rightarrow> 'm memtable \<Rightarrow> 'm memtable" where
  "put_ref ops hash r m =
     mem_put ops hash (e_key r) (e_value r) (e_seq r) (e_ttl r) (e_kind r) m"

section \<open>Batches\<close>

text \<open>
  A batch groups its records by shard with a counting sort of their indices: the number of
  records of each shard, the running start of each shard's run, and every index written to
  the next free slot of its shard's run. Indices and counts are \<open>u32\<close> in the code; a batch
  has fewer than \<open>2 ^ 32\<close> records.
\<close>

definition count_shards :: "nat list \<Rightarrow> nat list" where
  "count_shards idx = foldl (\<lambda>counts s. counts[s := counts ! s + 1]) (replicate NUM_SHARDS 0) idx"

fun run_starts :: "nat \<Rightarrow> nat list \<Rightarrow> nat list" where
  "run_starts acc [] = []"
| "run_starts acc (cnt # counts) = acc # run_starts (acc + cnt) counts"

definition place_index :: "nat list \<times> nat list \<Rightarrow> nat \<times> nat \<Rightarrow> nat list \<times> nat list" where
  "place_index = (\<lambda>(order, cursor) (i, s). (order[cursor ! s := i], cursor[s := cursor ! s + 1]))"

definition shard_runs :: "nat list \<Rightarrow> nat list \<times> nat list \<times> nat list" where
  "shard_runs idx =
     (let starts = run_starts 0 (count_shards idx);
          (order, cursor) = foldl place_index (replicate (length idx) 0, starts) (enumerate 0 idx)
      in (starts, cursor, order))"

definition insert_run ::
  "'m skip_ops \<Rightarrow> comparator \<Rightarrow> entry list \<Rightarrow> nat list \<Rightarrow> 'm \<Rightarrow> 'm" where
  "insert_run ops c recs grp shard =
     foldl (\<lambda>shard i.
       let r = recs ! i;
           fl = flag_bits_for_kind (e_kind r) (e_ttl r)
       in sk_insert ops (ikey_cmp c) (e_key r, e_seq r)
            \<lparr>v_value = e_value r, v_ttl = e_ttl r, v_flags = fl, v_kind = ucast (e_kind r)\<rparr> shard)
       shard grp"

definition put_batch :: "'m skip_ops \<Rightarrow> (bytes \<Rightarrow> u64) \<Rightarrow> entry list \<Rightarrow> 'm memtable \<Rightarrow> 'm memtable" where
  "put_batch ops hash recs m =
     (if length recs = 0 then m
      else if length recs = 1 then put_ref ops hash (recs ! 0) m
      else
        let filt = foldl (\<lambda>f r. filter_insert (hash (e_key r)) f) (get_or_init (mt_filter m)) recs;
            idx = map (\<lambda>r. shard_of (hash (e_key r))) recs;
            (starts, cursor, order) = shard_runs idx;
            added = foldl (\<lambda>a r. a + (length (e_key r) + length (e_value r) + 64)) 0 recs;
            batch_max = foldl (\<lambda>b r. if e_seq r > b then e_seq r else b) 0 recs;
            shs = foldl (\<lambda>shs s.
              let lo = starts ! s; hi = cursor ! s in
              if lo = hi then shs
              else shs[s := insert_run ops (mt_cmp m) recs (take (hi - lo) (drop lo order)) (shs ! s)])
              (shards m) [0..<NUM_SHARDS]
        in m\<lparr>mt_filter := Some filt, shards := shs,
             approx_size := approx_size m + of_nat added,
             num_entries := num_entries m + of_nat (length recs),
             max_seq := (if batch_max > max_seq m then batch_max else max_seq m)\<rparr>)"

section \<open>Reads\<close>

definition mem_get ::
  "'m skip_ops \<Rightarrow> (bytes \<Rightarrow> u64) \<Rightarrow> bytes \<Rightarrow> u64 \<Rightarrow> i64 \<Rightarrow> 'm memtable \<Rightarrow> lookup" where
  "mem_get ops hash user_key read_seq now_nanos m =
     (if num_entries m = 0 then lookup_default
      else let h = hash user_key in
        case mt_filter m of
          None \<Rightarrow> lookup_default
        | Some f \<Rightarrow>
            if \<not> filter_may_contain h f then lookup_default
            else
              case sk_lower_bound ops (ikey_cmp (mt_cmp m)) (Included (user_key, read_seq))
                     (shards m ! shard_of h) of
                None \<Rightarrow> lookup_default
              | Some ((uk, seq), v) \<Rightarrow>
                  if compare (mt_cmp m) uk user_key \<noteq> Equal then lookup_default
                  else if v_flags v AND TOMBSTONE \<noteq> 0
                  then lookup_default\<lparr>lk_seq := seq, lk_found := True, lk_deleted := True,
                         lk_kind := ucast (v_kind v)\<rparr>
                  else if v_ttl v \<noteq> 0 \<and> sint (v_ttl v) \<le> sint now_nanos
                  then lookup_default\<lparr>lk_seq := seq, lk_found := True, lk_deleted := True,
                         lk_kind := ucast (v_kind v)\<rparr>
                  else \<lparr>lk_value = v_value v, lk_seq = seq, lk_found = True, lk_deleted = False,
                         lk_kind = ucast (v_kind v)\<rparr>)"

text \<open>
  The walk of one key's versions. The callback threads its own state and answers whether to
  go on; \<open>fuel\<close> is the number of entries of the shard plus one.
\<close>

fun chain_loop ::
  "'m skip_ops \<Rightarrow> comparator \<Rightarrow> 'm \<Rightarrow> bytes \<Rightarrow> i64 \<Rightarrow> ('s \<Rightarrow> u64 \<Rightarrow> u64 \<Rightarrow> bytes option \<Rightarrow> 's \<times> bool)
     \<Rightarrow> nat \<Rightarrow> (ikey \<times> val) option \<Rightarrow> 's \<Rightarrow> 's" where
  "chain_loop ops c shard user_key now_nanos f 0 cursor st = st"
| "chain_loop ops c shard user_key now_nanos f (Suc fuel) None st = st"
| "chain_loop ops c shard user_key now_nanos f (Suc fuel) (Some ((uk, seq), v)) st =
     (if compare c uk user_key \<noteq> Equal then st
      else
        let dead = v_flags v AND TOMBSTONE \<noteq> 0 \<or> (v_ttl v \<noteq> 0 \<and> sint (v_ttl v) \<le> sint now_nanos);
            value = (if dead then None else Some (v_value v));
            (st, go_on) = f st seq (ucast (v_kind v)) value
        in if \<not> go_on then st
           else chain_loop ops c shard user_key now_nanos f fuel
                  (sk_next ops (ikey_cmp c) (uk, seq) shard) st)"

definition mem_chain ::
  "'m skip_ops \<Rightarrow> (bytes \<Rightarrow> u64) \<Rightarrow> bytes \<Rightarrow> u64 \<Rightarrow> i64
     \<Rightarrow> ('s \<Rightarrow> u64 \<Rightarrow> u64 \<Rightarrow> bytes option \<Rightarrow> 's \<times> bool) \<Rightarrow> 'm memtable \<Rightarrow> 's \<Rightarrow> 's" where
  "mem_chain ops hash user_key read_seq now_nanos f m st =
     (if num_entries m = 0 then st
      else let h = hash user_key in
        case mt_filter m of
          None \<Rightarrow> st
        | Some w \<Rightarrow>
            if \<not> filter_may_contain h w then st
            else
              let shard = shards m ! shard_of h in
              chain_loop ops (mt_cmp m) shard user_key now_nanos f
                (Suc (length (sk_iter ops shard)))
                (sk_lower_bound ops (ikey_cmp (mt_cmp m)) (Included (user_key, read_seq)) shard) st)"

definition mem_is_empty :: "'m memtable \<Rightarrow> bool" where
  "mem_is_empty m \<longleftrightarrow> num_entries m = 0"

definition is_empty_including_ranges :: "'m memtable \<Rightarrow> bool" where
  "is_empty_including_ranges m \<longleftrightarrow> mem_is_empty m \<and> rt_is_empty (mt_ranges m)"

definition entry_of :: "ikey \<times> val \<Rightarrow> entry" where
  "entry_of = (\<lambda>((uk, seq), v).
     \<lparr>e_key = uk, e_value = v_value v, e_seq = seq, e_ttl = v_ttl v, e_kind = ucast (v_kind v)\<rparr>)"

definition mem_snapshot :: "'m skip_ops \<Rightarrow> 'm memtable \<Rightarrow> entry list" where
  "mem_snapshot ops m =
     (let out = concat (map (\<lambda>shard. map entry_of (sk_iter ops shard)) (shards m)) in
      if is_bytewise (mt_cmp m)
      then sort_by (\<lambda>a b. then_with (slice_cmp (e_key a) (e_key b)) (ord_cmp (e_seq b) (e_seq a))) out
      else sort_by (\<lambda>a b. then_with (compare (mt_cmp m) (e_key a) (e_key b))
             (ord_cmp (e_seq b) (e_seq a))) out)"

section \<open>Filter and routing\<close>

lemma filter_insert_contains: "filter_may_contain h (filter_insert h f)"
proof -
  have "(x OR b) AND b = b" for x b :: u64
    by (rule bit_eqI) (auto simp: bit_simps)
  then show ?thesis
    by (auto simp: filter_may_contain_def filter_insert_def Let_def split: prod.split)
qed

lemma filter_insert_mono: "filter_may_contain h f \<Longrightarrow> filter_may_contain h (filter_insert h' f)"
proof -
  have "x AND b = b \<Longrightarrow> (x OR y) AND b = b" for x b y :: u64
    by (simp add: bit_eq_iff bit_simps) blast
  then show "filter_may_contain h f \<Longrightarrow> filter_may_contain h (filter_insert h' f)"
    by (auto simp: filter_may_contain_def filter_insert_def Let_def split: prod.split)
qed

lemma word_and_mask_bound: "fst (word_and_mask h) < FILTER_WORDS"
proof -
  have "drop_bit 24 h AND of_nat (FILTER_WORDS - 1) \<le> of_nat (FILTER_WORDS - 1)"
    by (rule word_and_le1)
  then have "unat (drop_bit 24 h AND of_nat (FILTER_WORDS - 1)) \<le> unat (of_nat (FILTER_WORDS - 1) :: u64)"
    by (simp add: word_le_nat_alt)
  then show ?thesis by (simp add: word_and_mask_def FILTER_WORDS_def)
qed

lemma shard_of_less: "shard_of h < NUM_SHARDS"
proof -
  have "(h XOR drop_bit 32 h) AND of_nat (NUM_SHARDS - 1) \<le> of_nat (NUM_SHARDS - 1)"
    by (rule word_and_le1)
  then have "shard_of h \<le> unat (of_nat (NUM_SHARDS - 1) :: u64)"
    by (simp add: word_le_nat_alt shard_of_def)
  then show ?thesis by (simp add: NUM_SHARDS_def)
qed

section \<open>The contents of a shard\<close>

context key_order
begin

lemma ordered_put_simps:
  "ordered_put cmp k v [] = [(k, v)]"
  "ordered_put cmp k v (e # L) =
     (if is_lt (cmp k (fst e)) then (k, v) # e # L
      else if k = fst e then (k, v) # L
      else e # ordered_put cmp k v L)"
  by simp (cases e; cases "cmp k (fst e)"; auto simp: is_lt_def cmp_Equal)

declare ordered_put.simps [simp del]
declare ordered_put_simps [simp]

lemma set_ordered_put:
  "in_key_order cmp L \<Longrightarrow> set (ordered_put cmp k v L) = insert (k, v) {e \<in> set L. fst e \<noteq> k}"
  by (induction L) (auto simp: key.not_less dest: key.less_asym)

lemma ordered_put_sorted:
  "in_key_order cmp L \<Longrightarrow> in_key_order cmp (ordered_put cmp k v L)"
proof (induction L)
  case (Cons e L)
  then show ?case
    by (cases rule: cmp_cases [of k "fst e"])
       (auto simp: set_ordered_put intro: key.less_trans dest: key.less_not_sym)
qed simp

lemma above_up:
  "is_lt (cmp a b) \<Longrightarrow> above_bound cmp (Included p) a \<Longrightarrow> above_bound cmp (Included p) b"
  by (auto simp: above_bound_def is_ge_iff intro: key.less_imp_le key.le_less_trans)

lemma lt_imp_le: "is_lt (cmp a b) \<Longrightarrow> is_le (cmp a b)"
  by (rule key.less_imp_le)

lemma lt_irrefl: "\<not> is_lt (cmp a a)" and le_refl: "is_le (cmp a a)"
  by simp_all

lemma between_equal: "is_le (cmp k a) \<Longrightarrow> is_le (cmp a k) \<Longrightarrow> a = k"
  by (rule key.order_antisym)

lemma find_successor:
  assumes "sorted_wrt (\<lambda>a b. is_lt (cmp (fst a) (fst b))) (pre @ e # post)"
  shows "find (\<lambda>x. is_gt (cmp (fst x) (fst e))) (pre @ e # post) =
    (case post of [] \<Rightarrow> None | y # _ \<Rightarrow> Some y)"
proof -
  have "\<forall>x \<in> set (pre @ [e]). \<not> is_lt (cmp (fst e) (fst x))"
    using assms by (auto simp: sorted_wrt_append key.not_less key.less_imp_le)
  then have "find (\<lambda>x. is_gt (cmp (fst x) (fst e))) (pre @ [e]) = None"
    unfolding find_None_iff is_gt_iff by blast
  then have "find (\<lambda>x. is_gt (cmp (fst x) (fst e))) (pre @ e # post) =
      find (\<lambda>x. is_gt (cmp (fst x) (fst e))) post"
    by (induction pre) (auto split: if_splits)
  then show ?thesis using assms by (cases post) (auto simp: sorted_wrt_append is_gt_iff)
qed

lemma sorted_lt_distinct: "sorted_lt ys \<Longrightarrow> distinct ys"
  by (induction ys) auto

lemma sorted_le_distinct: "sorted_le ys \<Longrightarrow> distinct ys \<Longrightarrow> sorted_lt ys"
  by (induction ys) (auto simp: key.le_less)

lemma find_above_put:
  assumes "in_key_order cmp L"
  shows "find (\<lambda>e. above_bound cmp (Included p) (fst e)) (ordered_put cmp k v L) =
    (case find (\<lambda>e. above_bound cmp (Included p) (fst e)) L of
       None \<Rightarrow> if is_le (cmp p k) then Some (k, v) else None
     | Some e \<Rightarrow> if is_le (cmp p k) \<and> is_le (cmp k (fst e)) then Some (k, v) else Some e)"
  using assms
proof (induction L)
  case (Cons e L)
  show ?case
  proof (cases rule: cmp_cases [of k "fst e"])
    case 1
    then show ?thesis
      using key.le_less_trans [of p k "fst e"]
      by (auto simp: above_bound_def is_ge_iff key.less_imp_le split: option.split)
  next
    case 2
    then show ?thesis by (auto simp: above_bound_def is_ge_iff split: option.split)
  next
    case 3
    then have "\<not> is_lt (cmp k (fst e))" "k \<noteq> fst e" "\<not> is_le (cmp k (fst e))"
      by (auto simp: key.not_less key.not_le key.less_imp_le)
    then show ?thesis using Cons by (simp add: above_bound_def is_ge_iff)
  qed
qed (simp add: above_bound_def is_ge_iff)

end

section \<open>Histories\<close>

text \<open>
  What a memtable holds is a function of the records inserted into it. A record inserted
  again under the same key and sequence replaces the earlier one.
\<close>

definition val_of :: "entry \<Rightarrow> val" where
  "val_of r = \<lparr>v_value = e_value r, v_ttl = e_ttl r,
     v_flags = flag_bits_for_kind (e_kind r) (e_ttl r), v_kind = ucast (e_kind r)\<rparr>"

definition ordered_puts :: "(ikey \<Rightarrow> ikey \<Rightarrow> ordering) \<Rightarrow> entry list \<Rightarrow> (ikey \<times> val) list" where
  "ordered_puts cmp hist = foldl (\<lambda>L r. ordered_put cmp (entry_ikey r) (val_of r) L) [] hist"

definition newest_visible :: "entry list \<Rightarrow> bytes \<Rightarrow> u64 \<Rightarrow> entry option" where
  "newest_visible hist k read_seq =
     foldl (\<lambda>best r.
       if e_key r = k \<and> e_seq r \<le> read_seq
          \<and> (case best of None \<Rightarrow> True | Some b \<Rightarrow> e_seq b \<le> e_seq r)
       then Some r else best) None hist"

definition shard_hist :: "(bytes \<Rightarrow> u64) \<Rightarrow> nat \<Rightarrow> entry list \<Rightarrow> entry list" where
  "shard_hist hash s hist = filter (\<lambda>r. shard_of (hash (e_key r)) = s) hist"

lemma ordered_puts_snoc:
  "ordered_puts cmp (hist @ [r]) = ordered_put cmp (entry_ikey r) (val_of r) (ordered_puts cmp hist)"
  by (simp add: ordered_puts_def)

lemma ordered_puts_sorted: "key_order cmp \<Longrightarrow> in_key_order cmp (ordered_puts cmp hist)"
  by (induction hist rule: rev_induct)
     (simp_all add: ordered_puts_snoc key_order.ordered_put_sorted, simp add: ordered_puts_def)

lemma newest_visible_snoc:
  "newest_visible (hist @ [r]) k rs =
     (if e_key r = k \<and> e_seq r \<le> rs
         \<and> (case newest_visible hist k rs of None \<Rightarrow> True | Some b \<Rightarrow> e_seq b \<le> e_seq r)
      then Some r else newest_visible hist k rs)"
  by (simp add: newest_visible_def)

lemma newest_visible_key: "newest_visible hist k rs = Some r \<Longrightarrow> e_key r = k \<and> e_seq r \<le> rs \<and> r \<in> set hist"
  by (induction hist arbitrary: r rule: rev_induct)
     (auto simp: newest_visible_snoc split: if_splits option.splits, simp_all add: newest_visible_def)

lemma newest_visible_filter:
  "(\<And>r. e_key r = k \<Longrightarrow> P r) \<Longrightarrow> newest_visible (filter P hist) k rs = newest_visible hist k rs"
  by (induction hist rule: rev_induct) (auto simp: newest_visible_snoc split: option.splits)

lemma ikey_le_iff:
  assumes "user_key_order (compare c)"
  shows "is_le (ikey_cmp c (a, s) (b, t)) \<longleftrightarrow> is_lt (compare c a b) \<or> a = b \<and> t \<le> s"
proof -
  have "compare c a b = Equal \<longleftrightarrow> a = b"
    using key_order.cmp_Equal [OF user_key_order.axioms [OF assms]] .
  then show ?thesis
    by (cases "compare c a b")
       (auto simp: ikey_cmp_eq then_with_def ordering_tests ord_cmp_def not_less)
qed

text \<open>The first entry at or after the probe is the newest visible version, if the key has one.\<close>

lemma first_above_newest:
  assumes "user_key_order (compare c)"
  shows "(case find (\<lambda>e. above_bound (ikey_cmp c) (Included (k, rs)) (fst e))
            (ordered_puts (ikey_cmp c) hist) of
       None \<Rightarrow> None
     | Some e \<Rightarrow> if fst (fst e) = k then Some e else None) =
    map_option (\<lambda>r. (entry_ikey r, val_of r)) (newest_visible hist k rs)"
proof (induction hist rule: rev_induct)
  case Nil
  then show ?case by (simp add: ordered_puts_def newest_visible_def)
next
  case (snoc r hist)
  let ?cmp = "ikey_cmp c" and ?L = "ordered_puts (ikey_cmp c) hist"
  let ?find = "find (\<lambda>e. above_bound ?cmp (Included (k, rs)) (fst e)) ?L"
  note le = ikey_le_iff [OF assms]
  note put = key_order.find_above_put [OF key_order_ikey_cmp [OF assms]
      ordered_puts_sorted [OF key_order_ikey_cmp [OF assms]], of "(k, rs)" "(e_key r, e_seq r)" "val_of r" hist]
  have lt: "\<not> (is_lt (compare c x y) \<and> is_lt (compare c y x))" "\<not> is_lt (compare c x x)" for x y
    using key_order.is_gt_iff [OF user_key_order.axioms [OF assms], of x y]
      key_order.is_gt_iff [OF user_key_order.axioms [OF assms], of x x]
    by (auto simp: ordering_tests)
  show ?case
  proof (cases ?find)
    case None
    with snoc have "newest_visible hist k rs = None" by simp
    then show ?thesis
      using None lt by (auto simp: ordered_puts_snoc put newest_visible_snoc entry_ikey_def le)
  next
    case (Some e)
    obtain k' s' v where e: "e = ((k', s'), v)" by (cases e) auto
    have "is_le (?cmp (k, rs) (k', s'))"
      using find_Some_in [OF Some] e key_order.is_ge_iff [OF key_order_ikey_cmp [OF assms]]
      by (simp add: above_bound_def)
    then have k': "is_lt (compare c k k') \<or> k = k' \<and> s' \<le> rs" by (simp add: le)
    show ?thesis
    proof (cases "k' = k")
      case True
      with snoc Some e obtain b where b: "newest_visible hist k rs = Some b" "entry_ikey b = (k, s')" "val_of b = v"
        by (auto simp: map_option_case split: option.splits)
      then show ?thesis
        using Some e True lt by (auto simp: ordered_puts_snoc put newest_visible_snoc entry_ikey_def le)
    next
      case False
      with snoc Some e have "newest_visible hist k rs = None" by simp
      then show ?thesis
        using Some e False k' lt by (auto simp: ordered_puts_snoc put newest_visible_snoc entry_ikey_def le)
    qed
  qed
qed

section \<open>The counting sort of a batch\<close>

lemma length_count_shards [simp]: "length (count_shards idx) = NUM_SHARDS"
proof -
  have "length (foldl (\<lambda>cs s. cs[s := cs ! s + 1]) cs idx) = length cs" for cs :: "nat list"
    by (induction idx arbitrary: cs) simp_all
  then show ?thesis by (simp add: count_shards_def)
qed

lemma count_shards_nth:
  assumes "\<forall>s \<in> set idx. s < NUM_SHARDS" and "t < NUM_SHARDS"
  shows "count_shards idx ! t = count_list idx t"
proof -
  have "foldl (\<lambda>cs s. cs[s := cs ! s + 1]) cs idx ! t = cs ! t + count_list idx t"
    if "length cs = NUM_SHARDS" for cs :: "nat list"
    using assms(1) that assms(2)
    by (induction idx arbitrary: cs) (auto simp: nth_list_update)
  from this [of "replicate NUM_SHARDS 0"] assms(2)
  show "count_shards idx ! t = count_list idx t"
    by (simp add: count_shards_def)
qed

lemma run_starts_nth:
  "length (run_starts acc counts) = length counts"
  "s < length counts \<Longrightarrow> run_starts acc counts ! s = acc + sum_list (take s counts)"
proof -
  show "length (run_starts acc counts) = length counts"
    by (induction acc counts rule: run_starts.induct) simp_all
  show "s < length counts \<Longrightarrow> run_starts acc counts ! s = acc + sum_list (take s counts)"
    by (induction acc counts arbitrary: s rule: run_starts.induct) (auto simp: nth_Cons' take_Cons')
qed

lemma sum_list_counts:
  "\<forall>x \<in> set xs. x < n \<Longrightarrow> sum_list (map (count_list xs) [0..<n]) = length xs"
proof (induction xs)
  case (Cons x xs)
  have "sum_list (map (count_list (x # xs)) [0..<n]) =
      sum_list (map (\<lambda>t. (if t = x then 1 else 0) + count_list xs t) [0..<n])"
    by (intro arg_cong [of _ _ sum_list] map_cong) auto
  also have "\<dots> = sum_list (map (\<lambda>t. if t = x then 1 else 0) [0..<n]) + sum_list (map (count_list xs) [0..<n])"
    by (rule sum_list_addf)
  also have "sum_list (map (\<lambda>t. if t = x then 1 else (0 :: nat)) [0..<n]) = 1"
    using Cons.prems by (simp add: interv_sum_list_conv_sum_set_nat sum.delta)
  finally show ?case using Cons by simp
qed simp

lemma starts_separate:
  assumes idx: "\<forall>s \<in> set idx. s < NUM_SHARDS" and t: "t < NUM_SHARDS"
  defines "st \<equiv> run_starts 0 (count_shards idx)"
  shows "s < t \<Longrightarrow> st ! s + count_list idx s \<le> st ! t"
    and "st ! t + count_list idx t \<le> length idx"
proof -
  have counts: "count_shards idx = map (count_list idx) [0..<NUM_SHARDS]"
    using count_shards_nth [OF idx] by (intro nth_equalityI) simp_all
  have nth: "st ! u = sum_list (map (count_list idx) [0..<u])" if "u < NUM_SHARDS" for u
    using that run_starts_nth(2) [of u "count_shards idx" 0]
    by (simp add: st_def counts take_map)
  have grow: "st ! s + count_list idx s = sum_list (map (count_list idx) [0..<Suc s])"
    if "s < NUM_SHARDS" for s
    using nth [OF that] by simp
  have mono: "sum_list (map (count_list idx) [0..<m]) \<le> sum_list (map (count_list idx) [0..<n])"
    if "m \<le> n" for m n
    using that by (induction n) (auto simp: le_Suc_eq)
  show "s < t \<Longrightarrow> st ! s + count_list idx s \<le> st ! t"
    using grow [of s] nth [OF t] mono [of "Suc s" t] t by simp
  show "st ! t + count_list idx t \<le> length idx"
    using grow [OF t] mono [of "Suc t" NUM_SHARDS] t sum_list_counts [OF idx] by simp
qed

lemma take_drop_update:
  "p < a \<or> a + c \<le> p \<Longrightarrow> take c (drop a (xs[p := y])) = take c (drop a xs)"
  by (auto simp: drop_update_cancel drop_update_swap)

lemma take_drop_snoc:
  "a + c < length xs \<Longrightarrow> take (Suc c) (drop a (xs[a + c := y])) = take c (drop a xs) @ [y]"
  by (simp add: take_Suc_conv_app_nth take_drop_update)

lemma count_take_less: "n < length xs \<Longrightarrow> count_list (take n xs) (xs ! n) < count_list xs (xs ! n)"
  by (subst (3) id_take_nth_drop [of n xs]) simp_all

lemma place_index_runs:
  assumes idx: "\<forall>s \<in> set idx. s < NUM_SHARDS"
  defines "st \<equiv> run_starts 0 (count_shards idx)"
  assumes "prefix = take n idx" and "n \<le> length idx"
    and "foldl place_index (replicate (length idx) 0, st) (enumerate 0 prefix) = (order, cursor)"
  shows "length order = length idx \<and> length cursor = NUM_SHARDS \<and> (\<forall>s < NUM_SHARDS.
    cursor ! s = st ! s + count_list prefix s \<and>
    take (count_list prefix s) (drop (st ! s) order) = filter (\<lambda>i. idx ! i = s) [0..<n])"
  using assms(3-)
proof (induction n arbitrary: prefix order cursor)
  case 0
  then show ?case
    using run_starts_nth(1) [of 0 "count_shards idx"] by (auto simp: st_def)
next
  case (Suc n)
  define s0 where "s0 = idx ! n"
  obtain o1 c1 where prev: "foldl place_index (replicate (length idx) 0, st) (enumerate 0 (take n idx)) = (o1, c1)"
    by (meson surj_pair)
  note ih = Suc.IH [OF refl _ prev]
  have n: "n < length idx" and s0: "s0 < NUM_SHARDS"
    using Suc.prems(2) idx by (auto simp: s0_def)
  have pre: "prefix = take n idx @ [s0]"
    using Suc.prems(1) n by (simp add: take_Suc_conv_app_nth s0_def)
  let ?c = "count_list (take n idx) s0"
  have oc: "order = o1[st ! s0 + ?c := n]" "cursor = c1[s0 := Suc (st ! s0 + ?c)]"
    using Suc.prems(3) ih n prev s0
    by (auto simp: pre enumerate_append_eq place_index_def)
  have c: "?c < count_list idx s0" using count_take_less [OF n] by (simp add: s0_def)
  have fits: "st ! s0 + ?c < length o1"
    using c starts_separate(2) [OF idx s0] ih n by (simp add: st_def)
  have other: "st ! s0 + ?c < st ! s \<or> st ! s + count_list (take n idx) s \<le> st ! s0 + ?c"
    if "s < NUM_SHARDS" "s \<noteq> s0" for s
  proof -
    have "count_list (take n idx) s \<le> count_list idx s"
      using count_list_append [of "take n idx" "drop n idx" s] by simp
    then show ?thesis
      using starts_separate(1) [OF idx s0, of s] starts_separate(1) [OF idx that(1), of s0] c that
      by (cases "s < s0") (simp_all add: st_def)
  qed
  have kept: "take (count_list (take n idx) s) (drop (st ! s) order) = filter (\<lambda>i. idx ! i = s) [0..<n]"
    if "s < NUM_SHARDS" "s \<noteq> s0" for s
    unfolding oc take_drop_update [OF other [OF that]] using that ih n by simp
  have placed: "take (Suc ?c) (drop (st ! s0) order) = filter (\<lambda>i. idx ! i = s0) [0..<n] @ [n]"
    unfolding oc take_drop_snoc [OF fits] using s0 ih n by simp
  have "length order = length idx" using ih n by (simp add: oc)
  then show ?case
    using ih n s0 kept placed by (auto simp: oc(2) pre s0_def [symmetric] nth_list_update)
qed

lemma shard_runs_spec:
  assumes "\<forall>s \<in> set idx. s < NUM_SHARDS" and "s < NUM_SHARDS"
    and "shard_runs idx = (starts, cursor, order)"
  shows "starts ! s \<le> cursor ! s"
    and "take (cursor ! s - starts ! s) (drop (starts ! s) order) = filter (\<lambda>i. idx ! i = s) [0..<length idx]"
proof -
  have "foldl place_index (replicate (length idx) 0, run_starts 0 (count_shards idx)) (enumerate 0 idx) = (order, cursor)"
    and "starts = run_starts 0 (count_shards idx)"
    using assms(3) by (auto simp: shard_runs_def Let_def split: prod.splits)
  with place_index_runs [OF assms(1), of idx "length idx" order cursor] assms(2)
  show "starts ! s \<le> cursor ! s"
    and "take (cursor ! s - starts ! s) (drop (starts ! s) order) = filter (\<lambda>i. idx ! i = s) [0..<length idx]"
    by simp_all
qed

section \<open>A batch is its records one by one\<close>

definition shard_insert :: "'m skip_ops \<Rightarrow> comparator \<Rightarrow> entry \<Rightarrow> 'm \<Rightarrow> 'm" where
  "shard_insert ops c r shard = sk_insert ops (ikey_cmp c) (entry_ikey r) (val_of r) shard"

definition entry_size :: "entry \<Rightarrow> nat" where
  "entry_size r = length (e_key r) + length (e_value r) + 64"

abbreviation put_refs :: "'m skip_ops \<Rightarrow> (bytes \<Rightarrow> u64) \<Rightarrow> entry list \<Rightarrow> 'm memtable \<Rightarrow> 'm memtable" where
  "put_refs ops hash recs m \<equiv> foldl (\<lambda>m r. put_ref ops hash r m) m recs"

lemma put_ref_eq:
  "put_ref ops hash r m =
     m\<lparr>mt_filter := Some (filter_insert (hash (e_key r)) (get_or_init (mt_filter m))),
       shards := (shards m)[shard_of (hash (e_key r)) :=
         shard_insert ops (mt_cmp m) r (shards m ! shard_of (hash (e_key r)))],
       approx_size := approx_size m + of_nat (entry_size r),
       num_entries := num_entries m + 1,
       max_seq := max (max_seq m) (e_seq r)\<rparr>"
  by (simp add: put_ref_def mem_put_def after_insert_def shard_insert_def entry_ikey_def val_of_def
      entry_size_def Let_def max_def not_le)

definition shards_after ::
  "'m skip_ops \<Rightarrow> (bytes \<Rightarrow> u64) \<Rightarrow> comparator \<Rightarrow> entry list \<Rightarrow> 'm list \<Rightarrow> 'm list" where
  "shards_after ops hash c recs shs =
     map (\<lambda>s. foldl (\<lambda>sh r. shard_insert ops c r sh) (shs ! s) (shard_hist hash s recs)) [0..<NUM_SHARDS]"

lemma shards_after_snoc:
  "shards_after ops hash c (recs @ [r]) shs =
     (shards_after ops hash c recs shs)[shard_of (hash (e_key r)) :=
       shard_insert ops c r (shards_after ops hash c recs shs ! shard_of (hash (e_key r)))]"
proof (rule nth_equalityI)
  fix i assume "i < length (shards_after ops hash c (recs @ [r]) shs)"
  then have "i < NUM_SHARDS" by (simp add: shards_after_def)
  then show "shards_after ops hash c (recs @ [r]) shs ! i = (shards_after ops hash c recs shs)[shard_of (hash (e_key r)) :=
      shard_insert ops c r (shards_after ops hash c recs shs ! shard_of (hash (e_key r)))] ! i"
    by (cases "i = shard_of (hash (e_key r))") (simp_all add: shards_after_def shard_hist_def)
qed (simp add: shards_after_def)

lemma shards_after_Nil: "length shs = NUM_SHARDS \<Longrightarrow> shards_after ops hash c [] shs = shs"
  using map_nth [of shs] by (simp add: shards_after_def shard_hist_def)

lemma put_refs_fields:
  assumes "length (shards m) = NUM_SHARDS"
  shows "put_refs ops hash recs m =
    m\<lparr>mt_filter := (if recs = [] then mt_filter m
        else Some (foldl (\<lambda>f r. filter_insert (hash (e_key r)) f) (get_or_init (mt_filter m)) recs)),
      shards := shards_after ops hash (mt_cmp m) recs (shards m),
      approx_size := approx_size m + of_nat (sum_list (map entry_size recs)),
      num_entries := num_entries m + of_nat (length recs),
      max_seq := foldl (\<lambda>b r. max b (e_seq r)) (max_seq m) recs\<rparr>"
proof (induction recs rule: rev_induct)
  case Nil
  then show ?case using assms by (simp add: shards_after_Nil)
next
  case (snoc r recs)
  have "put_refs ops hash (recs @ [r]) m = put_ref ops hash r (put_refs ops hash recs m)"
    by simp
  then show ?case
    unfolding snoc put_ref_eq [of ops hash r] shards_after_snoc
    by (simp add: get_or_init_def add.assoc)
qed

lemma insert_run_eq:
  "insert_run ops c recs is sh = foldl (\<lambda>sh r. shard_insert ops c r sh) sh (map ((!) recs) is)"
  by (simp add: insert_run_def shard_insert_def entry_ikey_def val_of_def foldl_map Let_def)

lemma filter_by_index: "map ((!) xs) (filter (\<lambda>i. P (xs ! i)) [0..<length xs]) = filter P xs"
  by (metis (no_types, lifting) filter_map map_nth comp_apply filter_cong)

lemma update_shards:
  assumes "k \<le> length shs"
  shows "foldl (\<lambda>shs s. if skip s then shs else shs[s := f s (shs ! s)]) shs [0..<k] =
    map (\<lambda>s. if s < k \<and> \<not> skip s then f s (shs ! s) else shs ! s) [0..<length shs]"
  using assms
proof (induction k)
  case 0
  then show ?case using map_nth [of shs] by simp
next
  case (Suc k)
  define L where "L = map (\<lambda>s. if s < k \<and> \<not> skip s then f s (shs ! s) else shs ! s) [0..<length shs]"
  have "(if skip k then L else L[k := f k (L ! k)]) =
      map (\<lambda>s. if s < Suc k \<and> \<not> skip s then f s (shs ! s) else shs ! s) [0..<length shs]"
  proof (rule nth_equalityI)
    fix i assume "i < length (if skip k then L else L[k := f k (L ! k)])"
    then have "i < length shs" by (simp add: L_def split: if_splits)
    then show "(if skip k then L else L[k := f k (L ! k)]) ! i =
        map (\<lambda>s. if s < Suc k \<and> \<not> skip s then f s (shs ! s) else shs ! s) [0..<length shs] ! i"
      using Suc.prems by (cases "i = k") (auto simp: L_def)
  qed (simp add: L_def)
  moreover have "foldl (\<lambda>shs s. if skip s then shs else shs[s := f s (shs ! s)]) shs [0..<k] = L"
    using Suc by (simp add: L_def)
  ultimately show ?case by simp
qed

lemma batch_max_eq:
  "(if foldl (\<lambda>b r. if e_seq r > b then e_seq r else b) 0 recs > a
    then foldl (\<lambda>b r. if e_seq r > b then e_seq r else b) 0 recs else a) =
   foldl (\<lambda>b r. max b (e_seq r)) (a :: u64) recs"
proof -
  have step: "(\<lambda>b r. if e_seq r > b then e_seq r else b) = (\<lambda>b r. max b (e_seq r))"
    by (auto simp: max_def not_less fun_eq_iff)
  have "max a (foldl (\<lambda>b r. max b (e_seq r)) b recs) = foldl (\<lambda>b r. max b (e_seq r)) (max a b) recs" for b
    by (induction recs arbitrary: b) (simp_all add: max.assoc)
  from this [of 0] show ?thesis
    unfolding step by (auto simp: max_def not_less split: if_splits)
qed

lemma put_batch_eq:
  assumes "length (shards m) = NUM_SHARDS"
  shows "put_batch ops hash recs m = put_refs ops hash recs m"
proof -
  define idx where "idx = map (\<lambda>r. shard_of (hash (e_key r))) recs"
  obtain starts cursor order where runs: "shard_runs idx = (starts, cursor, order)"
    by (cases "shard_runs idx") auto
  have idx: "\<forall>s \<in> set idx. s < NUM_SHARDS" by (simp add: idx_def shard_of_less)
  have run: "map ((!) recs) (take (cursor ! s - starts ! s) (drop (starts ! s) order)) = shard_hist hash s recs"
    if "s < NUM_SHARDS" for s
  proof -
    have "filter (\<lambda>i. idx ! i = s) [0..<length idx] =
        filter (\<lambda>i. shard_of (hash (e_key (recs ! i))) = s) [0..<length recs]"
      by (auto simp: idx_def intro!: filter_cong)
    then show ?thesis
      using shard_runs_spec(2) [OF idx that runs] filter_by_index [where xs = recs and P = "\<lambda>r. shard_of (hash (e_key r)) = s"]
      by (simp add: shard_hist_def)
  qed
  have skip: "shard_hist hash s recs = []" if "s < NUM_SHARDS" "starts ! s = cursor ! s" for s
    using run [OF that(1)] that(2) by simp
  have sz: "foldl (\<lambda>a r. a + (length (e_key r) + length (e_value r) + 64)) a recs =
      a + sum_list (map entry_size recs)" for a
    by (induction recs arbitrary: a) (simp_all add: entry_size_def)
  consider "recs = []" | r where "recs = [r]" | "length recs > 1" by (cases recs; cases "tl recs") auto
  then show ?thesis
  proof cases
    case 3
    define filt added where "filt = foldl (\<lambda>f r. filter_insert (hash (e_key r)) f) (get_or_init (mt_filter m)) recs"
      and "added = sum_list (map entry_size recs)"
    have shs: "foldl (\<lambda>shs s. if starts ! s = cursor ! s then shs else shs[s := insert_run ops (mt_cmp m) recs
          (take (cursor ! s - starts ! s) (drop (starts ! s) order)) (shs ! s)]) (shards m) [0..<NUM_SHARDS] =
        shards_after ops hash (mt_cmp m) recs (shards m)"
      using assms run skip update_shards [of NUM_SHARDS "shards m" "\<lambda>s. starts ! s = cursor ! s"
        "\<lambda>s. insert_run ops (mt_cmp m) recs (take (cursor ! s - starts ! s) (drop (starts ! s) order))"]
      by (simp add: insert_run_eq shards_after_def)
    from 3 have "recs \<noteq> []" "length recs \<noteq> 1" by auto
    then show ?thesis
      unfolding put_batch_def put_refs_fields [OF assms] idx_def [symmetric] runs Let_def
        prod.case batch_max_eq sz shs by simp
  qed (simp_all add: put_batch_def)
qed

section \<open>Memtables and their histories\<close>

datatype mem_op = MPut entry | MBatch "entry list" | MRange bytes bytes u64

fun mem_apply :: "'m skip_ops \<Rightarrow> (bytes \<Rightarrow> u64) \<Rightarrow> 'm memtable \<Rightarrow> mem_op \<Rightarrow> 'm memtable" where
  "mem_apply ops hash m (MPut r) =
     mem_put ops hash (e_key r) (e_value r) (e_seq r) (e_ttl r) (e_kind r) m"
| "mem_apply ops hash m (MBatch recs) = put_batch ops hash recs m"
| "mem_apply ops hash m (MRange start end' seq) = add_range start end' seq m"

definition mem_run :: "'m skip_ops \<Rightarrow> (bytes \<Rightarrow> u64) \<Rightarrow> comparator \<Rightarrow> mem_op list \<Rightarrow> 'm memtable" where
  "mem_run ops hash c os = foldl (mem_apply ops hash) (mem_new ops c) os"

fun op_entries :: "mem_op \<Rightarrow> entry list" where
  "op_entries (MPut r) = [r]"
| "op_entries (MBatch recs) = recs"
| "op_entries (MRange _ _ _) = []"

definition history :: "mem_op list \<Rightarrow> entry list" where
  "history os = concat (map op_entries os)"

definition mem_holds :: "'m skip_ops \<Rightarrow> (bytes \<Rightarrow> u64) \<Rightarrow> entry list \<Rightarrow> 'm memtable \<Rightarrow> bool" where
  "mem_holds ops hash hist m \<longleftrightarrow>
     length (shards m) = NUM_SHARDS
     \<and> (\<forall>s < NUM_SHARDS.
          sk_iter ops (shards m ! s) = ordered_puts (ikey_cmp (mt_cmp m)) (shard_hist hash s hist))
     \<and> num_entries m = of_nat (length hist)
     \<and> approx_size m = of_nat (sum_list (map entry_size hist))
     \<and> (\<forall>r \<in> set hist. e_seq r \<le> max_seq m)
     \<and> (case mt_filter m of None \<Rightarrow> hist = []
        | Some f \<Rightarrow> \<forall>r \<in> set hist. filter_may_contain (hash (e_key r)) f)"

lemma mem_holds_new: "skip_map ops (ikey_cmp c) \<Longrightarrow> mem_holds ops hash [] (mem_new ops c)"
  by (simp add: mem_holds_def mem_new_def shard_hist_def ordered_puts_def skip_map.iter_new)

lemma mem_holds_put:
  assumes "user_key_order (compare (mt_cmp m))" and ops: "skip_map ops (ikey_cmp (mt_cmp m))"
    and m: "mem_holds ops hash hist m"
  shows "mem_holds ops hash (hist @ [r]) (put_ref ops hash r m)"
proof -
  let ?cmp = "ikey_cmp (mt_cmp m)" and ?h = "hash (e_key r)"
  have "sk_iter ops (sk_insert ops ?cmp (entry_ikey r) (val_of r) (shards m ! s)) =
      ordered_puts ?cmp (shard_hist hash s hist @ [r])" if "s < NUM_SHARDS" for s
    using m that ordered_puts_sorted [OF key_order_ikey_cmp [OF assms(1)], of "shard_hist hash s hist"]
    by (simp add: skip_map.iter_insert [OF ops] mem_holds_def ordered_puts_snoc)
  then have "\<forall>s < NUM_SHARDS. sk_iter ops (shards (put_ref ops hash r m) ! s) =
      ordered_puts ?cmp (shard_hist hash s (hist @ [r]))"
    using m by (auto simp: put_ref_eq mem_holds_def shard_insert_def nth_list_update shard_hist_def)
  moreover have "\<forall>f r'. r' \<in> set hist \<longrightarrow> mt_filter m = Some f \<longrightarrow>
      filter_may_contain (hash (e_key r')) (filter_insert ?h f)"
    using m filter_insert_mono by (auto simp: mem_holds_def)
  moreover have "e_seq r' \<le> max (max_seq m) (e_seq r)" if "r' \<in> set hist" for r'
    using m that by (auto simp: mem_holds_def le_max_iff_disj)
  ultimately show ?thesis
    using m filter_insert_contains [of ?h]
    by (auto simp: mem_holds_def put_ref_eq get_or_init_def split: option.splits)
qed

lemma mt_cmp_put_ref [simp]: "mt_cmp (put_ref ops hash r m) = mt_cmp m"
  by (simp add: put_ref_eq)

lemma mem_holds_puts:
  assumes "user_key_order (compare (mt_cmp m))" and "skip_map ops (ikey_cmp (mt_cmp m))"
    and "mem_holds ops hash hist m"
  shows "mem_holds ops hash (hist @ recs) (put_refs ops hash recs m) \<and>
    mt_cmp (put_refs ops hash recs m) = mt_cmp m"
proof (induction recs rule: rev_induct)
  case (snoc r recs)
  with mem_holds_put [of "put_refs ops hash recs m" ops hash "hist @ recs" r] assms(1,2)
  show ?case by simp
qed (use assms in simp)

lemma mem_holds_range:
  "mem_holds ops hash hist m \<Longrightarrow> mem_holds ops hash hist (add_range start end' seq m)"
  by (auto simp: mem_holds_def add_range_def le_max_iff_disj)

lemma mem_run_holds:
  assumes "user_key_order (compare c)" and "skip_map ops (ikey_cmp c)"
  shows "mem_holds ops hash (history os) (mem_run ops hash c os) \<and> mt_cmp (mem_run ops hash c os) = c"
proof (induction os rule: rev_induct)
  case Nil
  then show ?case
    using mem_holds_new [OF assms(2)] by (simp add: mem_run_def history_def mem_new_def)
next
  case (snoc x os)
  have step: "mem_run ops hash c (os @ [x]) = mem_apply ops hash (mem_run ops hash c os) x"
    "history (os @ [x]) = history os @ op_entries x"
    by (simp_all add: mem_run_def history_def)
  note puts = mem_holds_puts [of "mem_run ops hash c os" ops hash "history os"]
  show ?case
  proof (cases x)
    case (MPut r)
    then show ?thesis
      unfolding step using puts [of "[r]"] snoc assms by (simp add: put_ref_def [symmetric])
  next
    case (MBatch recs)
    then show ?thesis
      unfolding step using puts [of recs] snoc assms by (simp add: put_batch_eq mem_holds_def)
  next
    case (MRange a b s)
    then show ?thesis
      unfolding step using snoc mem_holds_range [of ops hash "history os" "mem_run ops hash c os"]
      by (simp add: add_range_def)
  qed
qed

section \<open>Reading back\<close>

lemma newest_visible_None:
  "newest_visible hist k rs = None \<longleftrightarrow> \<not> (\<exists>r \<in> set hist. e_key r = k \<and> e_seq r \<le> rs)"
  by (induction hist rule: rev_induct)
     (auto simp: newest_visible_snoc split: option.splits, simp add: newest_visible_def)

lemma newest_visible_max:
  "newest_visible hist k rs = Some b \<Longrightarrow> r \<in> set hist \<Longrightarrow> e_key r = k \<Longrightarrow> e_seq r \<le> rs \<Longrightarrow> e_seq r \<le> e_seq b"
proof (induction hist arbitrary: b rule: rev_induct)
  case (snoc x hist)
  show ?case
  proof (cases "newest_visible hist k rs")
    case None
    then show ?thesis
      using snoc.prems newest_visible_None [of hist k rs]
      by (auto simp: newest_visible_snoc split: if_splits)
  next
    case (Some y)
    then show ?thesis
      using snoc.prems snoc.IH [OF Some]
      by (auto simp: newest_visible_snoc split: if_splits)
  qed
qed simp

definition kinds_ok :: "entry list \<Rightarrow> bool" where
  "kinds_ok hist \<longleftrightarrow> (\<forall>r \<in> set hist. e_kind r \<le> MAX_ASSIGNABLE_KIND)"

lemma kind_roundtrip: "k \<le> MAX_ASSIGNABLE_KIND \<Longrightarrow> ucast (ucast k :: u8) = (k :: u64)"
proof -
  assume "k \<le> MAX_ASSIGNABLE_KIND"
  then have "unat k < 256" by (simp add: MAX_ASSIGNABLE_KIND_def word_le_nat_alt)
  then show ?thesis
    by (intro word_unat_eq_iff [THEN iffD2]) (simp add: unsigned_ucast_eq unsigned_take_bit_eq take_bit_nat_eq_self)
qed

lemma tombstone_flag: "v_flags (val_of r) AND TOMBSTONE \<noteq> 0 \<longleftrightarrow> entry_tombstone r"
  by (auto simp: val_of_def flag_bits_for_kind_def flag_bits_def normalized_flag_bits entry_tombstone_def)

definition lookup_of :: "entry option \<Rightarrow> i64 \<Rightarrow> lookup" where
  "lookup_of best now_nanos = (case best of
     None \<Rightarrow> lookup_default
   | Some r \<Rightarrow>
       if entry_tombstone r \<or> (e_ttl r \<noteq> 0 \<and> sint (e_ttl r) \<le> sint now_nanos)
       then lookup_default\<lparr>lk_seq := e_seq r, lk_found := True, lk_deleted := True, lk_kind := e_kind r\<rparr>
       else \<lparr>lk_value = e_value r, lk_seq = e_seq r, lk_found = True, lk_deleted = False,
              lk_kind = e_kind r\<rparr>)"

lemma mem_get_holds:
  assumes c: "user_key_order (compare (mt_cmp m))" and ops: "skip_map ops (ikey_cmp (mt_cmp m))"
    and m: "mem_holds ops hash hist m" and "kinds_ok hist" and "length hist < 2 ^ 64"
  shows "mem_get ops hash k rs now m = lookup_of (newest_visible hist k rs) now"
proof -
  let ?s = "shard_of (hash k)" and ?cmp = "ikey_cmp (mt_cmp m)" and ?nv = "newest_visible hist k rs"
  have s: "?s < NUM_SHARDS" by (rule shard_of_less)
  have empty: "num_entries m = 0 \<longleftrightarrow> hist = []"
    using m assms(5) by (auto simp: mem_holds_def word_unat_eq_iff unat_of_nat)
  have miss: "?nv = None" if "mt_filter m = Some f" "\<not> filter_may_contain (hash k) f" for f
    using m that by (auto simp: mem_holds_def newest_visible_None)
  have "sk_lower_bound ops ?cmp (Included (k, rs)) (shards m ! ?s) =
      find (\<lambda>e. above_bound ?cmp (Included (k, rs)) (fst e)) (ordered_puts ?cmp (shard_hist hash ?s hist))"
    using m s ordered_puts_sorted [OF key_order_ikey_cmp [OF c]]
    by (simp add: skip_map.lower_bound [OF ops] mem_holds_def)
  moreover have "newest_visible (shard_hist hash ?s hist) k rs = ?nv"
    unfolding shard_hist_def by (rule newest_visible_filter) simp
  ultimately have found: "(case sk_lower_bound ops ?cmp (Included (k, rs)) (shards m ! ?s) of
       None \<Rightarrow> None | Some e \<Rightarrow> if fst (fst e) = k then Some e else None) =
      map_option (\<lambda>r. (entry_ikey r, val_of r)) ?nv"
    using first_above_newest [OF c, of k rs "shard_hist hash ?s hist"] by simp
  have kind: "e_kind r \<le> MAX_ASSIGNABLE_KIND" if "?nv = Some r" for r
    using newest_visible_key [OF that] assms(4) by (simp add: kinds_ok_def)
  have eq: "compare (mt_cmp m) a b = Equal \<longleftrightarrow> a = b" for a b
    by (rule key_order.cmp_Equal [OF user_key_order.axioms [OF c]])
  show ?thesis
  proof (cases ?nv)
    case None
    then show ?thesis
      using found by (auto simp: mem_get_def lookup_of_def Let_def eq split: option.splits if_splits)
  next
    case (Some r)
    then have "hist \<noteq> []" using newest_visible_key [OF Some] by auto
    then obtain f where f: "mt_filter m = Some f" "filter_may_contain (hash k) f"
      using m miss Some by (cases "mt_filter m") (auto simp: mem_holds_def)
    have "sk_lower_bound ops ?cmp (Included (k, rs)) (shards m ! ?s) = Some ((k, e_seq r), val_of r)"
      using found Some newest_visible_key [OF Some]
      by (auto simp: entry_ikey_def split: option.splits if_splits)
    with f \<open>hist \<noteq> []\<close> show ?thesis
      using kind [OF Some] tombstone_flag [of r]
      by (simp add: mem_get_def lookup_of_def Let_def eq empty Some kind_roundtrip) (simp add: val_of_def kind_roundtrip)
  qed
qed

section \<open>The snapshot and the version chain\<close>

text \<open>The records a history leaves in place: no later one has the same key and sequence.\<close>

definition current :: "entry list \<Rightarrow> entry set" where
  "current hist = {r \<in> set hist. newest_visible hist (e_key r) (e_seq r) = Some r}"

lemma current_snoc: "current (hist @ [x]) = insert x {r \<in> current hist. entry_ikey r \<noteq> entry_ikey x}"
proof -
  have x: "newest_visible (hist @ [x]) (e_key x) (e_seq x) = Some x"
    using newest_visible_key by (cases "newest_visible hist (e_key x) (e_seq x)") (simp_all add: newest_visible_snoc)
  have "r = x \<or> newest_visible hist (e_key r) (e_seq r) = Some r \<and> entry_ikey r \<noteq> entry_ikey x"
    if "newest_visible (hist @ [x]) (e_key r) (e_seq r) = Some r" for r
  proof (cases "entry_ikey r = entry_ikey x")
    case True
    then have "e_key r = e_key x" "e_seq r = e_seq x" by (simp_all add: entry_ikey_def)
    with that x have "Some x = Some r" by (simp only:)
    then show ?thesis by simp
  next
    case False
    with that show ?thesis unfolding newest_visible_snoc by (metis option.inject)
  qed
  moreover have "newest_visible (hist @ [x]) (e_key r) (e_seq r) = Some r"
    if "newest_visible hist (e_key r) (e_seq r) = Some r" "entry_ikey r \<noteq> entry_ikey x" for r
    using that unfolding newest_visible_snoc entry_ikey_def by (metis Pair_inject option.simps(5) order_antisym)
  ultimately have iff: "newest_visible (hist @ [x]) (e_key r) (e_seq r) = Some r \<longleftrightarrow>
      r = x \<or> newest_visible hist (e_key r) (e_seq r) = Some r \<and> entry_ikey r \<noteq> entry_ikey x" for r
    using x by blast
  show ?thesis
    unfolding current_def iff using newest_visible_key [of hist] by (simp add: set_eq_iff) blast
qed

lemma set_ordered_puts:
  assumes "key_order cmp"
  shows "set (ordered_puts cmp hist) = (\<lambda>r. (entry_ikey r, val_of r)) ` current hist"
proof (induction hist rule: rev_induct)
  case Nil
  then show ?case by (simp add: ordered_puts_def current_def)
next
  case (snoc x hist)
  then show ?case
    using key_order.set_ordered_put [OF assms ordered_puts_sorted [OF assms]]
    by (auto simp: ordered_puts_snoc current_snoc)
qed

lemma current_shard: "current (shard_hist hash s hist) = {r \<in> current hist. shard_of (hash (e_key r)) = s}"
proof -
  have "newest_visible (shard_hist hash s hist) (e_key r) q = newest_visible hist (e_key r) q"
    if "shard_of (hash (e_key r)) = s" for r :: entry and q
    unfolding shard_hist_def by (rule newest_visible_filter) (simp add: that)
  then show ?thesis by (auto simp: current_def) (auto simp: shard_hist_def)
qed

lemma entry_of_val: "e_kind r \<le> MAX_ASSIGNABLE_KIND \<Longrightarrow> entry_of (entry_ikey r, val_of r) = r"
  by (simp add: entry_of_def entry_ikey_def val_of_def kind_roundtrip)

lemma map_sort_by: "map f (sort_by (\<lambda>a b. c (f a) (f b)) xs) = sort_by c (map f xs)"
proof -
  have "map f (insert_by (\<lambda>a b. c (f a) (f b)) x ys) = insert_by c (f x) (map f ys)" for x ys
    by (induction ys) simp_all
  then show ?thesis by (induction xs) simp_all
qed

lemma mset_sort_by: "mset (sort_by c xs) = mset xs"
proof -
  have "mset (insert_by c x ys) = add_mset x (mset ys)" for x ys
    by (induction ys) simp_all
  then show ?thesis by (induction xs) simp_all
qed

lemma distinct_concat_upt:
  assumes "\<forall>i < n. distinct (g i)" and "\<forall>i < n. \<forall>j < n. i \<noteq> j \<longrightarrow> set (g i) \<inter> set (g j) = {}"
  shows "distinct (concat (map g [0..<n]))"
  using assms
proof (induction n)
  case (Suc n)
  then have "set (g i) \<inter> set (g n) = {}" if "i < n" for i
    using that by simp
  then have "set (concat (map g [0..<n])) \<inter> set (g n) = {}"
    by (auto simp: disjoint_iff)
  with Suc show ?case by simp
qed simp

lemma sort_by_strict:
  assumes "key_order cmp" and "distinct (map f xs)"
  shows "sorted_wrt (\<lambda>a b. is_lt (cmp (f a) (f b))) (sort_by (\<lambda>a b. cmp (f a) (f b)) xs)"
proof -
  have "distinct (sort_by cmp (map f xs))"
    using assms(2) mset_eq_imp_distinct_iff [OF mset_sort_by] by blast
  with key_order.sorted_sort_by [OF assms(1)]
  have "sorted_wrt (\<lambda>a b. is_lt (cmp a b)) (map f (sort_by (\<lambda>a b. cmp (f a) (f b)) xs))"
    unfolding map_sort_by by (rule key_order.sorted_le_distinct [OF assms(1)])
  then show ?thesis by (simp add: sorted_wrt_map)
qed

lemma snapshot_holds:
  assumes c: "user_key_order (compare (mt_cmp m))" and m: "mem_holds ops hash hist m" and k: "kinds_ok hist"
  shows "sorted_wrt (\<lambda>a b. is_lt (ikey_cmp (mt_cmp m) (entry_ikey a) (entry_ikey b))) (mem_snapshot ops m)"
    and "set (mem_snapshot ops m) = current hist"
proof -
  let ?cmp = "ikey_cmp (mt_cmp m)"
  define g where "g s = map entry_of (ordered_puts ?cmp (shard_hist hash s hist))" for s
  note order = key_order_ikey_cmp [OF c]
  have shards: "map (\<lambda>shard. map entry_of (sk_iter ops shard)) (shards m) = map g [0..<NUM_SHARDS]"
    using m by (intro nth_equalityI) (auto simp: mem_holds_def g_def)
  have snap: "mem_snapshot ops m = sort_by (\<lambda>a b. ?cmp (entry_ikey a) (entry_ikey b)) (concat (map g [0..<NUM_SHARDS]))"
    by (simp add: mem_snapshot_def Let_def shards ikey_cmp_eq entry_ikey_def is_bytewise_compare)
  have entry: "entry_of (entry_ikey r, val_of r) = r" if "r \<in> current hist" for r
    using that k by (intro entry_of_val) (simp add: current_def kinds_ok_def)
  have set_g: "set (g s) = {r \<in> current hist. shard_of (hash (e_key r)) = s}" for s
  proof -
    have "set (g s) = (\<lambda>r. entry_of (entry_ikey r, val_of r)) ` current (shard_hist hash s hist)"
      by (simp add: g_def set_ordered_puts [OF order] image_image)
    also have "\<dots> = (\<lambda>r. r) ` current (shard_hist hash s hist)"
      by (rule image_cong) (simp_all add: current_shard entry)
    finally show ?thesis by (simp add: current_shard)
  qed
  have ikey: "map entry_ikey (g s) = map fst (ordered_puts ?cmp (shard_hist hash s hist))" for s
    by (auto simp: g_def entry_of_def entry_ikey_def)
  have "distinct (map entry_ikey (g s))" for s
    using ordered_puts_sorted [OF order, of "shard_hist hash s hist"]
    unfolding ikey by (intro key_order.sorted_lt_distinct [OF order]) (simp add: sorted_wrt_map)
  moreover have "set (map entry_ikey (g i)) \<inter> set (map entry_ikey (g j)) = {}" if "i \<noteq> j" for i j
    using that by (auto simp: set_g entry_ikey_def)
  ultimately have "distinct (concat (map (\<lambda>s. map entry_ikey (g s)) [0..<NUM_SHARDS]))"
    by (intro distinct_concat_upt) auto
  then have "distinct (map entry_ikey (concat (map g [0..<NUM_SHARDS])))"
    by (simp add: map_concat comp_def)
  then show "sorted_wrt (\<lambda>a b. is_lt (?cmp (entry_ikey a) (entry_ikey b))) (mem_snapshot ops m)"
    unfolding snap by (rule sort_by_strict [OF order])
  show "set (mem_snapshot ops m) = current hist"
    unfolding snap set_sort_by set_concat set_map using shard_of_less by (auto simp: set_g)
qed

text \<open>What a callback sees of a list of versions: each in turn, until it declines.\<close>

fun feed_versions ::
  "('s \<Rightarrow> u64 \<Rightarrow> u64 \<Rightarrow> bytes option \<Rightarrow> 's \<times> bool) \<Rightarrow> i64 \<Rightarrow> entry list \<Rightarrow> 's \<Rightarrow> 's" where
  "feed_versions f now [] st = st"
| "feed_versions f now (r # rs) st =
     (let dead = entry_tombstone r \<or> (e_ttl r \<noteq> 0 \<and> sint (e_ttl r) \<le> sint now);
          (st, go_on) = f st (e_seq r) (e_kind r) (if dead then None else Some (e_value r))
      in if go_on then feed_versions f now rs st else st)"

lemma chain_loop_feed:
  assumes c: "user_key_order (compare c)" and ops: "skip_map ops (ikey_cmp c)"
    and L: "sk_iter ops shard = pre @ map (\<lambda>r. (entry_ikey r, val_of r)) rs"
    and sorted: "in_key_order (ikey_cmp c) (sk_iter ops shard)"
    and "\<forall>r \<in> set rs. e_kind r \<le> MAX_ASSIGNABLE_KIND" and "length rs < fuel"
  shows "chain_loop ops c shard k now f fuel
      (case rs of [] \<Rightarrow> None | r # _ \<Rightarrow> Some (entry_ikey r, val_of r)) st =
    feed_versions f now (takeWhile (\<lambda>r. e_key r = k) rs) st"
  using L assms(5,6)
proof (induction rs arbitrary: pre fuel st)
  case Nil
  then show ?case by (cases fuel) simp_all
next
  case (Cons r rs)
  obtain n where n: "fuel = Suc n" using Cons.prems by (cases fuel) auto
  have eq: "compare c a b = Equal \<longleftrightarrow> a = b" for a b
    by (rule key_order.cmp_Equal [OF user_key_order.axioms [OF c]])
  have "sk_next ops (ikey_cmp c) (entry_ikey r) shard =
      find (\<lambda>e. above_bound (ikey_cmp c) (Excluded (entry_ikey r)) (fst e)) (sk_iter ops shard)"
    by (rule skip_map.move_next [OF ops sorted]) (simp add: Cons.prems(1))
  also have "\<dots> = (case rs of [] \<Rightarrow> None | r # _ \<Rightarrow> Some (entry_ikey r, val_of r))"
    using key_order.find_successor [OF key_order_ikey_cmp [OF c], of pre "(entry_ikey r, val_of r)"
        "map (\<lambda>r. (entry_ikey r, val_of r)) rs"] sorted Cons.prems(1)
    by (cases rs) (simp_all add: above_bound_def)
  finally have nxt: "sk_next ops (ikey_cmp c) (entry_ikey r) shard = \<dots>" .
  have r: "ucast (v_kind (val_of r)) = e_kind r" "v_ttl (val_of r) = e_ttl r" "v_value (val_of r) = e_value r"
    using Cons.prems(2) by (simp_all add: val_of_def kind_roundtrip)
  show ?case
    using Cons.IH [of "pre @ [(entry_ikey r, val_of r)]" n] Cons.prems tombstone_flag [of r] nxt
    by (auto simp: n entry_ikey_def eq r Let_def split: prod.split)
qed

lemma takeWhile_eq_filter:
  assumes "sorted_wrt R xs" and "\<forall>x \<in> set xs. \<forall>y \<in> set xs. R x y \<longrightarrow> Q y \<longrightarrow> Q x"
  shows "takeWhile Q xs = filter Q xs"
  using assms
proof (induction xs)
  case (Cons x xs)
  then have "\<not> Q x \<Longrightarrow> filter Q xs = []" by (auto simp: filter_empty_conv)
  with Cons show ?case by auto
qed simp

lemma dropWhile_eq_filter:
  assumes "sorted_wrt R xs" and "\<forall>x \<in> set xs. \<forall>y \<in> set xs. R x y \<longrightarrow> P x \<longrightarrow> P y"
  shows "dropWhile (\<lambda>x. \<not> P x) xs = filter P xs"
  using assms
proof (induction xs)
  case (Cons x xs)
  then have "P x \<Longrightarrow> filter P xs = xs" by (auto simp: filter_id_conv)
  with Cons show ?case by auto
qed simp

lemma find_dropWhile: "find P xs = (case dropWhile (\<lambda>x. \<not> P x) xs of [] \<Rightarrow> None | x # _ \<Rightarrow> Some x)"
  by (induction xs) simp_all

definition visible_chain :: "comparator \<Rightarrow> entry list \<Rightarrow> bytes \<Rightarrow> u64 \<Rightarrow> entry list" where
  "visible_chain c hist k rs =
     filter (\<lambda>r. e_key r = k \<and> e_seq r \<le> rs) (map entry_of (ordered_puts (ikey_cmp c) hist))"

lemma entries_of_puts:
  assumes "key_order cmp" and "kinds_ok hist"
  shows "map (\<lambda>r. (entry_ikey r, val_of r)) (map entry_of (ordered_puts cmp hist)) = ordered_puts cmp hist"
    and "set (map entry_of (ordered_puts cmp hist)) = current hist"
proof -
  have e: "entry_of (entry_ikey r, val_of r) = r" if "r \<in> current hist" for r
    using that assms(2) by (intro entry_of_val) (simp add: current_def kinds_ok_def)
  then have "(entry_ikey (entry_of x), val_of (entry_of x)) = x" if "x \<in> set (ordered_puts cmp hist)" for x
    using that by (auto simp: set_ordered_puts [OF assms(1)])
  then show "map (\<lambda>r. (entry_ikey r, val_of r)) (map entry_of (ordered_puts cmp hist)) = ordered_puts cmp hist"
    by (simp add: map_idI)
  show "set (map entry_of (ordered_puts cmp hist)) = current hist"
    using e by (simp add: set_ordered_puts [OF assms(1)] image_image)
qed

lemma visible_chain_spec:
  assumes c: "user_key_order (compare c)" and "kinds_ok hist"
  shows "sorted_wrt (\<lambda>a b. e_seq b < e_seq a) (visible_chain c hist k rs)"
    and "set (visible_chain c hist k rs) = {r \<in> current hist. e_key r = k \<and> e_seq r \<le> rs}"
proof -
  note order = key_order_ikey_cmp [OF c]
  show "set (visible_chain c hist k rs) = {r \<in> current hist. e_key r = k \<and> e_seq r \<le> rs}"
    using entries_of_puts(2) [OF order assms(2)] by (auto simp: visible_chain_def)
  let ?E = "map entry_of (ordered_puts (ikey_cmp c) hist)"
  have "in_key_order (ikey_cmp c) (map (\<lambda>r. (entry_ikey r, val_of r)) ?E)"
    unfolding entries_of_puts(1) [OF order assms(2)] by (rule ordered_puts_sorted [OF order])
  then have "sorted_wrt (\<lambda>a b. is_lt (ikey_cmp c (entry_ikey a) (entry_ikey b))) ?E"
    by (simp add: sorted_wrt_map)
  then have "sorted_wrt (\<lambda>a b. is_lt (ikey_cmp c (entry_ikey a) (entry_ikey b))) (visible_chain c hist k rs)"
    unfolding visible_chain_def by (rule sorted_wrt_filter)
  then show "sorted_wrt (\<lambda>a b. e_seq b < e_seq a) (visible_chain c hist k rs)"
  proof (rule sorted_wrt_mono_rel [rotated])
    fix a b assume ab: "a \<in> set (visible_chain c hist k rs)" "b \<in> set (visible_chain c hist k rs)"
      "is_lt (ikey_cmp c (entry_ikey a) (entry_ikey b))"
    then have "e_key a = e_key b" by (simp add: visible_chain_def)
    moreover have "compare c (e_key b) (e_key b) = Equal"
      using key_order.cmp_Equal [OF user_key_order.axioms [OF c]] by simp
    ultimately show "e_seq b < e_seq a"
      using ab(3) by (simp add: ikey_cmp_eq entry_ikey_def then_with_def ord_cmp_def is_lt_def split: if_splits)
  qed
qed

lemma visible_chain_shard:
  assumes "user_key_order (compare c)" and "kinds_ok hist"
  shows "visible_chain c (shard_hist hash (shard_of (hash k)) hist) k rs = visible_chain c hist k rs"
proof (rule key_order.sorted_on_unique [OF key_order_reverse [OF key_order_ord_cmp], where f = e_seq])
  let ?h = "shard_hist hash (shard_of (hash k)) hist"
  have ok: "kinds_ok ?h" using assms(2) by (simp add: kinds_ok_def shard_hist_def)
  have lt: "is_lt (ord_cmp (e_seq b) (e_seq a)) \<longleftrightarrow> e_seq b < e_seq a" for a b
    by (simp add: ord_cmp_def is_lt_def)
  show "sorted_wrt (\<lambda>a b. is_lt (ord_cmp (e_seq b) (e_seq a))) (visible_chain c ?h k rs)"
    unfolding lt by (rule visible_chain_spec(1) [OF assms(1) ok])
  show "sorted_wrt (\<lambda>a b. is_lt (ord_cmp (e_seq b) (e_seq a))) (visible_chain c hist k rs)"
    unfolding lt by (rule visible_chain_spec(1) [OF assms])
  show "set (visible_chain c ?h k rs) = set (visible_chain c hist k rs)"
    using visible_chain_spec(2) [OF assms(1) ok] visible_chain_spec(2) [OF assms]
    by (auto simp: current_shard)
qed

lemma walk_versions:
  assumes c: "user_key_order (compare c)"
    and sorted: "sorted_wrt (\<lambda>a b. is_lt (ikey_cmp c (entry_ikey a) (entry_ikey b))) E"
  shows "takeWhile (\<lambda>r. e_key r = k)
      (dropWhile (\<lambda>r. \<not> above_bound (ikey_cmp c) (Included (k, rs)) (entry_ikey r)) E) =
    filter (\<lambda>r. e_key r = k \<and> e_seq r \<le> rs) E"
proof -
  let ?cmp = "ikey_cmp c" and ?P = "\<lambda>r. above_bound (ikey_cmp c) (Included (k, rs)) (entry_ikey r)"
  let ?R = "\<lambda>a b. is_lt (ikey_cmp c (entry_ikey a) (entry_ikey b))"
  note order = key_order_ikey_cmp [OF c]
  have P: "?P r \<longleftrightarrow> is_lt (compare c k (e_key r)) \<or> k = e_key r \<and> e_seq r \<le> rs" for r
    using ikey_le_iff [OF c] key_order.is_ge_iff [OF order]
    by (simp add: above_bound_def entry_ikey_def)
  have up: "?R a b \<Longrightarrow> ?P a \<Longrightarrow> ?P b" for a b
    using key_order.above_up [OF order, of "entry_ikey a" "entry_ikey b"] by blast
  have down: "e_key a = k" if R: "?R a b" and a: "?P a" and b: "e_key b = k" for a b
  proof (rule key_order.between_equal [OF user_key_order.axioms [OF c]])
    show "is_le (compare c k (e_key a))"
      using a key_order.lt_imp_le [OF user_key_order.axioms [OF c]]
        key_order.le_refl [OF user_key_order.axioms [OF c]] by (auto simp: P)
    show "is_le (compare c (e_key a) k)"
      using key_order.lt_imp_le [OF order R] key_order.lt_imp_le [OF user_key_order.axioms [OF c]] b
        key_order.le_refl [OF user_key_order.axioms [OF c]]
      by (auto simp: ikey_le_iff [OF c] entry_ikey_def)
  qed
  have "dropWhile (\<lambda>r. \<not> ?P r) E = filter ?P E"
    by (rule dropWhile_eq_filter [OF sorted]) (use up in blast)
  moreover have "takeWhile (\<lambda>r. e_key r = k) (filter ?P E) = filter (\<lambda>r. e_key r = k) (filter ?P E)"
    by (rule takeWhile_eq_filter [OF sorted_wrt_filter [OF sorted]]) (use down in auto)
  moreover have "filter (\<lambda>r. e_key r = k) (filter ?P E) = filter (\<lambda>r. e_key r = k \<and> e_seq r \<le> rs) E"
    using key_order.lt_irrefl [OF user_key_order.axioms [OF c]]
    by (auto simp: P intro!: filter_cong)
  ultimately show ?thesis by simp
qed

lemma shard_walk:
  assumes c: "user_key_order (compare c)" and "kinds_ok hist"
  defines "E \<equiv> map entry_of (ordered_puts (ikey_cmp c) hist)"
  shows "takeWhile (\<lambda>r. e_key r = k)
      (dropWhile (\<lambda>r. \<not> above_bound (ikey_cmp c) (Included (k, rs)) (entry_ikey r)) E) =
    visible_chain c hist k rs"
proof -
  note order = key_order_ikey_cmp [OF c]
  have "in_key_order (ikey_cmp c) (map (\<lambda>r. (entry_ikey r, val_of r)) E)"
    unfolding E_def entries_of_puts(1) [OF order assms(2)] by (rule ordered_puts_sorted [OF order])
  then have "sorted_wrt (\<lambda>a b. is_lt (ikey_cmp c (entry_ikey a) (entry_ikey b))) E" by (simp add: sorted_wrt_map)
  from walk_versions [OF c this] show ?thesis by (simp add: visible_chain_def E_def)
qed

lemma mem_chain_holds:
  assumes c: "user_key_order (compare (mt_cmp m))" and ops: "skip_map ops (ikey_cmp (mt_cmp m))"
    and m: "mem_holds ops hash hist m" and k: "kinds_ok hist" and "length hist < 2 ^ 64"
  shows "mem_chain ops hash k rs now f m st = feed_versions f now (visible_chain (mt_cmp m) hist k rs) st"
proof -
  let ?c = "mt_cmp m" and ?s = "shard_of (hash k)"
  let ?h = "shard_hist hash ?s hist" and ?cmp = "ikey_cmp (mt_cmp m)"
  define E where "E = map entry_of (ordered_puts ?cmp ?h)"
  define P where "P = (\<lambda>r. above_bound ?cmp (Included (k, rs)) (entry_ikey r))"
  note order = key_order_ikey_cmp [OF c]
  have ok: "kinds_ok ?h" using k by (simp add: kinds_ok_def shard_hist_def)
  have it: "sk_iter ops (shards m ! ?s) = map (\<lambda>r. (entry_ikey r, val_of r)) E"
    using m shard_of_less [of "hash k"] entries_of_puts(1) [OF order ok]
    by (simp add: mem_holds_def E_def)
  have sorted: "in_key_order ?cmp (sk_iter ops (shards m ! ?s))"
    using m shard_of_less [of "hash k"] ordered_puts_sorted [OF order] by (simp add: mem_holds_def)
  have chain: "visible_chain ?c hist k rs = takeWhile (\<lambda>r. e_key r = k) (dropWhile (\<lambda>r. \<not> P r) E)"
    using shard_walk [OF c ok, of k rs] visible_chain_shard [OF c k, of hash k rs]
    by (simp add: E_def P_def)
  have first: "dropWhile ((\<lambda>x. \<not> above_bound ?cmp (Included (k, rs)) (fst x)) \<circ> (\<lambda>r. (entry_ikey r, val_of r))) E =
      dropWhile (\<lambda>r. \<not> P r) E"
    by (simp add: comp_def P_def)
  have "sk_lower_bound ops ?cmp (Included (k, rs)) (shards m ! ?s) =
      (case dropWhile (\<lambda>r. \<not> P r) E of [] \<Rightarrow> None | r # _ \<Rightarrow> Some (entry_ikey r, val_of r))"
    unfolding skip_map.lower_bound [OF ops sorted] it find_dropWhile dropWhile_map first
    by (simp add: list.case_eq_if map_is_Nil_conv hd_map)
  moreover have "E = takeWhile (\<lambda>r. \<not> P r) E @ dropWhile (\<lambda>r. \<not> P r) E" by simp
  moreover have "\<forall>r \<in> set (dropWhile (\<lambda>r. \<not> P r) E). e_kind r \<le> MAX_ASSIGNABLE_KIND"
    using entries_of_puts(2) [OF order ok] ok set_dropWhileD [of _ "\<lambda>r. \<not> P r" E]
    by (auto simp: E_def current_def kinds_ok_def simp del: set_map)
  ultimately have walk: "chain_loop ops ?c (shards m ! ?s) k now f (Suc (length (sk_iter ops (shards m ! ?s))))
      (sk_lower_bound ops ?cmp (Included (k, rs)) (shards m ! ?s)) st =
    feed_versions f now (visible_chain ?c hist k rs) st"
    unfolding chain using chain_loop_feed [OF c ops, of "shards m ! ?s"
      "map (\<lambda>r. (entry_ikey r, val_of r)) (takeWhile (\<lambda>r. \<not> P r) E)" "dropWhile (\<lambda>r. \<not> P r) E"
      "Suc (length (sk_iter ops (shards m ! ?s)))"] sorted
    by (simp add: it length_dropWhile_le less_Suc_eq_le map_append [symmetric] del: map_append)
  have empty: "num_entries m = 0 \<longleftrightarrow> hist = []"
    using m assms(5) by (auto simp: mem_holds_def word_unat_eq_iff unat_of_nat)
  have "visible_chain ?c hist k rs = []" if "\<forall>r \<in> set hist. e_key r \<noteq> k"
  proof -
    have "set (visible_chain ?c hist k rs) = {}"
      using visible_chain_spec(2) [OF c k, of k rs] that by (auto simp: current_def)
    then show ?thesis by simp
  qed
  then have "hist = [] \<Longrightarrow> visible_chain ?c hist k rs = []"
    and "mt_filter m = Some w \<Longrightarrow> \<not> filter_may_contain (hash k) w \<Longrightarrow> visible_chain ?c hist k rs = []" for w
    using m by (auto simp: mem_holds_def)
  moreover have "mt_filter m = None \<Longrightarrow> hist = []" using m by (simp add: mem_holds_def)
  ultimately show ?thesis
    using walk empty by (simp add: mem_chain_def Let_def split: option.split)
qed

section \<open>Properties\<close>

text \<open>
  C11. A point read of the memtable returns the newest version visible at the snapshot. After
  any sequence of single inserts, batches and range deletes, reading a key at a sequence
  number finds the record inserted with the largest sequence at or below it (the last one
  inserted, if that sequence was written twice), reports it deleted exactly when it is a
  tombstone or has expired, and reports nothing found exactly when the key has no such
  record. The filter in front of the shards never hides a record.
\<close>

theorem memtable_get_newest:
  assumes "user_key_order (compare c)" and "skip_map ops (ikey_cmp c)"
    and "kinds_ok (history os)" and "length (history os) < 2 ^ 64"
  shows "mem_get ops hash k read_seq now (mem_run ops hash c os) =
    lookup_of (newest_visible (history os) k read_seq) now"
  using mem_get_holds [of "mem_run ops hash c os" ops hash "history os"] mem_run_holds [OF assms(1,2)] assms
  by simp

text \<open>
  C17. The snapshot used for flushing lists the live contents once each: in strictly
  ascending internal order (user key ascending, sequence descending), holding exactly the
  records whose key and sequence were not written again later, whatever shards they are in.
\<close>

theorem memtable_snapshot_sorted:
  assumes "user_key_order (compare c)" and "skip_map ops (ikey_cmp c)" and "kinds_ok (history os)"
  shows "sorted_wrt (\<lambda>a b. is_lt (ikey_cmp c (entry_ikey a) (entry_ikey b)))
      (mem_snapshot ops (mem_run ops hash c os))
    \<and> set (mem_snapshot ops (mem_run ops hash c os)) =
      {r \<in> set (history os). newest_visible (history os) (e_key r) (e_seq r) = Some r}"
  using snapshot_holds [of "mem_run ops hash c os" ops hash "history os"] mem_run_holds [OF assms(1,2)] assms(1,3)
  by (simp add: current_def)

text \<open>
  C18. Walking a key's version chain hands the callback exactly the versions visible at the
  snapshot, newest first and each sequence once, with no value for a deleted or expired one,
  and stops where the callback declines. The walk always ends.
\<close>

theorem memtable_chain_newest_first:
  assumes "user_key_order (compare c)" and "skip_map ops (ikey_cmp c)"
    and "kinds_ok (history os)" and "length (history os) < 2 ^ 64"
  shows "mem_chain ops hash k read_seq now f (mem_run ops hash c os) st =
      feed_versions f now (visible_chain c (history os) k read_seq) st
    \<and> sorted_wrt (\<lambda>a b. e_seq b < e_seq a) (visible_chain c (history os) k read_seq)
    \<and> set (visible_chain c (history os) k read_seq) =
      {r \<in> set (history os). newest_visible (history os) (e_key r) (e_seq r) = Some r
        \<and> e_key r = k \<and> e_seq r \<le> read_seq}"
  using mem_chain_holds [of "mem_run ops hash c os" ops hash "history os"] mem_run_holds [OF assms(1,2)]
    visible_chain_spec [OF assms(1,3), of k read_seq] assms
  by (simp add: current_def)


definition sample_ops :: "mem_op list" where
  "sample_ops =
     [MPut \<lparr>e_key = [1], e_value = [10], e_seq = 3, e_ttl = 0, e_kind = KIND_PUT\<rparr>,
      MBatch [\<lparr>e_key = [2], e_value = [20], e_seq = 4, e_ttl = 0, e_kind = KIND_PUT\<rparr>,
              \<lparr>e_key = [1], e_value = [], e_seq = 5, e_ttl = 0, e_kind = KIND_DELETE\<rparr>],
      MRange [7] [9] 6]"

lemma sample_ops_ok: "kinds_ok (history sample_ops) \<and> length (history sample_ops) < 2 ^ 64"
  by (simp add: sample_ops_def history_def kinds_ok_def kind_defs)

theorem memtable_get_newest_witness:
  "mem_get list_ops (\<lambda>k. 0) [1] 4 0 (mem_run list_ops (\<lambda>k. 0) Bytewise sample_ops) =
     \<lparr>lk_value = [10], lk_seq = 3, lk_found = True, lk_deleted = False, lk_kind = KIND_PUT\<rparr>"
proof -
  have "lookup_of (newest_visible (history sample_ops) [1] 4) 0 =
      \<lparr>lk_value = [10], lk_seq = 3, lk_found = True, lk_deleted = False, lk_kind = KIND_PUT\<rparr>"
    by code_simp
  then show ?thesis
    using memtable_get_newest [OF bytewise.user_key_order_axioms list_map.skip_map_axioms, of sample_ops]
      sample_ops_ok by simp
qed


theorem memtable_snapshot_sorted_witness:
  "set (mem_snapshot list_ops (mem_run list_ops (\<lambda>k. 0) Bytewise sample_ops)) = set (history sample_ops)"
proof -
  have "list_all (\<lambda>r. newest_visible (history sample_ops) (e_key r) (e_seq r) = Some r) (history sample_ops)"
    by code_simp
  then show ?thesis
    using memtable_snapshot_sorted [OF bytewise.user_key_order_axioms list_map.skip_map_axioms, of sample_ops "\<lambda>k. 0"]
      sample_ops_ok by (auto simp: list_all_iff)
qed

theorem memtable_chain_newest_first_witness:
  "mem_chain list_ops (\<lambda>k. 0) [1] 5 0 (\<lambda>st seq kind v. (st @ [(seq, v)], True))
     (mem_run list_ops (\<lambda>k. 0) Bytewise sample_ops) [] = [(5, None), (3, Some [10])]"
proof -
  have "feed_versions (\<lambda>st seq kind v. (st @ [(seq, v)], True)) 0
      (visible_chain Bytewise (history sample_ops) [1] 5) [] = [(5, None), (3, Some [10])]"
    by code_simp
  then show ?thesis
    using memtable_chain_newest_first [OF bytewise.user_key_order_axioms list_map.skip_map_axioms,
        of sample_ops "\<lambda>k. 0" "[1]" 5 0 "\<lambda>st seq kind v. (st @ [(seq, v)], True)" "[]"]
      sample_ops_ok by simp
qed

end
