(* ===== verification/Mem_Merge.thy ===== *)
theory Mem_Merge
  imports Memtable
begin

text \<open>
  The lazy read iterator of \<open>src/src/memtable.rs\<close>: one cursor per shard, kept in a binary
  heap that is a min-heap going forward and a max-heap going backward, with the cursors
  repositioned when the direction turns.

  The lemmas show that any interleaving of seeks and steps in both directions moves exactly
  like a cursor over the sorted snapshot.
\<close>

section \<open>Shard cursors\<close>

record 'm shard_cur =
  sc_map :: 'm
  sc_cur :: "(ikey \<times> val) option"

definition sc_valid :: "'m shard_cur \<Rightarrow> bool" where
  "sc_valid s \<longleftrightarrow> sc_cur s \<noteq> None"

definition sc_seek_first :: "'m skip_ops \<Rightarrow> 'm shard_cur \<Rightarrow> 'm shard_cur" where
  "sc_seek_first ops s = s\<lparr>sc_cur := sk_front ops (sc_map s)\<rparr>"

definition sc_seek_last :: "'m skip_ops \<Rightarrow> 'm shard_cur \<Rightarrow> 'm shard_cur" where
  "sc_seek_last ops s = s\<lparr>sc_cur := sk_back ops (sc_map s)\<rparr>"

definition sc_seek_ge :: "'m skip_ops \<Rightarrow> comparator \<Rightarrow> ikey \<Rightarrow> 'm shard_cur \<Rightarrow> 'm shard_cur" where
  "sc_seek_ge ops c probe s = s\<lparr>sc_cur := sk_lower_bound ops (ikey_cmp c) (Included probe) (sc_map s)\<rparr>"

definition sc_seek_le :: "'m skip_ops \<Rightarrow> comparator \<Rightarrow> ikey \<Rightarrow> 'm shard_cur \<Rightarrow> 'm shard_cur" where
  "sc_seek_le ops c probe s = s\<lparr>sc_cur := sk_upper_bound ops (ikey_cmp c) (Included probe) (sc_map s)\<rparr>"

definition sc_seek_gt :: "'m skip_ops \<Rightarrow> comparator \<Rightarrow> ikey \<Rightarrow> 'm shard_cur \<Rightarrow> 'm shard_cur" where
  "sc_seek_gt ops c probe s = s\<lparr>sc_cur := sk_lower_bound ops (ikey_cmp c) (Excluded probe) (sc_map s)\<rparr>"

definition sc_seek_lt :: "'m skip_ops \<Rightarrow> comparator \<Rightarrow> ikey \<Rightarrow> 'm shard_cur \<Rightarrow> 'm shard_cur" where
  "sc_seek_lt ops c probe s = s\<lparr>sc_cur := sk_upper_bound ops (ikey_cmp c) (Excluded probe) (sc_map s)\<rparr>"

definition sc_step_next :: "'m skip_ops \<Rightarrow> comparator \<Rightarrow> 'm shard_cur \<Rightarrow> 'm shard_cur" where
  "sc_step_next ops c s = (case sc_cur s of
     None \<Rightarrow> s
   | Some e \<Rightarrow> s\<lparr>sc_cur := sk_next ops (ikey_cmp c) (fst e) (sc_map s)\<rparr>)"

definition sc_step_prev :: "'m skip_ops \<Rightarrow> comparator \<Rightarrow> 'm shard_cur \<Rightarrow> 'm shard_cur" where
  "sc_step_prev ops c s = (case sc_cur s of
     None \<Rightarrow> s
   | Some e \<Rightarrow> s\<lparr>sc_cur := sk_prev ops (ikey_cmp c) (fst e) (sc_map s)\<rparr>)"

section \<open>The merge\<close>

record 'm mem_merge =
  mm_shards :: "'m shard_cur list"
  mm_heap :: "nat list"
  mm_dir :: int
  mm_cmp :: comparator

definition mm_new :: "'m memtable \<Rightarrow> 'm mem_merge" where
  "mm_new m = \<lparr>mm_shards = map (\<lambda>sh. \<lparr>sc_map = sh, sc_cur = None\<rparr>) (shards m),
     mm_heap = [], mm_dir = 1, mm_cmp = mt_cmp m\<rparr>"

text \<open>The heap holds valid cursors only, so the accessors' \<open>unwrap\<close> never sees \<open>None\<close>.\<close>

definition mm_before :: "comparator \<Rightarrow> int \<Rightarrow> 'm shard_cur list \<Rightarrow> nat \<Rightarrow> nat \<Rightarrow> bool" where
  "mm_before c dir shs a b = (case (sc_cur (shs ! a), sc_cur (shs ! b)) of
     (Some ((uka, sa), _), Some ((ukb, sb), _)) \<Rightarrow>
       (let ord = then_with (merge_key_cmp c uka ukb) (ord_cmp sb sa)
        in if dir \<ge> 0 then is_lt ord else is_gt ord)
   | _ \<Rightarrow> False)"

definition mm_rebuild :: "'m mem_merge \<Rightarrow> 'm mem_merge" where
  "mm_rebuild s = s\<lparr>mm_heap := heapify (mm_before (mm_cmp s) (mm_dir s) (mm_shards s))
     (filter (\<lambda>i. sc_valid (mm_shards s ! i)) [0..<length (mm_shards s)])\<rparr>"

definition mm_settle_top :: "'m mem_merge \<Rightarrow> 'm mem_merge" where
  "mm_settle_top s = s\<lparr>mm_heap := settle (mm_before (mm_cmp s) (mm_dir s) (mm_shards s))
     (sc_valid (mm_shards s ! (mm_heap s ! 0))) (mm_heap s)\<rparr>"

definition mm_seek_to_first :: "'m skip_ops \<Rightarrow> 'm mem_merge \<Rightarrow> 'm mem_merge" where
  "mm_seek_to_first ops s =
     mm_rebuild (s\<lparr>mm_shards := map (sc_seek_first ops) (mm_shards s), mm_dir := 1\<rparr>)"

definition mm_seek_to_last :: "'m skip_ops \<Rightarrow> 'm mem_merge \<Rightarrow> 'm mem_merge" where
  "mm_seek_to_last ops s =
     mm_rebuild (s\<lparr>mm_shards := map (sc_seek_last ops) (mm_shards s), mm_dir := - 1\<rparr>)"

definition mm_seek_ge :: "'m skip_ops \<Rightarrow> bytes \<Rightarrow> u64 \<Rightarrow> 'm mem_merge \<Rightarrow> 'm mem_merge" where
  "mm_seek_ge ops user_key seq s =
     mm_rebuild (s\<lparr>mm_shards := map (sc_seek_ge ops (mm_cmp s) (user_key, seq)) (mm_shards s), mm_dir := 1\<rparr>)"

definition mm_seek_le :: "'m skip_ops \<Rightarrow> bytes \<Rightarrow> u64 \<Rightarrow> 'm mem_merge \<Rightarrow> 'm mem_merge" where
  "mm_seek_le ops user_key seq s =
     mm_rebuild (s\<lparr>mm_shards := map (sc_seek_le ops (mm_cmp s) (user_key, seq)) (mm_shards s), mm_dir := - 1\<rparr>)"

definition mm_top :: "'m mem_merge \<Rightarrow> (ikey \<times> val) option" where
  "mm_top s = (if mm_heap s = [] then None else sc_cur (mm_shards s ! (mm_heap s ! 0)))"

definition reposition :: "('m shard_cur \<Rightarrow> 'm shard_cur) \<Rightarrow> ('m shard_cur \<Rightarrow> 'm shard_cur)
    \<Rightarrow> nat \<Rightarrow> 'm shard_cur list \<Rightarrow> 'm shard_cur list" where
  "reposition seek step t shs =
     (let shs = map (\<lambda>i. if i \<noteq> t then seek (shs ! i) else shs ! i) [0..<length shs]
      in shs[t := step (shs ! t)])"

definition mm_flip_to_forward :: "'m skip_ops \<Rightarrow> 'm mem_merge \<Rightarrow> 'm mem_merge" where
  "mm_flip_to_forward ops s = (case mm_top s of
     None \<Rightarrow> s
   | Some (probe, _) \<Rightarrow>
       mm_rebuild (s\<lparr>mm_shards := reposition (sc_seek_gt ops (mm_cmp s) probe)
           (sc_step_next ops (mm_cmp s)) (mm_heap s ! 0) (mm_shards s), mm_dir := 1\<rparr>))"

definition mm_flip_to_backward :: "'m skip_ops \<Rightarrow> 'm mem_merge \<Rightarrow> 'm mem_merge" where
  "mm_flip_to_backward ops s = (case mm_top s of
     None \<Rightarrow> s
   | Some (probe, _) \<Rightarrow>
       mm_rebuild (s\<lparr>mm_shards := reposition (sc_seek_lt ops (mm_cmp s) probe)
           (sc_step_prev ops (mm_cmp s)) (mm_heap s ! 0) (mm_shards s), mm_dir := - 1\<rparr>))"

definition mm_next :: "'m skip_ops \<Rightarrow> 'm mem_merge \<Rightarrow> 'm mem_merge" where
  "mm_next ops s =
     (if mm_heap s = [] then s
      else if mm_dir s < 0 then mm_flip_to_forward ops s
      else let idx = mm_heap s ! 0
           in mm_settle_top (s\<lparr>mm_shards := (mm_shards s)[idx := sc_step_next ops (mm_cmp s) (mm_shards s ! idx)]\<rparr>))"

definition mm_prev :: "'m skip_ops \<Rightarrow> 'm mem_merge \<Rightarrow> 'm mem_merge" where
  "mm_prev ops s =
     (if mm_heap s = [] then s
      else if mm_dir s > 0 then mm_flip_to_backward ops s
      else let idx = mm_heap s ! 0
           in mm_settle_top (s\<lparr>mm_shards := (mm_shards s)[idx := sc_step_prev ops (mm_cmp s) (mm_shards s ! idx)]\<rparr>))"

definition mm_valid :: "'m mem_merge \<Rightarrow> bool" where
  "mm_valid s \<longleftrightarrow> mm_heap s \<noteq> []"

text \<open>The public iterator: a seek to a key's newest version, and the entry the accessors read.\<close>

definition mm_seek :: "'m skip_ops \<Rightarrow> bytes \<Rightarrow> 'm mem_merge \<Rightarrow> 'm mem_merge" where
  "mm_seek ops user_key s = mm_seek_ge ops user_key u64_max s"

definition mm_current :: "'m mem_merge \<Rightarrow> entry result" where
  "mm_current s = (case mm_top s of None \<Rightarrow> Inl Panic | Some e \<Rightarrow> Inr (entry_of e))"

section \<open>First entries past a bound\<close>

definition first_above :: "('k \<Rightarrow> 'k \<Rightarrow> ordering) \<Rightarrow> 'k bound \<Rightarrow> ('k \<times> 'v) list \<Rightarrow> ('k \<times> 'v) option" where
  "first_above cmp b L = find (\<lambda>e. above_bound cmp b (fst e)) L"

lemma first_above_ex: "x \<in> set L \<Longrightarrow> above_bound cmp p (fst x) \<Longrightarrow> \<exists>y. first_above cmp p L = Some y"
  unfolding first_above_def by (metis (no_types, lifting) find_None_iff not_None_eq)

lemma first_above_in:
  "first_above cmp p L = Some e \<Longrightarrow> e \<in> set L"
  "first_above cmp p L = Some e \<Longrightarrow> above_bound cmp p (fst e)"
  unfolding first_above_def by (blast dest: find_Some_in)+

lemma heap_order_cong:
  assumes "heap_order f A" and "\<forall>x \<in> A. \<forall>y \<in> A. f x y = g x y"
  shows "heap_order g A"
  using assms unfolding heap_order_def by metis

context key_order
begin

lemma not_lt_iff: "\<not> is_lt (cmp a b) \<longleftrightarrow> is_le (cmp b a)"
  by (rule key.not_less)

lemma le_lt_trans: "is_le (cmp a b) \<Longrightarrow> is_lt (cmp b x) \<Longrightarrow> is_lt (cmp a x)"
  by (rule key.le_less_trans)

lemma lt_le_trans: "is_lt (cmp a b) \<Longrightarrow> is_le (cmp b x) \<Longrightarrow> is_lt (cmp a x)"
  by (rule key.less_le_trans)

lemma le_antisym: "is_le (cmp a b) \<Longrightarrow> is_le (cmp b a) \<Longrightarrow> a = b"
  by (rule key.order_antisym)

lemma le_cases: "is_le (cmp a b) \<Longrightarrow> b = a \<or> is_lt (cmp a b)"
  using key.le_less by blast

lemma heap_order_by_key: "heap_order (\<lambda>i j. is_lt (cmp (f i) (f j))) A"
  by (rule cursors.heap_order_axioms)

lemma above_mono:
  "is_le (cmp a b) \<Longrightarrow> above_bound cmp p a \<Longrightarrow> above_bound cmp p b"
  by (cases p) (auto simp: above_bound_def is_ge_iff is_gt_iff intro: key.order_trans key.less_le_trans)

lemma first_above_Some:
  assumes "in_key_order cmp L" and "first_above cmp p L = Some e" and "x \<in> set L" and "above_bound cmp p (fst x)"
  shows "is_le (cmp (fst e) (fst x))"
  using assms unfolding first_above_def by (induction L) (auto split: if_splits intro: key.less_imp_le)

lemma first_above_eqI:
  assumes "in_key_order cmp L" and "e \<in> set L" and "above_bound cmp p (fst e)"
    and "\<forall>x \<in> set L. above_bound cmp p (fst x) \<longrightarrow> is_le (cmp (fst e) (fst x))"
  shows "first_above cmp p L = Some e"
proof -
  obtain x where x: "first_above cmp p L = Some x"
    using first_above_ex [OF assms(2,3)] by blast
  then have "is_le (cmp (fst x) (fst e))" "is_le (cmp (fst e) (fst x))"
    using first_above_Some [OF assms(1) x assms(2,3)] first_above_in [OF x] assms(4) by auto
  then have "fst x = fst e" by (rule key.order_antisym)
  then show ?thesis
    using sorted_on_inj [OF assms(1), of x e] first_above_in [OF x] assms(2) x by simp
qed

lemma first_above_merge:
  assumes M: "in_key_order cmp M" "set M = \<Union> (set (map set R))" and R: "\<forall>r \<in> set R. in_key_order cmp r"
    and e: "r \<in> set R" "first_above cmp p r = Some e"
    and min: "\<forall>r \<in> set R. \<forall>x. first_above cmp p r = Some x \<longrightarrow> is_le (cmp (fst e) (fst x))"
  shows "first_above cmp p M = Some e"
proof (rule first_above_eqI [OF M(1)])
  show "e \<in> set M" "above_bound cmp p (fst e)"
    using first_above_in [OF e(2)] e(1) M(2) by auto
  show "\<forall>x \<in> set M. above_bound cmp p (fst x) \<longrightarrow> is_le (cmp (fst e) (fst x))"
  proof (intro ballI impI)
    fix x assume x: "x \<in> set M" "above_bound cmp p (fst x)"
    then obtain q where q: "q \<in> set R" "x \<in> set q" using M(2) by auto
    then obtain y where y: "first_above cmp p q = Some y"
      using first_above_ex [OF q(2) x(2)] by blast
    have "is_le (cmp (fst y) (fst x))"
      using first_above_Some [OF _ y q(2) x(2)] R q(1) by blast
    with min q(1) y show "is_le (cmp (fst e) (fst x))" using key.order_trans by blast
  qed
qed

lemma first_above_none:
  assumes "set M = \<Union> (set (map set R))" and "\<forall>r \<in> set R. first_above cmp p r = None"
  shows "first_above cmp p M = None"
  using assms by (auto simp: find_None_iff first_above_def)

text \<open>Past the smallest entry, every other run still stands where it stood.\<close>

lemma first_above_others:
  assumes "in_key_order cmp r" and "above_bound cmp p (fst e)" and "fst e \<notin> fst ` set r"
    and "\<forall>x. first_above cmp p r = Some x \<longrightarrow> is_le (cmp (fst e) (fst x))"
  shows "first_above cmp (Excluded (fst e)) r = first_above cmp p r"
  unfolding first_above_def
proof (rule find_cong [OF refl])
  fix x assume x: "x \<in> set r"
  have ne: "fst x \<noteq> fst e" using x assms(3) by (metis image_eqI)
  show "above_bound cmp (Excluded (fst e)) (fst x) = above_bound cmp p (fst x)"
  proof
    assume "above_bound cmp (Excluded (fst e)) (fst x)"
    then have "is_le (cmp (fst e) (fst x))"
      by (simp add: above_bound_def is_gt_iff key.less_imp_le)
    then show "above_bound cmp p (fst x)" using above_mono assms(2) by blast
  next
    assume a: "above_bound cmp p (fst x)"
    then obtain y where y: "first_above cmp p r = Some y"
      using first_above_ex [OF x a] by blast
    then have "is_le (cmp (fst e) (fst x))"
      using first_above_Some [OF assms(1) y x a] assms(4) key.order_trans by blast
    then show "above_bound cmp (Excluded (fst e)) (fst x)"
      using ne by (simp add: above_bound_def is_gt_iff key.le_less)
  qed
qed

end

section \<open>Where the merge stands\<close>

definition dir_cmp :: "comparator \<Rightarrow> int \<Rightarrow> ikey \<Rightarrow> ikey \<Rightarrow> ordering" where
  "dir_cmp c dir = (if dir \<ge> 0 then ikey_cmp c else (\<lambda>a b. ikey_cmp c b a))"

definition dir_list :: "int \<Rightarrow> 'a list \<Rightarrow> 'a list" where
  "dir_list dir L = (if dir \<ge> 0 then L else rev L)"

definition runs_ok :: "'m skip_ops \<Rightarrow> comparator \<Rightarrow> 'm list \<Rightarrow> bool" where
  "runs_ok ops c maps \<longleftrightarrow>
     (\<forall>m \<in> set maps. in_key_order (ikey_cmp c) (sk_iter ops m))
     \<and> (\<forall>i < length maps. \<forall>j < length maps. i \<noteq> j \<longrightarrow>
          fst ` set (sk_iter ops (maps ! i)) \<inter> fst ` set (sk_iter ops (maps ! j)) = {})"

definition merge_at :: "'m skip_ops \<Rightarrow> ikey bound \<Rightarrow> 'm mem_merge \<Rightarrow> bool" where
  "merge_at ops b s \<longleftrightarrow>
     (\<forall>i < length (mm_shards s). sc_cur (mm_shards s ! i) =
        first_above (dir_cmp (mm_cmp s) (mm_dir s)) b (dir_list (mm_dir s) (sk_iter ops (sc_map (mm_shards s ! i)))))
     \<and> distinct (mm_heap s)
     \<and> set (mm_heap s) = {i. i < length (mm_shards s) \<and> sc_valid (mm_shards s ! i)}
     \<and> heap_from (mm_before (mm_cmp s) (mm_dir s) (mm_shards s)) 0 (mm_heap s)"

lemma set_dir_list [simp]: "set (dir_list d L) = set L"
  by (simp add: dir_list_def)

lemma key_order_dir_cmp: "user_key_order (compare c) \<Longrightarrow> key_order (dir_cmp c d)"
  by (simp add: dir_cmp_def key_order_ikey_cmp key_order_reverse)

lemma sorted_dir_list: "in_key_order (ikey_cmp c) L \<Longrightarrow> in_key_order (dir_cmp c d) (dir_list d L)"
  by (simp add: dir_cmp_def dir_list_def sorted_wrt_rev)

lemma below_above_bound:
  "key_order cmp \<Longrightarrow> below_bound cmp b k = above_bound (\<lambda>a b. cmp b a) b k"
  by (cases b) (simp_all add: below_bound_def above_bound_def key_order.is_ge_iff key_order.is_gt_iff)

abbreviation cur_key :: "'m shard_cur list \<Rightarrow> nat \<Rightarrow> ikey" where
  "cur_key shs i \<equiv> fst (the (sc_cur (shs ! i)))"

lemma mm_before_eq:
  assumes "user_key_order (compare c)" and "sc_valid (shs ! i)" and "sc_valid (shs ! j)"
  shows "mm_before c d shs i j \<longleftrightarrow> is_lt (dir_cmp c d (cur_key shs i) (cur_key shs j))"
proof -
  from assms(2,3) obtain a s v b t w where
    "sc_cur (shs ! i) = Some ((a, s), v)" "sc_cur (shs ! j) = Some ((b, t), w)"
    by (metis sc_valid_def not_None_eq surj_pair)
  moreover have "then_with (merge_key_cmp c a b) (ord_cmp t s) = ikey_cmp c (a, s) (b, t)"
    by (simp add: ikey_cmp_eq merge_key_cmp_eq)
  ultimately show ?thesis
    using key_order.is_gt_iff [OF key_order_ikey_cmp [OF assms(1)]]
    by (simp add: mm_before_def dir_cmp_def Let_def)
qed

lemma mm_before_order:
  assumes "user_key_order (compare c)"
  shows "heap_order (mm_before c d shs) {i. sc_valid (shs ! i)}"
  using key_order.heap_order_by_key [OF key_order_dir_cmp [OF assms], of d "cur_key shs"]
  by (rule heap_order_cong) (simp add: mm_before_eq [OF assms])

lemma rebuild_at:
  assumes "user_key_order (compare (mm_cmp s))"
    and "\<forall>i < length (mm_shards s). sc_cur (mm_shards s ! i) =
      first_above (dir_cmp (mm_cmp s) (mm_dir s)) b (dir_list (mm_dir s) (sk_iter ops (sc_map (mm_shards s ! i))))"
  shows "merge_at ops b (mm_rebuild s)"
proof -
  let ?h = "filter (\<lambda>i. sc_valid (mm_shards s ! i)) [0..<length (mm_shards s)]"
  have "heap_from (mm_before (mm_cmp s) (mm_dir s) (mm_shards s)) 0
      (heapify (mm_before (mm_cmp s) (mm_dir s) (mm_shards s)) ?h)"
    by (rule heap_order.heapify_heap [OF mm_before_order [OF assms(1)]]) auto
  then show ?thesis
    using assms(2) by (auto simp: merge_at_def mm_rebuild_def)
qed

lemma top_in_range:
  assumes "merge_at ops b s" and "mm_top s = Some e"
  shows "mm_heap s ! 0 < length (mm_shards s)" and "sc_cur (mm_shards s ! (mm_heap s ! 0)) = Some e"
  using assms nth_mem [of 0 "mm_heap s"]
  by (auto simp: merge_at_def mm_top_def split: if_splits)

lemma top_none:
  assumes "merge_at ops b s" and "mm_top s = None"
  shows "mm_heap s = []"
proof (rule ccontr)
  assume "mm_heap s \<noteq> []"
  moreover from this have "sc_valid (mm_shards s ! (mm_heap s ! 0))"
    using assms(1) nth_mem [of 0 "mm_heap s"] by (auto simp: merge_at_def)
  ultimately show False using assms(2) by (simp add: mm_top_def sc_valid_def)
qed

lemma top_min:
  assumes "user_key_order (compare (mm_cmp s))" and "merge_at ops b s" and "mm_top s = Some e"
    and "i < length (mm_shards s)" and "sc_cur (mm_shards s ! i) = Some x"
  shows "is_le (dir_cmp (mm_cmp s) (mm_dir s) (fst e) (fst x))"
proof -
  let ?t = "mm_heap s ! 0" and ?before = "mm_before (mm_cmp s) (mm_dir s) (mm_shards s)"
  have h: "mm_heap s \<noteq> []" "sc_cur (mm_shards s ! ?t) = Some e"
    using assms(3) by (auto simp: mm_top_def split: if_splits)
  have "sc_valid (mm_shards s ! i)" using assms(5) by (simp add: sc_valid_def)
  then have "set (mm_heap s) \<subseteq> {i. sc_valid (mm_shards s ! i)}" "i \<in> set (mm_heap s)"
    using assms(2,4) by (auto simp: merge_at_def)
  moreover have "heap_from ?before 0 (mm_heap s)" using assms(2) by (simp add: merge_at_def)
  ultimately have "\<not> ?before i ?t"
    using heap_order.heap_top_min [OF mm_before_order [OF assms(1)]] by blast
  then show ?thesis
    using mm_before_eq [OF assms(1), of "mm_shards s" i ?t "mm_dir s"] h(2) assms(5)
      key_order.not_lt_iff [OF key_order_dir_cmp [OF assms(1)]]
    by (simp add: sc_valid_def)
qed

lemma top_at:
  assumes c: "user_key_order (compare (mm_cmp s))" and s: "merge_at ops b s"
    and runs: "runs_ok ops (mm_cmp s) (map sc_map (mm_shards s))"
    and M: "in_key_order (ikey_cmp (mm_cmp s)) M"
      "set M = \<Union> (set (map (\<lambda>sc. set (sk_iter ops (sc_map sc))) (mm_shards s)))"
  shows "mm_top s = first_above (dir_cmp (mm_cmp s) (mm_dir s)) b (dir_list (mm_dir s) M)"
proof -
  let ?D = "dir_cmp (mm_cmp s) (mm_dir s)"
  define R where "R = map (\<lambda>sc. dir_list (mm_dir s) (sk_iter ops (sc_map sc))) (mm_shards s)"
  note order = key_order_dir_cmp [OF c, of "mm_dir s"]
  have sM: "in_key_order ?D (dir_list (mm_dir s) M)" using M(1) by (rule sorted_dir_list)
  have uM: "set (dir_list (mm_dir s) M) = \<Union> (set (map set R))"
    using M(2) by (simp add: R_def image_image)
  have cur: "sc_cur (mm_shards s ! i) = first_above ?D b (R ! i)" if "i < length R" for i
    using s that by (simp add: merge_at_def R_def)
  have len: "length R = length (mm_shards s)" by (simp add: R_def)
  show ?thesis
  proof (cases "mm_top s")
    case None
    then have "mm_heap s = []" by (rule top_none [OF s])
    then have "{i. i < length R \<and> sc_valid (mm_shards s ! i)} = {}"
      using s by (simp add: merge_at_def R_def)
    then have "sc_cur (mm_shards s ! i) = None" if "i < length R" for i
      using that unfolding sc_valid_def by blast
    with cur have "\<forall>i < length R. first_above ?D b (R ! i) = None" by simp
    then have "\<forall>r \<in> set R. first_above ?D b r = None" unfolding all_set_conv_all_nth .
    from key_order.first_above_none [OF order uM this] show ?thesis by (simp only: None)
  next
    case (Some e)
    let ?t = "mm_heap s ! 0"
    have h: "mm_heap s \<noteq> []" "sc_cur (mm_shards s ! ?t) = Some e"
      using Some by (auto simp: mm_top_def split: if_splits)
    then have t: "?t < length R"
      using s nth_mem [of 0 "mm_heap s"] by (auto simp: merge_at_def R_def)
    have sorted: "\<forall>r \<in> set R. in_key_order ?D r"
      using runs by (auto simp: R_def runs_ok_def intro: sorted_dir_list)
    have "is_le (?D (fst e) (fst x))" if "i < length R" "first_above ?D b (R ! i) = Some x" for i x
      using top_min [OF c s Some, of i x] that unfolding len cur [OF that(1)] by blast
    then have min: "\<forall>r \<in> set R. \<forall>x. first_above ?D b r = Some x \<longrightarrow> is_le (?D (fst e) (fst x))"
      unfolding all_set_conv_all_nth by blast
    have "first_above ?D b (R ! ?t) = Some e" by (simp only: h(2) cur [OF t, symmetric])
    from key_order.first_above_merge [OF order sM uM sorted nth_mem [OF t] this min] show ?thesis by (simp only: Some)
  qed
qed

section \<open>One step of the merge\<close>

text \<open>Cursors that stood at their first entry past the bound, moved one entry past the top.\<close>

lemma past_top:
  assumes c: "user_key_order (compare (mm_cmp s))" and s: "merge_at ops b s"
    and runs: "runs_ok ops (mm_cmp s) (map sc_map (mm_shards s))"
    and e: "mm_top s = Some e" and i: "i < length (mm_shards s)" "i \<noteq> mm_heap s ! 0"
  shows "sc_cur (mm_shards s ! i) = first_above (dir_cmp (mm_cmp s) (mm_dir s)) (Excluded (fst e))
    (dir_list (mm_dir s) (sk_iter ops (sc_map (mm_shards s ! i))))"
proof -
  let ?D = "dir_cmp (mm_cmp s) (mm_dir s)" and ?t = "mm_heap s ! 0"
  let ?r = "\<lambda>i. dir_list (mm_dir s) (sk_iter ops (sc_map (mm_shards s ! i)))"
  have cur: "sc_cur (mm_shards s ! i) = first_above ?D b (?r i)" if "i < length (mm_shards s)" for i
    using s that by (simp add: merge_at_def)
  have t: "?t < length (mm_shards s)" "first_above ?D b (?r ?t) = Some e"
    using top_in_range [OF s e] cur by auto
  have e': "fst e \<in> fst ` set (?r ?t)" "above_bound ?D b (fst e)"
    using first_above_in [OF t(2)] by (blast, blast)
  moreover have "fst ` set (?r i) \<inter> fst ` set (?r ?t) = {}"
    using runs i t(1) by (simp add: runs_ok_def)
  then have "fst e \<notin> fst ` set (?r i)" using e'(1) by blast
  moreover have "in_key_order ?D (?r i)"
    using runs i(1) by (auto simp: runs_ok_def intro!: sorted_dir_list)
  moreover have "\<forall>x. first_above ?D b (?r i) = Some x \<longrightarrow> is_le (?D (fst e) (fst x))"
    using top_min [OF c s e i(1)] unfolding cur [OF i(1)] by blast
  ultimately show ?thesis
    using key_order.first_above_others [OF key_order_dir_cmp [OF c], of "mm_dir s" "?r i" b e]
    unfolding cur [OF i(1)] by metis
qed

lemma advance_at:
  assumes c: "user_key_order (compare (mm_cmp s))" and s: "merge_at ops b s"
    and runs: "runs_ok ops (mm_cmp s) (map sc_map (mm_shards s))"
    and e: "mm_top s = Some e"
    and sc: "sc_map sc = sc_map (mm_shards s ! (mm_heap s ! 0))"
      "sc_cur sc = first_above (dir_cmp (mm_cmp s) (mm_dir s)) (Excluded (fst e))
         (dir_list (mm_dir s) (sk_iter ops (sc_map sc)))"
  shows "merge_at ops (Excluded (fst e)) (mm_settle_top (s\<lparr>mm_shards := (mm_shards s)[mm_heap s ! 0 := sc]\<rparr>))"
proof -
  let ?t = "mm_heap s ! 0"
  define shs where "shs = (mm_shards s)[?t := sc]"
  let ?before = "mm_before (mm_cmp s) (mm_dir s) shs"
  let ?h = "settle ?before (sc_valid (shs ! ?t)) (mm_heap s)"
  have t: "?t < length (mm_shards s)" "mm_heap s \<noteq> []" "sc_valid (mm_shards s ! ?t)"
    using top_in_range [OF s e] e by (simp_all add: mm_top_def sc_valid_def split: if_splits)
  have heap: "distinct (mm_heap s)" "set (mm_heap s) = {i. i < length (mm_shards s) \<and> sc_valid (mm_shards s ! i)}"
    "heap_from (mm_before (mm_cmp s) (mm_dir s) (mm_shards s)) 0 (mm_heap s)"
    using s by (simp_all add: merge_at_def)
  have other: "shs ! i = mm_shards s ! i" if "i \<noteq> ?t" for i using that by (simp add: shs_def)
  have cur: "sc_cur (shs ! i) = first_above (dir_cmp (mm_cmp s) (mm_dir s)) (Excluded (fst e))
      (dir_list (mm_dir s) (sk_iter ops (sc_map (shs ! i))))" if "i < length shs" for i
    using past_top [OF c s runs e, of i] that sc t(1) by (cases "i = ?t") (simp_all add: shs_def)
  have valid: "set ?h = {i. i < length shs \<and> sc_valid (shs ! i)}"
    unfolding set_settle(1) [OF t(2) heap(1)] heap(2) using t(1,3) other
    by (cases "sc_valid (shs ! ?t)") (auto simp: shs_def nth_list_update)
  have "heap_from ?before 0 ?h"
  proof (rule heap_order.settle_heap [OF mm_before_order [OF c] heap(3,1) t(2)])
    show "\<forall>x \<in> set (mm_heap s) - {?t}. \<forall>y \<in> set (mm_heap s) - {?t}.
        ?before x y = mm_before (mm_cmp s) (mm_dir s) (mm_shards s) x y"
      by (simp add: mm_before_def other)
  qed (auto simp: valid)
  moreover have "distinct ?h" by (rule set_settle(2) [OF t(2) heap(1)])
  moreover have "mm_settle_top (s\<lparr>mm_shards := shs\<rparr>) = s\<lparr>mm_shards := shs, mm_heap := ?h\<rparr>"
    by (simp add: mm_settle_top_def)
  ultimately show ?thesis
    unfolding shs_def [symmetric] using cur valid by (simp add: merge_at_def)
qed

section \<open>Seeks, steps and turns\<close>

lemma first_above_start:
  "first_above cmp Unbounded L = (case L of [] \<Rightarrow> None | e # _ \<Rightarrow> Some e)"
  by (cases L) (simp_all add: first_above_def above_bound_def)

context skip_map
begin

text \<open>Each cursor movement lands on a first entry, in the direction it looks.\<close>

lemma cursor_moves:
  assumes "key_order cmp" and "in_key_order cmp (sk_iter ops m)"
  shows "sk_front ops m = first_above cmp Unbounded (sk_iter ops m)"
    and "sk_back ops m = first_above (\<lambda>a b. cmp b a) Unbounded (rev (sk_iter ops m))"
    and "sk_lower_bound ops cmp p m = first_above cmp p (sk_iter ops m)"
    and "sk_upper_bound ops cmp p m = first_above (\<lambda>a b. cmp b a) p (rev (sk_iter ops m))"
    and "k \<in> fst ` set (sk_iter ops m) \<Longrightarrow> sk_next ops cmp k m = first_above cmp (Excluded k) (sk_iter ops m)"
    and "k \<in> fst ` set (sk_iter ops m) \<Longrightarrow>
      sk_prev ops cmp k m = first_above (\<lambda>a b. cmp b a) (Excluded k) (rev (sk_iter ops m))"
  using assms(2)
  by (simp_all only: first_above_start front_entry back_entry lower_bound upper_bound move_next move_prev
      first_above_def [symmetric] below_above_bound [OF assms(1)])

end

definition cursor_at :: "'m skip_ops \<Rightarrow> comparator \<Rightarrow> int \<Rightarrow> ikey bound \<Rightarrow> 'm shard_cur \<Rightarrow> bool" where
  "cursor_at ops c d b sc \<longleftrightarrow> sc_cur sc = first_above (dir_cmp c d) b (dir_list d (sk_iter ops (sc_map sc)))"

lemma shard_cursor_moves:
  assumes "user_key_order (compare c)" and "skip_map ops (ikey_cmp c)"
    and "in_key_order (ikey_cmp c) (sk_iter ops (sc_map sc))"
  shows "cursor_at ops c 1 Unbounded (sc_seek_first ops sc)"
    and "cursor_at ops c (- 1) Unbounded (sc_seek_last ops sc)"
    and "cursor_at ops c 1 (Included p) (sc_seek_ge ops c p sc)"
    and "cursor_at ops c (- 1) (Included p) (sc_seek_le ops c p sc)"
    and "cursor_at ops c 1 (Excluded p) (sc_seek_gt ops c p sc)"
    and "cursor_at ops c (- 1) (Excluded p) (sc_seek_lt ops c p sc)"
  using skip_map.cursor_moves(1-4) [OF assms(2) key_order_ikey_cmp [OF assms(1)] assms(3)]
  by (simp_all add: cursor_at_def dir_cmp_def dir_list_def sc_seek_first_def sc_seek_last_def
      sc_seek_ge_def sc_seek_le_def sc_seek_gt_def sc_seek_lt_def)

lemma shard_cursor_steps:
  assumes "user_key_order (compare c)" and "skip_map ops (ikey_cmp c)"
    and "in_key_order (ikey_cmp c) (sk_iter ops (sc_map sc))"
    and "sc_cur sc = Some e" and "e \<in> set (sk_iter ops (sc_map sc))"
  shows "d \<ge> 0 \<Longrightarrow> cursor_at ops c d (Excluded (fst e)) (sc_step_next ops c sc)"
    and "d < 0 \<Longrightarrow> cursor_at ops c d (Excluded (fst e)) (sc_step_prev ops c sc)"
  using skip_map.cursor_moves(5-6) [OF assms(2) key_order_ikey_cmp [OF assms(1)] assms(3), of "fst e"] assms(4,5)
  by (simp_all add: cursor_at_def dir_cmp_def dir_list_def sc_step_next_def sc_step_prev_def)

lemma sc_map_moves [simp]:
  "sc_map (sc_seek_first ops sc) = sc_map sc" "sc_map (sc_seek_last ops sc) = sc_map sc"
  "sc_map (sc_seek_ge ops c p sc) = sc_map sc" "sc_map (sc_seek_le ops c p sc) = sc_map sc"
  "sc_map (sc_seek_gt ops c p sc) = sc_map sc" "sc_map (sc_seek_lt ops c p sc) = sc_map sc"
  "sc_map (sc_step_next ops c sc) = sc_map sc" "sc_map (sc_step_prev ops c sc) = sc_map sc"
  by (simp_all add: sc_seek_first_def sc_seek_last_def sc_seek_ge_def sc_seek_le_def sc_seek_gt_def
      sc_seek_lt_def sc_step_next_def sc_step_prev_def split: option.splits)

lemma rebuild_cursors:
  assumes "user_key_order (compare (mm_cmp s))"
    and "\<forall>sc \<in> set (mm_shards s). cursor_at ops (mm_cmp s) (mm_dir s) b sc"
  shows "merge_at ops b (mm_rebuild s)"
  using assms by (intro rebuild_at) (simp_all add: cursor_at_def)

lemma seeks_at:
  assumes c: "user_key_order (compare (mm_cmp s))" and sm: "skip_map ops (ikey_cmp (mm_cmp s))"
    and runs: "runs_ok ops (mm_cmp s) (map sc_map (mm_shards s))"
  shows "merge_at ops Unbounded (mm_seek_to_first ops s)"
    and "merge_at ops Unbounded (mm_seek_to_last ops s)"
    and "merge_at ops (Included (k, q)) (mm_seek_ge ops k q s)"
    and "merge_at ops (Included (k, q)) (mm_seek_le ops k q s)"
  using runs unfolding mm_seek_to_first_def mm_seek_to_last_def mm_seek_ge_def mm_seek_le_def runs_ok_def
  by (auto intro!: rebuild_cursors shard_cursor_moves simp: c sm)

lemma reposition_cursors:
  assumes "t < length shs" and "P (step (shs ! t))" and "\<forall>sc \<in> set shs. P (seek sc)"
  shows "\<forall>sc \<in> set (reposition seek step t shs). P sc"
  using assms unfolding reposition_def all_set_conv_all_nth
  by (simp add: Let_def nth_list_update)

lemma map_reposition [simp]:
  assumes "\<forall>sc. f (seek sc) = f sc" and "\<forall>sc. f (step sc) = f sc"
  shows "map f (reposition seek step t shs) = map f shs"
proof (intro nth_equalityI)
  fix i assume "i < length (map f (reposition seek step t shs))"
  then show "map f (reposition seek step t shs) ! i = map f shs ! i"
    using assms by (cases "i = t") (simp_all add: reposition_def Let_def)
qed (simp add: reposition_def Let_def)

text \<open>Whatever the direction, a step leaves every cursor just past the entry it stood on.\<close>

lemma steps_at:
  assumes c: "user_key_order (compare (mm_cmp s))" and sm: "skip_map ops (ikey_cmp (mm_cmp s))"
    and runs: "runs_ok ops (mm_cmp s) (map sc_map (mm_shards s))"
    and s: "merge_at ops b s" and e: "mm_top s = Some e"
  shows "merge_at ops (Excluded (fst e)) (mm_next ops s)"
    and "mm_dir s \<noteq> 0 \<Longrightarrow> merge_at ops (Excluded (fst e)) (mm_prev ops s)"
proof -
  let ?t = "mm_heap s ! 0"
  let ?sc = "mm_shards s ! ?t"
  note top = top_in_range [OF s e]
  have heap: "mm_heap s \<noteq> []" using e by (auto simp: mm_top_def)
  have sorted: "in_key_order (ikey_cmp (mm_cmp s)) (sk_iter ops (sc_map sc))" if "sc \<in> set (mm_shards s)" for sc
    using runs that by (simp add: runs_ok_def)
  have "cursor_at ops (mm_cmp s) (mm_dir s) b ?sc"
    using s top(1) by (simp add: merge_at_def cursor_at_def)
  then have "e \<in> set (sk_iter ops (sc_map ?sc))"
    using top(2) first_above_in(1) unfolding cursor_at_def by (metis set_dir_list)
  note steps = shard_cursor_steps [OF c sm sorted [OF nth_mem [OF top(1)]] top(2) this]
  note moves = shard_cursor_moves [OF c sm sorted]
  obtain p v where pv: "e = (p, v)" by (cases e)
  show "merge_at ops (Excluded (fst e)) (mm_next ops s)"
  proof (cases "mm_dir s < 0")
    case True
    have "\<forall>sc \<in> set (reposition (sc_seek_gt ops (mm_cmp s) p) (sc_step_next ops (mm_cmp s)) ?t (mm_shards s)).
        cursor_at ops (mm_cmp s) (1) (Excluded p) sc"
      using steps(1) [of "1"] moves(5) pv by (intro reposition_cursors top(1)) simp_all
    then show ?thesis
      using True heap e pv
      by (auto simp: mm_next_def mm_flip_to_forward_def intro!: rebuild_cursors c)
  next
    case False
    then show ?thesis
      using heap advance_at [OF c s runs e, of "sc_step_next ops (mm_cmp s) ?sc"] steps(1) [of "mm_dir s"]
      by (simp add: mm_next_def cursor_at_def Let_def)
  qed
  show "merge_at ops (Excluded (fst e)) (mm_prev ops s)" if "mm_dir s \<noteq> 0"
  proof (cases "mm_dir s > 0")
    case True
    have "\<forall>sc \<in> set (reposition (sc_seek_lt ops (mm_cmp s) p) (sc_step_prev ops (mm_cmp s)) ?t (mm_shards s)).
        cursor_at ops (mm_cmp s) (- 1) (Excluded p) sc"
      using steps(2) [of "- 1"] moves(6) pv by (intro reposition_cursors top(1)) simp_all
    then show ?thesis
      using True heap e pv
      by (auto simp: mm_prev_def mm_flip_to_backward_def intro!: rebuild_cursors c)
  next
    case False
    then show ?thesis
      using that heap advance_at [OF c s runs e, of "sc_step_prev ops (mm_cmp s) ?sc"] steps(2) [of "mm_dir s"]
      by (simp add: mm_prev_def cursor_at_def Let_def)
  qed
qed

section \<open>The iterator as a cursor over the snapshot\<close>

datatype cursor_op = SeekFirst | SeekLast | SeekGe bytes u64 | SeekLe bytes u64 | StepNext | StepPrev

fun mm_apply :: "'m skip_ops \<Rightarrow> cursor_op \<Rightarrow> 'm mem_merge \<Rightarrow> 'm mem_merge" where
  "mm_apply ops SeekFirst s = mm_seek_to_first ops s"
| "mm_apply ops SeekLast s = mm_seek_to_last ops s"
| "mm_apply ops (SeekGe k q) s = mm_seek_ge ops k q s"
| "mm_apply ops (SeekLe k q) s = mm_seek_le ops k q s"
| "mm_apply ops StepNext s = mm_next ops s"
| "mm_apply ops StepPrev s = mm_prev ops s"

text \<open>The same operations on a position in a sorted list of entries.\<close>

fun scan_apply :: "comparator \<Rightarrow> entry list \<Rightarrow> cursor_op \<Rightarrow> entry option \<Rightarrow> entry option" where
  "scan_apply c S SeekFirst cur = find (\<lambda>_. True) S"
| "scan_apply c S SeekLast cur = find (\<lambda>_. True) (rev S)"
| "scan_apply c S (SeekGe k q) cur = find (\<lambda>x. is_ge (ikey_cmp c (entry_ikey x) (k, q))) S"
| "scan_apply c S (SeekLe k q) cur = find (\<lambda>x. is_le (ikey_cmp c (entry_ikey x) (k, q))) (rev S)"
| "scan_apply c S StepNext cur = (case cur of None \<Rightarrow> None
     | Some e \<Rightarrow> find (\<lambda>x. is_gt (ikey_cmp c (entry_ikey x) (entry_ikey e))) S)"
| "scan_apply c S StepPrev cur = (case cur of None \<Rightarrow> None
     | Some e \<Rightarrow> find (\<lambda>x. is_lt (ikey_cmp c (entry_ikey x) (entry_ikey e))) (rev S))"

definition op_bound :: "cursor_op \<Rightarrow> ikey option \<Rightarrow> ikey bound" where
  "op_bound op cur = (case op of SeekGe k q \<Rightarrow> Included (k, q) | SeekLe k q \<Rightarrow> Included (k, q)
     | StepNext \<Rightarrow> Excluded (the cur) | StepPrev \<Rightarrow> Excluded (the cur) | _ \<Rightarrow> Unbounded)"

definition op_dir :: "cursor_op \<Rightarrow> int" where
  "op_dir op = (if op \<in> {SeekLast, StepPrev} \<or> (\<exists>k q. op = SeekLe k q) then - 1 else 1)"

definition op_moves :: "cursor_op \<Rightarrow> bool" where
  "op_moves op \<longleftrightarrow> op \<in> {StepNext, StepPrev}"

lemma map_list_update_same: "f y = f (xs ! i) \<Longrightarrow> map f (xs[i := y]) = map f xs"
  by (cases "i < length xs") (simp_all add: map_update list_update_same_conv list_update_beyond)

text \<open>The shape every operation keeps: the shards, the order, a direction of 1 or -1.\<close>

definition mm_keeps :: "'m mem_merge \<Rightarrow> 'm mem_merge \<Rightarrow> bool" where
  "mm_keeps s t \<longleftrightarrow> map sc_map (mm_shards t) = map sc_map (mm_shards s) \<and> mm_cmp t = mm_cmp s"

lemma mm_apply_keeps: "mm_keeps s (mm_apply ops op s)"
  by (cases op)
     (auto simp: mm_keeps_def mm_seek_to_first_def mm_seek_to_last_def mm_seek_ge_def mm_seek_le_def mm_rebuild_def
       mm_next_def mm_prev_def mm_flip_to_forward_def mm_flip_to_backward_def mm_settle_top_def Let_def comp_def
       map_list_update_same split: option.split)

lemma mm_apply_dir:
  assumes "mm_dir s \<in> {1, - 1}" and "op_moves op \<Longrightarrow> mm_top s \<noteq> None"
  shows "mm_dir (mm_apply ops op s) = op_dir op"
  using assms
  by (cases op)
     (auto simp: op_dir_def op_moves_def mm_seek_to_first_def mm_seek_to_last_def mm_seek_ge_def mm_seek_le_def mm_rebuild_def
       mm_next_def mm_prev_def mm_flip_to_forward_def mm_flip_to_backward_def mm_settle_top_def Let_def mm_top_def)

lemma mm_apply_at:
  assumes c: "user_key_order (compare (mm_cmp s))" and sm: "skip_map ops (ikey_cmp (mm_cmp s))"
    and runs: "runs_ok ops (mm_cmp s) (map sc_map (mm_shards s))"
    and d: "mm_dir s \<in> {1, - 1}"
    and s: "op_moves op \<Longrightarrow> merge_at ops b s \<and> mm_top s = Some e"
  shows "merge_at ops (op_bound op (Some (fst e))) (mm_apply ops op s)"
  using seeks_at [OF c sm runs] steps_at [OF c sm runs, of b e] d s
  by (cases op) (auto simp: op_bound_def op_moves_def)

lemma mm_apply_top:
  assumes c: "user_key_order (compare (mm_cmp s))" and sm: "skip_map ops (ikey_cmp (mm_cmp s))"
    and runs: "runs_ok ops (mm_cmp s) (map sc_map (mm_shards s))"
    and M: "in_key_order (ikey_cmp (mm_cmp s)) M"
      "set M = \<Union> (set (map (\<lambda>sc. set (sk_iter ops (sc_map sc))) (mm_shards s)))"
    and d: "mm_dir s \<in> {1, - 1}"
    and s: "op_moves op \<Longrightarrow> merge_at ops b s \<and> mm_top s = Some e"
  shows "mm_top (mm_apply ops op s) =
    first_above (dir_cmp (mm_cmp s) (op_dir op)) (op_bound op (Some (fst e))) (dir_list (op_dir op) M)"
proof -
  have keeps: "map sc_map (mm_shards (mm_apply ops op s)) = map sc_map (mm_shards s)"
    "mm_cmp (mm_apply ops op s) = mm_cmp s"
    using mm_apply_keeps [of s ops op] by (simp_all add: mm_keeps_def)
  have dir: "mm_dir (mm_apply ops op s) = op_dir op"
    using s by (intro mm_apply_dir [OF d]) simp
  have "map (\<lambda>sc. set (sk_iter ops (sc_map sc))) (mm_shards (mm_apply ops op s)) =
      map (\<lambda>sc. set (sk_iter ops (sc_map sc))) (mm_shards s)"
    using arg_cong [OF keeps(1), of "map (\<lambda>m. set (sk_iter ops m))"] by (simp add: comp_def)
  moreover have "merge_at ops (op_bound op (Some (fst e))) (mm_apply ops op s)"
    by (rule mm_apply_at [OF c sm runs d]) (rule s)
  from top_at [OF _ this, of M] have "mm_top (mm_apply ops op s) =
      first_above (dir_cmp (mm_cmp s) (op_dir op)) (op_bound op (Some (fst e))) (dir_list (op_dir op) M)"
    if "set M = \<Union> (set (map (\<lambda>sc. set (sk_iter ops (sc_map sc))) (mm_shards (mm_apply ops op s))))"
    using that c runs M(1) unfolding keeps dir by blast
  ultimately show ?thesis using M(2) by simp
qed

definition mm_sim :: "'m skip_ops \<Rightarrow> comparator \<Rightarrow> 'm list \<Rightarrow> 'm mem_merge \<Rightarrow> bool" where
  "mm_sim ops c maps s \<longleftrightarrow> map sc_map (mm_shards s) = maps \<and> mm_cmp s = c
     \<and> mm_dir s \<in> {1, - 1} \<and> (mm_heap s = [] \<or> (\<exists>b. merge_at ops b s))"

lemma find_map: "find P (map f xs) = map_option f (find (\<lambda>x. P (f x)) xs)"
  by (induction xs) simp_all

lemma entry_ikey_of: "entry_ikey (entry_of x) = fst x"
  by (cases x) (auto simp: entry_of_def entry_ikey_def)

lemma scan_apply_first_above:
  assumes "user_key_order (compare c)" and "op_moves op \<Longrightarrow> cur = Some e"
  shows "scan_apply c (map entry_of M) op (map_option entry_of cur) =
    map_option entry_of (first_above (dir_cmp c (op_dir op)) (op_bound op (Some (fst e))) (dir_list (op_dir op) M))"
  using assms(2) key_order.is_ge_iff [OF key_order_ikey_cmp [OF assms(1)]]
    key_order.is_gt_iff [OF key_order_ikey_cmp [OF assms(1)]]
  by (cases op) (simp_all add: op_bound_def op_dir_def op_moves_def dir_cmp_def dir_list_def first_above_def
      above_bound_def rev_map find_map entry_ikey_of)

lemma mm_apply_sim:
  assumes c: "user_key_order (compare c)" and sm: "skip_map ops (ikey_cmp c)"
    and runs: "runs_ok ops c maps"
    and M: "in_key_order (ikey_cmp c) M" "set M = \<Union> (set (map (\<lambda>sh. set (sk_iter ops sh)) maps))"
    and s: "mm_sim ops c maps s"
  shows "mm_sim ops c maps (mm_apply ops op s) \<and>
    map_option entry_of (mm_top (mm_apply ops op s)) =
      scan_apply c (map entry_of M) op (map_option entry_of (mm_top s))"
proof (cases "op_moves op \<and> mm_top s = None")
  case True
  then have "mm_heap s = []" using s top_none unfolding mm_sim_def by blast
  with True have "mm_apply ops op s = s \<and> scan_apply c (map entry_of M) op None = None"
    by (auto simp: op_moves_def mm_next_def mm_prev_def)
  with True s show ?thesis by simp
next
  case False
  then obtain b e where at: "op_moves op \<Longrightarrow> merge_at ops b s \<and> mm_top s = Some e"
    using s unfolding mm_sim_def mm_top_def by (metis not_None_eq)
  have eqs: "mm_cmp s = c" "map sc_map (mm_shards s) = maps" "mm_dir s \<in> {1, - 1}"
    using s by (simp_all add: mm_sim_def)
  have U: "set M = \<Union> (set (map (\<lambda>sc. set (sk_iter ops (sc_map sc))) (mm_shards s)))"
    using M(2) unfolding eqs(2) [symmetric] by (simp add: comp_def)
  have "merge_at ops (op_bound op (Some (fst e))) (mm_apply ops op s)"
    by (rule mm_apply_at [of s, unfolded eqs(1,2), OF c sm runs eqs(3)]) (rule at)
  moreover have "mm_dir (mm_apply ops op s) \<in> {1, - 1}"
    using mm_apply_dir [OF eqs(3), of op ops] at by (simp add: op_dir_def)
  ultimately have "mm_sim ops c maps (mm_apply ops op s)"
    using mm_apply_keeps [of s ops op] eqs by (auto simp: mm_sim_def mm_keeps_def)
  moreover have "mm_top (mm_apply ops op s) =
      first_above (dir_cmp c (op_dir op)) (op_bound op (Some (fst e))) (dir_list (op_dir op) M)"
    by (rule mm_apply_top [of s, unfolded eqs(1,2), OF c sm runs M(1) U eqs(3)]) (rule at)
  ultimately show ?thesis
    using scan_apply_first_above [OF c, of op "mm_top s" e M] at by simp
qed

lemma mm_run_sim:
  assumes "user_key_order (compare (mt_cmp m))" and "skip_map ops (ikey_cmp (mt_cmp m))"
    and "runs_ok ops (mt_cmp m) (shards m)"
    and "in_key_order (ikey_cmp (mt_cmp m)) M" "set M = \<Union> (set (map (\<lambda>sh. set (sk_iter ops sh)) (shards m)))"
  shows "mm_sim ops (mt_cmp m) (shards m) (fold (mm_apply ops) cs (mm_new m)) \<and>
    map_option entry_of (mm_top (fold (mm_apply ops) cs (mm_new m))) =
      fold (scan_apply (mt_cmp m) (map entry_of M)) cs None"
proof (induction cs rule: rev_induct)
  case Nil
  show ?case by (simp add: mm_sim_def mm_new_def mm_top_def comp_def)
next
  case (snoc op cs)
  with mm_apply_sim [OF assms] show ?case by simp
qed

text \<open>What a memtable holds, as runs for the merge and as one sorted list.\<close>

lemma holds_runs:
  assumes c: "user_key_order (compare (mt_cmp m))" and m: "mem_holds ops hash hist m"
  shows "runs_ok ops (mt_cmp m) (shards m)"
    and "set (ordered_puts (ikey_cmp (mt_cmp m)) hist) = \<Union> (set (map (\<lambda>sh. set (sk_iter ops sh)) (shards m)))"
proof -
  let ?K = "ikey_cmp (mt_cmp m)"
  let ?pair = "\<lambda>r. (entry_ikey r, val_of r)"
  note order = key_order_ikey_cmp [OF c]
  have len: "length (shards m) = NUM_SHARDS" using m by (simp add: mem_holds_def)
  have it: "sk_iter ops (shards m ! i) = ordered_puts ?K (shard_hist hash i hist)" if "i < NUM_SHARDS" for i
    using m that by (simp add: mem_holds_def)
  have rows: "set (sk_iter ops (shards m ! i)) = ?pair ` {r \<in> current hist. shard_of (hash (e_key r)) = i}"
    if "i < NUM_SHARDS" for i
    by (simp add: it [OF that] set_ordered_puts [OF order] current_shard)
  have "fst ` set (sk_iter ops (shards m ! i)) \<inter> fst ` set (sk_iter ops (shards m ! j)) = {}"
    if "i < NUM_SHARDS" "j < NUM_SHARDS" "i \<noteq> j" for i j
    using that(3) by (auto simp: rows that(1,2) entry_ikey_def)
  moreover have "\<forall>sh \<in> set (shards m). in_key_order ?K (sk_iter ops sh)"
    unfolding all_set_conv_all_nth len by (simp add: it ordered_puts_sorted [OF order])
  ultimately show "runs_ok ops (mt_cmp m) (shards m)" by (simp add: runs_ok_def len)
  have "\<Union> (set (map (\<lambda>sh. set (sk_iter ops sh)) (shards m))) = (\<Union>i < NUM_SHARDS. set (sk_iter ops (shards m ! i)))"
    by (auto simp: len [symmetric] in_set_conv_nth Bex_def) metis+
  also have "\<dots> = ?pair ` current hist"
    using shard_of_less by (force simp: rows)
  finally show "set (ordered_puts ?K hist) = \<Union> (set (map (\<lambda>sh. set (sk_iter ops sh)) (shards m)))"
    by (simp add: set_ordered_puts [OF order])
qed

lemma snapshot_puts:
  assumes c: "user_key_order (compare (mt_cmp m))" and m: "mem_holds ops hash hist m" and k: "kinds_ok hist"
  shows "mem_snapshot ops m = map entry_of (ordered_puts (ikey_cmp (mt_cmp m)) hist)"
proof (rule key_order.sorted_on_unique [OF key_order_ikey_cmp [OF c], where f = entry_ikey])
  show "sorted_wrt (\<lambda>a b. is_lt (ikey_cmp (mt_cmp m) (entry_ikey a) (entry_ikey b)))
      (map entry_of (ordered_puts (ikey_cmp (mt_cmp m)) hist))"
    using ordered_puts_sorted [OF key_order_ikey_cmp [OF c], of hist] by (simp add: sorted_wrt_map entry_ikey_of)
qed (simp_all only: snapshot_holds [OF assms] entries_of_puts(2) [OF key_order_ikey_cmp [OF c] k])

text \<open>
  C12. The lazy memtable iterator is a cursor over the sorted snapshot: after any history of
  puts and any interleaving of seeks and steps in both directions, the entry it stands on is
  the one the same operations reach on the materialized snapshot, and it is invalid exactly
  when they run off an end.
\<close>
theorem lazy_iterator_refines_snapshot:
  assumes "user_key_order (compare c)" and "skip_map ops (ikey_cmp c)" and "kinds_ok (history os)"
  shows "map_option entry_of (mm_top (fold (mm_apply ops) cs (mm_new (mem_run ops hash c os)))) =
    fold (scan_apply c (mem_snapshot ops (mem_run ops hash c os))) cs None"
proof -
  let ?m = "mem_run ops hash c os"
  have m: "mem_holds ops hash (history os) ?m" "mt_cmp ?m = c"
    using mem_run_holds [OF assms(1,2)] by blast+
  have c: "user_key_order (compare (mt_cmp ?m))" and sm: "skip_map ops (ikey_cmp (mt_cmp ?m))"
    using assms(1,2) by (simp_all only: m(2))
  have "map_option entry_of (mm_top (fold (mm_apply ops) cs (mm_new ?m))) =
      fold (scan_apply (mt_cmp ?m) (mem_snapshot ops ?m)) cs None"
    unfolding snapshot_puts [OF c m(1) assms(3)]
    by (rule mm_run_sim [OF c sm holds_runs(1) [OF c m(1)] ordered_puts_sorted [OF key_order_ikey_cmp [OF c]]
          holds_runs(2) [OF c m(1)], THEN conjunct2])
  then show ?thesis by (simp only: m(2))
qed

theorem lazy_iterator_refines_snapshot_witness:
  "map_option entry_of (mm_top (fold (mm_apply list_ops) [SeekLast, StepPrev, StepNext, StepPrev, StepPrev]
      (mm_new (mem_run list_ops (\<lambda>k. 0) Bytewise sample_ops)))) =
    Some \<lparr>e_key = [1], e_value = [], e_seq = 5, e_ttl = 0, e_kind = KIND_DELETE\<rparr>"
proof -
  let ?m = "mem_run list_ops (\<lambda>k. 0) Bytewise sample_ops"
  note m = mem_run_holds [OF bytewise.user_key_order_axioms list_map.skip_map_axioms, of "\<lambda>k. 0" sample_ops]
  have "fold (scan_apply Bytewise (map entry_of (ordered_puts (ikey_cmp Bytewise) (history sample_ops))))
      [SeekLast, StepPrev, StepNext, StepPrev, StepPrev] None =
      Some \<lparr>e_key = [1], e_value = [], e_seq = 5, e_ttl = 0, e_kind = KIND_DELETE\<rparr>"
    by code_simp
  moreover have "mem_snapshot list_ops ?m = map entry_of (ordered_puts (ikey_cmp Bytewise) (history sample_ops))"
    using snapshot_puts [of ?m list_ops "\<lambda>k. 0" "history sample_ops"] m sample_ops_ok
      bytewise.user_key_order_axioms by simp
  ultimately show ?thesis
    using lazy_iterator_refines_snapshot [OF bytewise.user_key_order_axioms list_map.skip_map_axioms,
        of sample_ops "[SeekLast, StepPrev, StepNext, StepPrev, StepPrev]" "\<lambda>k. 0"] sample_ops_ok
    by (simp only:)
qed

end
