(* ===== verification/Merging_Iter.thy ===== *)
theory Merging_Iter
  imports Mem_Merge Errors "HOL-Library.While_Combinator"
begin

text \<open>
  The k-way merge of \<open>src/src/iterator.rs\<close>: the child interface (\<open>ChildIter\<close>) and
  \<open>MergingIter\<close>, a binary heap of child cursors with exact ties broken by child order in
  both directions, and the first child failure kept.

  A child is a parameter of the merge: the operations the merge calls, with the laws of the
  locale \<open>child_source\<close>, which the memtable iterator of theory \<open>Mem_Merge\<close> satisfies and the
  dispatch over the three kinds of children preserves. The lemmas show that the merge walks
  the sorted union of its children entry by entry, or has recorded a child's failure.
\<close>

section \<open>Children\<close>

text \<open>
  The eight-byte prefixes are functions of the keys. \<open>value_block_ref\<close> borrows the value's
  bytes from a data block that the caller keeps alive; the model keeps the bytes.
\<close>

record 'c child_ops =
  ch_valid :: "'c \<Rightarrow> bool"
  ch_err :: "'c \<Rightarrow> onda_error option"
  ch_user_key :: "'c \<Rightarrow> bytes"
  ch_seq :: "'c \<Rightarrow> u64"
  ch_ttl :: "'c \<Rightarrow> i64"
  ch_tombstone :: "'c \<Rightarrow> bool"
  ch_kind :: "'c \<Rightarrow> u64"
  ch_value_into :: "'c \<Rightarrow> bytes result"
  ch_value_block :: "'c \<Rightarrow> bytes option"
  ch_next :: "'c \<Rightarrow> 'c"
  ch_prev :: "'c \<Rightarrow> 'c"
  ch_seek_to_first :: "'c \<Rightarrow> 'c"
  ch_seek_to_last :: "'c \<Rightarrow> 'c"
  ch_seek_ge :: "bytes \<Rightarrow> u64 \<Rightarrow> 'c \<Rightarrow> 'c"
  ch_seek_le :: "bytes \<Rightarrow> u64 \<Rightarrow> 'c \<Rightarrow> 'c"

datatype ('m, 'u, 's) child_iter = Mem 'm | Unified 'u | Sst 's

definition child_iter_ops :: "'m child_ops \<Rightarrow> 'u child_ops \<Rightarrow> 's child_ops \<Rightarrow> ('m, 'u, 's) child_iter child_ops" where
  "child_iter_ops mem uni sst = \<lparr>
     ch_valid = case_child_iter (ch_valid mem) (ch_valid uni) (ch_valid sst),
     ch_err = case_child_iter (\<lambda>_. None) (\<lambda>_. None) (ch_err sst),
     ch_user_key = case_child_iter (ch_user_key mem) (ch_user_key uni) (ch_user_key sst),
     ch_seq = case_child_iter (ch_seq mem) (ch_seq uni) (ch_seq sst),
     ch_ttl = case_child_iter (ch_ttl mem) (ch_ttl uni) (ch_ttl sst),
     ch_tombstone = case_child_iter (ch_tombstone mem) (ch_tombstone uni) (ch_tombstone sst),
     ch_kind = case_child_iter (ch_kind mem) (ch_kind uni) (ch_kind sst),
     ch_value_into = case_child_iter (ch_value_into mem) (ch_value_into uni) (ch_value_into sst),
     ch_value_block = case_child_iter (\<lambda>_. None) (\<lambda>_. None) (ch_value_block sst),
     ch_next = map_child_iter (ch_next mem) (ch_next uni) (ch_next sst),
     ch_prev = map_child_iter (ch_prev mem) (ch_prev uni) (ch_prev sst),
     ch_seek_to_first = map_child_iter (ch_seek_to_first mem) (ch_seek_to_first uni) (ch_seek_to_first sst),
     ch_seek_to_last = map_child_iter (ch_seek_to_last mem) (ch_seek_to_last uni) (ch_seek_to_last sst),
     ch_seek_ge = (\<lambda>k s. map_child_iter (ch_seek_ge mem k s) (ch_seek_ge uni k s) (ch_seek_ge sst k s)),
     ch_seek_le = (\<lambda>k s. map_child_iter (ch_seek_le mem k s) (ch_seek_le uni k s) (ch_seek_le sst k s))\<rparr>"

text \<open>A memtable iterator as a child; its accessors are only called while it is valid.\<close>

definition mem_child_ops :: "'m skip_ops \<Rightarrow> 'm mem_merge child_ops" where
  "mem_child_ops ops = (let at = \<lambda>s. the (mm_top s) in \<lparr>
     ch_valid = mm_valid,
     ch_err = (\<lambda>_. None),
     ch_user_key = (\<lambda>s. fst (fst (at s))),
     ch_seq = (\<lambda>s. snd (fst (at s))),
     ch_ttl = (\<lambda>s. v_ttl (snd (at s))),
     ch_tombstone = (\<lambda>s. v_flags (snd (at s)) AND TOMBSTONE \<noteq> 0),
     ch_kind = (\<lambda>s. ucast (v_kind (snd (at s)))),
     ch_value_into = (\<lambda>s. Inr (v_value (snd (at s)))),
     ch_value_block = (\<lambda>_. None),
     ch_next = mm_next ops,
     ch_prev = mm_prev ops,
     ch_seek_to_first = mm_seek_to_first ops,
     ch_seek_to_last = mm_seek_to_last ops,
     ch_seek_ge = mm_seek_ge ops,
     ch_seek_le = mm_seek_le ops\<rparr>)"

section \<open>The merge\<close>

record 'c merging =
  mi_children :: "'c list"
  mi_heap :: "nat list"
  mi_dir :: int
  mi_cmp :: comparator
  mi_err :: "onda_error option"

definition mi_new :: "comparator \<Rightarrow> 'c list \<Rightarrow> 'c merging" where
  "mi_new cmp children = \<lparr>mi_children = children, mi_heap = [], mi_dir = 1, mi_cmp = cmp, mi_err = None\<rparr>"

definition note_invalid :: "'c child_ops \<Rightarrow> nat \<Rightarrow> 'c merging \<Rightarrow> 'c merging" where
  "note_invalid ops i s =
     (if mi_err s = None then s\<lparr>mi_err := map_option duplicate (ch_err ops (mi_children s ! i))\<rparr> else s)"

definition mi_key_cmp :: "comparator \<Rightarrow> bytes \<Rightarrow> bytes \<Rightarrow> ordering" where
  "mi_key_cmp c a b = (if is_bytewise c then slice_cmp a b else compare c a b)"

definition mi_before :: "'c child_ops \<Rightarrow> comparator \<Rightarrow> int \<Rightarrow> 'c list \<Rightarrow> nat \<Rightarrow> nat \<Rightarrow> bool" where
  "mi_before ops cmp dir children i j =
     (let ci = children ! i; cj = children ! j;
          c = merge_key_cmp cmp (ch_user_key ops ci) (ch_user_key ops cj);
          c = (if c = Equal then ord_cmp (ch_seq ops cj) (ch_seq ops ci) else c)
      in if c = Equal then i < j
         else if dir > 0 then is_lt c else is_gt c)"

abbreviation before_of :: "'c child_ops \<Rightarrow> 'c merging \<Rightarrow> nat \<Rightarrow> nat \<Rightarrow> bool" where
  "before_of ops s \<equiv> mi_before ops (mi_cmp s) (mi_dir s) (mi_children s)"

definition push_child :: "'c child_ops \<Rightarrow> nat \<Rightarrow> 'c merging \<Rightarrow> 'c merging" where
  "push_child ops i s =
     (if ch_valid ops (mi_children s ! i) then s\<lparr>mi_heap := mi_heap s @ [i]\<rparr> else note_invalid ops i s)"

definition mi_rebuild :: "'c child_ops \<Rightarrow> 'c merging \<Rightarrow> 'c merging" where
  "mi_rebuild ops s =
     (let s = fold (push_child ops) [0..<length (mi_children s)] (s\<lparr>mi_heap := []\<rparr>)
      in s\<lparr>mi_heap := heapify (before_of ops s) (mi_heap s)\<rparr>)"

definition mi_seek_to_first :: "'c child_ops \<Rightarrow> 'c merging \<Rightarrow> 'c merging" where
  "mi_seek_to_first ops s =
     mi_rebuild ops (s\<lparr>mi_dir := 1, mi_children := map (ch_seek_to_first ops) (mi_children s)\<rparr>)"

definition mi_seek_to_last :: "'c child_ops \<Rightarrow> 'c merging \<Rightarrow> 'c merging" where
  "mi_seek_to_last ops s =
     mi_rebuild ops (s\<lparr>mi_dir := - 1, mi_children := map (ch_seek_to_last ops) (mi_children s)\<rparr>)"

definition mi_seek_ge :: "'c child_ops \<Rightarrow> bytes \<Rightarrow> u64 \<Rightarrow> 'c merging \<Rightarrow> 'c merging" where
  "mi_seek_ge ops k q s =
     mi_rebuild ops (s\<lparr>mi_dir := 1, mi_children := map (ch_seek_ge ops k q) (mi_children s)\<rparr>)"

definition mi_seek_le :: "'c child_ops \<Rightarrow> bytes \<Rightarrow> u64 \<Rightarrow> 'c merging \<Rightarrow> 'c merging" where
  "mi_seek_le ops k q s =
     mi_rebuild ops (s\<lparr>mi_dir := - 1, mi_children := map (ch_seek_le ops k q) (mi_children s)\<rparr>)"

text \<open>\<open>None\<close> where a child keeps returning the same key for ever.\<close>

definition child_seek_lt :: "'c child_ops \<Rightarrow> comparator \<Rightarrow> bytes \<Rightarrow> 'c \<Rightarrow> 'c option" where
  "child_seek_lt ops cmp k c =
     while_option
       (\<lambda>c. ch_valid ops c \<and>
          (let key = ch_user_key ops c in if is_bytewise cmp then key = k else is_eq (compare cmp key k)))
       (ch_prev ops) (ch_seek_le ops k u64_max c)"

definition mi_seek_lt :: "'c child_ops \<Rightarrow> bytes \<Rightarrow> 'c merging \<Rightarrow> 'c merging option" where
  "mi_seek_lt ops k s = map_option
     (\<lambda>children. mi_rebuild ops (s\<lparr>mi_dir := - 1, mi_children := children\<rparr>))
     (those (map (child_seek_lt ops (mi_cmp s) k) (mi_children s)))"

definition mi_valid :: "'c merging \<Rightarrow> bool" where
  "mi_valid s \<longleftrightarrow> mi_heap s \<noteq> []"

definition mi_top_idx :: "'c merging \<Rightarrow> nat" where
  "mi_top_idx s = mi_heap s ! 0"

definition mi_top :: "'c merging \<Rightarrow> 'c" where
  "mi_top s = mi_children s ! mi_top_idx s"

definition mi_advance :: "'c child_ops \<Rightarrow> bool \<Rightarrow> 'c merging \<Rightarrow> 'c merging" where
  "mi_advance ops forward s =
     (if mi_heap s = [] then s
      else
        let idx = mi_heap s ! 0;
            s = s\<lparr>mi_children := (mi_children s)[idx :=
              (if forward then ch_next ops else ch_prev ops) (mi_children s ! idx)]\<rparr>;
            v = ch_valid ops (mi_children s ! idx);
            s = (if v then s else note_invalid ops idx s)
        in s\<lparr>mi_heap := settle (before_of ops s) v (mi_heap s)\<rparr>)"

section \<open>The child interface\<close>

fun ch_apply :: "'c child_ops \<Rightarrow> cursor_op \<Rightarrow> 'c \<Rightarrow> 'c" where
  "ch_apply ops SeekFirst c = ch_seek_to_first ops c"
| "ch_apply ops SeekLast c = ch_seek_to_last ops c"
| "ch_apply ops (SeekGe k q) c = ch_seek_ge ops k q c"
| "ch_apply ops (SeekLe k q) c = ch_seek_le ops k q c"
| "ch_apply ops StepNext c = ch_next ops c"
| "ch_apply ops StepPrev c = ch_prev ops c"

text \<open>
  What the merge relies on: a child stands on an entry of a sorted list or is invalid, its
  accessors read that entry, and a movement lands where the same movement over the list
  does, unless the child fails, which leaves it invalid with an error.
\<close>

locale child_source =
  fixes ops :: "'c child_ops" and c :: comparator and ok :: "'c \<Rightarrow> bool"
    and cur :: "'c \<Rightarrow> entry option" and contents :: "'c \<Rightarrow> entry list"
  assumes order: "user_key_order (compare c)"
    and contents_sorted: "ok x \<Longrightarrow>
      sorted_wrt (\<lambda>a b. is_lt (ikey_cmp c (entry_ikey a) (entry_ikey b))) (contents x)"
    and current_in: "ok x \<Longrightarrow> cur x = Some e \<Longrightarrow> e \<in> set (contents x)"
    and valid_iff: "ok x \<Longrightarrow> ch_valid ops x \<longleftrightarrow> cur x \<noteq> None"
    and reads: "ok x \<Longrightarrow> cur x = Some e \<Longrightarrow> ch_user_key ops x = e_key e \<and> ch_seq ops x = e_seq e \<and>
      ch_ttl ops x = e_ttl e \<and> ch_tombstone ops x = entry_tombstone e \<and> ch_kind ops x = e_kind e"
    and reads_value: "ok x \<Longrightarrow> cur x = Some e \<Longrightarrow> ch_value_into ops x = Inr v \<Longrightarrow> v = e_value e"
    and reads_block: "ok x \<Longrightarrow> cur x = Some e \<Longrightarrow> ch_value_block ops x = Some v \<Longrightarrow> v = e_value e"
    and apply_ok: "ok x \<Longrightarrow> (op_moves op \<Longrightarrow> cur x \<noteq> None) \<Longrightarrow>
      ok (ch_apply ops op x) \<and> contents (ch_apply ops op x) = contents x"
    and apply_current: "ok x \<Longrightarrow> (op_moves op \<Longrightarrow> cur x \<noteq> None) \<Longrightarrow>
      (if ch_err ops (ch_apply ops op x) = None
       then cur (ch_apply ops op x) = scan_apply c (contents x) op (cur x)
       else cur (ch_apply ops op x) = None)"

section \<open>The sorted union of the children\<close>

text \<open>Entries with the child they come from, in the order a walk in direction \<open>d\<close> visits them.\<close>

type_synonym item = "entry \<times> nat"

definition item_key :: "item \<Rightarrow> ikey \<times> nat" where
  "item_key x = (entry_ikey (fst x), snd x)"

definition walk_cmp :: "comparator \<Rightarrow> int \<Rightarrow> ikey \<times> nat \<Rightarrow> ikey \<times> nat \<Rightarrow> ordering" where
  "walk_cmp c d a b = then_with (dir_cmp c d (fst a) (fst b)) (ord_cmp (snd a) (snd b))"

definition tagged :: "entry list list \<Rightarrow> item list" where
  "tagged C = concat (map (\<lambda>i. map (\<lambda>e. (e, i)) (C ! i)) [0..<length C])"

definition merged :: "comparator \<Rightarrow> int \<Rightarrow> entry list list \<Rightarrow> item list" where
  "merged c d C = sort_by (\<lambda>x y. walk_cmp c d (item_key x) (item_key y)) (tagged C)"

abbreviation in_order :: "comparator \<Rightarrow> entry list \<Rightarrow> bool" where
  "in_order c L \<equiv> sorted_wrt (\<lambda>a b. is_lt (ikey_cmp c (entry_ikey a) (entry_ikey b))) L"

abbreviation in_walk_order :: "comparator \<Rightarrow> int \<Rightarrow> item list \<Rightarrow> bool" where
  "in_walk_order c d L \<equiv> sorted_wrt (\<lambda>a b. is_lt (walk_cmp c d (item_key a) (item_key b))) L"

lemma key_order_walk_cmp:
  assumes "user_key_order (compare c)"
  shows "key_order (walk_cmp c d)"
  using key_order_dir_cmp [OF assms, of d] key_order_ord_cmp
  unfolding walk_cmp_def [abs_def]
  by (intro key_order_then_with) (auto simp: prod_eq_iff)

lemma set_tagged: "set (tagged C) = {(e, i). i < length C \<and> e \<in> set (C ! i)}"
  by (auto simp: tagged_def)

lemma set_merged: "set (merged c d C) = {(e, i). i < length C \<and> e \<in> set (C ! i)}"
  by (simp add: merged_def set_tagged)

lemma distinct_keys:
  assumes "user_key_order (compare c)" and "in_order c L"
  shows "distinct (map entry_ikey L)"
  using assms(2) by (intro key_order.sorted_lt_distinct [OF key_order_ikey_cmp [OF assms(1)]]) (simp add: sorted_wrt_map)

lemma distinct_tagged:
  assumes "user_key_order (compare c)" and "\<forall>L \<in> set C. in_order c L"
  shows "distinct (map item_key (tagged C))"
proof -
  have "distinct (map item_key (map (\<lambda>e. (e, i)) (C ! i)))" if "i < length C" for i
    using distinct_keys [OF assms(1), of "C ! i"] assms(2) that
    by (simp add: distinct_map inj_on_def item_key_def comp_def)
  then have "distinct (concat (map (\<lambda>i. map item_key (map (\<lambda>e. (e, i)) (C ! i))) [0..<length C]))"
    by (intro distinct_concat_upt) (auto simp: item_key_def)
  then show ?thesis by (simp add: tagged_def map_concat comp_def)
qed

lemma sorted_merged:
  assumes "user_key_order (compare c)" and "\<forall>L \<in> set C. in_order c L"
  shows "in_walk_order c d (merged c d C)"
  unfolding merged_def
  by (rule sort_by_strict [OF key_order_walk_cmp [OF assms(1)] distinct_tagged [OF assms]])

text \<open>One child's entries, read off the union.\<close>

lemma merged_of_child:
  assumes c: "user_key_order (compare c)" and C: "\<forall>L \<in> set C. in_order c L" and i: "i < length C"
  shows "filter (\<lambda>x. snd x = i) (merged c d C) = map (\<lambda>e. (e, i)) (dir_list d (C ! i))"
proof (rule key_order.sorted_on_unique [OF key_order_walk_cmp [OF c], where f = item_key])
  show "in_walk_order c d (filter (\<lambda>x. snd x = i) (merged c d C))"
    using sorted_merged [OF c C] by (rule sorted_wrt_filter)
  have "in_order c (C ! i)" using C i by simp
  then have "sorted_wrt (\<lambda>a b. is_lt (dir_cmp c d (entry_ikey a) (entry_ikey b))) (dir_list d (C ! i))"
    by (simp add: dir_cmp_def dir_list_def sorted_wrt_rev)
  then show "in_walk_order c d (map (\<lambda>e. (e, i)) (dir_list d (C ! i)))"
    by (auto simp: sorted_wrt_map item_key_def walk_cmp_def then_with_def ord_cmp_def ordering_tests
        split: ordering.split elim!: sorted_wrt_mono_rel [rotated])
  show "set (filter (\<lambda>x. snd x = i) (merged c d C)) = set (map (\<lambda>e. (e, i)) (dir_list d (C ! i)))"
    using i by (auto simp: set_merged)
qed

section \<open>Where the merge stands\<close>

text \<open>
  The shape every operation keeps, and the walk: \<open>rem\<close> is what is left of the union, and
  each child stands on its first entry there.
\<close>

definition merge_wf :: "'c child_ops \<Rightarrow> comparator \<Rightarrow> ('c \<Rightarrow> bool) \<Rightarrow> ('c \<Rightarrow> entry list) \<Rightarrow> entry list list
    \<Rightarrow> 'c merging \<Rightarrow> bool" where
  "merge_wf ops c ok contents C s \<longleftrightarrow> mi_cmp s = c \<and> mi_dir s \<in> {1, - 1}
     \<and> length (mi_children s) = length C
     \<and> (\<forall>i < length C. ok (mi_children s ! i) \<and> contents (mi_children s ! i) = C ! i)
     \<and> distinct (mi_heap s)
     \<and> set (mi_heap s) = {i. i < length (mi_children s) \<and> ch_valid ops (mi_children s ! i)}"

definition walk_at :: "'c child_ops \<Rightarrow> ('c \<Rightarrow> entry option) \<Rightarrow> entry list list \<Rightarrow> item list \<Rightarrow> 'c merging \<Rightarrow> bool" where
  "walk_at ops cur C rem s \<longleftrightarrow>
     (\<forall>i < length (mi_children s). cur (mi_children s ! i) = map_option fst (find (\<lambda>x. snd x = i) rem))
     \<and> heap_from (before_of ops s) 0 (mi_heap s)
     \<and> (\<exists>seen. merged (mi_cmp s) (mi_dir s) C = seen @ rem)"

lemma push_children:
  fixes s :: "'c merging" and ops :: "'c child_ops"
  assumes "n \<le> length (mi_children s)"
  defines "t \<equiv> fold (push_child ops) [0..<n] (s\<lparr>mi_heap := []\<rparr>)"
  shows "mi_children t = mi_children s \<and> mi_cmp t = mi_cmp s \<and> mi_dir t = mi_dir s
    \<and> mi_heap t = filter (\<lambda>i. ch_valid ops (mi_children s ! i)) [0..<n]
    \<and> (mi_err t = None \<longleftrightarrow> mi_err s = None \<and>
         (\<forall>i < n. \<not> ch_valid ops (mi_children s ! i) \<longrightarrow> ch_err ops (mi_children s ! i) = None))"
  unfolding t_def using assms(1)
proof (induction n)
  case (Suc n)
  then show ?case by (auto simp: push_child_def note_invalid_def less_Suc_eq)
qed simp

lemma rebuild_fields:
  fixes s :: "'c merging"
  shows "mi_children (mi_rebuild ops s) = mi_children s" "mi_cmp (mi_rebuild ops s) = mi_cmp s"
    "mi_dir (mi_rebuild ops s) = mi_dir s"
    "mi_heap (mi_rebuild ops s) = heapify (before_of ops s)
       (filter (\<lambda>i. ch_valid ops (mi_children s ! i)) [0..<length (mi_children s)])"
    "mi_err (mi_rebuild ops s) = None \<longleftrightarrow> mi_err s = None \<and> (\<forall>i < length (mi_children s).
       \<not> ch_valid ops (mi_children s ! i) \<longrightarrow> ch_err ops (mi_children s ! i) = None)"
  using push_children [of "length (mi_children s)" s ops] by (simp_all add: mi_rebuild_def Let_def)

context child_source
begin

abbreviation wf :: "entry list list \<Rightarrow> 'c merging \<Rightarrow> bool" where
  "wf \<equiv> merge_wf ops c ok contents"

abbreviation at :: "entry list list \<Rightarrow> item list \<Rightarrow> 'c merging \<Rightarrow> bool" where
  "at \<equiv> walk_at ops cur"

abbreviation at_key :: "'c list \<Rightarrow> nat \<Rightarrow> ikey \<times> nat" where
  "at_key chs i \<equiv> (entry_ikey (the (cur (chs ! i))), i)"

lemma before_iff:
  assumes "ok (chs ! i)" "ok (chs ! j)" "ch_valid ops (chs ! i)" "ch_valid ops (chs ! j)" and "d \<in> {1, - 1}"
  shows "mi_before ops c d chs i j \<longleftrightarrow> is_lt (walk_cmp c d (at_key chs i) (at_key chs j))"
proof -
  obtain a b where ab: "cur (chs ! i) = Some a" "cur (chs ! j) = Some b"
    using assms(1-4) valid_iff by auto
  note ra = reads [OF assms(1) ab(1)] and rb = reads [OF assms(2) ab(2)]
  have "dir_cmp c d (entry_ikey a) (entry_ikey b) =
      (if d > 0 then ikey_cmp c (entry_ikey a) (entry_ikey b) else reverse_ord (ikey_cmp c (entry_ikey a) (entry_ikey b)))"
    using assms(5) key_order.cmp_reverse [OF key_order_ikey_cmp [OF order], of "entry_ikey b" "entry_ikey a"]
    by (auto simp: dir_cmp_def)
  then show ?thesis
    using assms(5) ra rb ab
    by (auto simp: mi_before_def walk_cmp_def Let_def merge_key_cmp_eq ikey_cmp_eq entry_ikey_def
        then_with_def ord_cmp_def ordering_tests split: ordering.splits if_splits)
qed

lemma before_order:
  assumes "\<forall>i \<in> A. ok (chs ! i) \<and> ch_valid ops (chs ! i)" and "d \<in> {1, - 1}"
  shows "heap_order (mi_before ops c d chs) A"
  using key_order.heap_order_by_key [OF key_order_walk_cmp [OF order], of d "at_key chs" A]
  by (rule heap_order_cong) (use assms before_iff in auto)

end

section \<open>Seeks\<close>

definition seek_bound :: "comparator \<Rightarrow> cursor_op \<Rightarrow> ikey \<Rightarrow> bool" where
  "seek_bound c op k = above_bound (dir_cmp c (op_dir op)) (op_bound op None) k"

definition mi_seek :: "'c child_ops \<Rightarrow> cursor_op \<Rightarrow> 'c merging \<Rightarrow> 'c merging" where
  "mi_seek ops op s =
     mi_rebuild ops (s\<lparr>mi_dir := op_dir op, mi_children := map (ch_apply ops op) (mi_children s)\<rparr>)"

lemma mi_seek_cases:
  "mi_seek_to_first ops s = mi_seek ops SeekFirst s"
  "mi_seek_to_last ops s = mi_seek ops SeekLast s"
  "mi_seek_ge ops k q s = mi_seek ops (SeekGe k q) s"
  "mi_seek_le ops k q s = mi_seek ops (SeekLe k q) s"
  by (simp_all add: mi_seek_def op_dir_def mi_seek_to_first_def mi_seek_to_last_def mi_seek_ge_def mi_seek_le_def
      cong: map_cong)

lemma scan_apply_seek:
  assumes "user_key_order (compare c)" and "\<not> op_moves op"
  shows "scan_apply c L op x = find (\<lambda>e. seek_bound c op (entry_ikey e)) (dir_list (op_dir op) L)"
  using assms(2) key_order.is_ge_iff [OF key_order_ikey_cmp [OF assms(1)]]
  by (cases op) (simp_all add: seek_bound_def op_bound_def op_dir_def op_moves_def dir_cmp_def dir_list_def above_bound_def)

lemma find_filter: "find P xs = (case filter P xs of [] \<Rightarrow> None | x # _ \<Rightarrow> Some x)"
  by (induction xs) simp_all

lemma find_hd: "find P xs = None \<longleftrightarrow> filter P xs = []" "find P xs = Some x \<longleftrightarrow> (\<exists>ys. filter P xs = x # ys)"
  by (auto simp: find_filter split: list.split)

text \<open>A child's first entry past a bound is its first entry in the union past the bound.\<close>

lemma find_in_union:
  assumes "user_key_order (compare c)" and "\<forall>L \<in> set C. in_order c L" and "i < length C"
  shows "map_option fst (find (\<lambda>x. snd x = i) (filter (\<lambda>x. P (fst x)) (merged c d C))) =
    find P (dir_list d (C ! i))"
proof -
  have "filter (\<lambda>x. snd x = i) (filter (\<lambda>x. P (fst x)) (merged c d C)) =
      filter (\<lambda>x. P (fst x)) (filter (\<lambda>x. snd x = i) (merged c d C))"
    by (simp add: conj_commute)
  also have "\<dots> = map (\<lambda>e. (e, i)) (filter P (dir_list d (C ! i)))"
    by (simp add: merged_of_child [OF assms] filter_map comp_def)
  finally show ?thesis
    by (simp add: find_filter split: list.split)
qed

lemma walk_suffix:
  assumes c: "user_key_order (compare c)" and C: "\<forall>L \<in> set C. in_order c L"
    and up: "\<And>a b. is_le (dir_cmp c d a b) \<Longrightarrow> P a \<Longrightarrow> P b"
  shows "\<exists>seen. merged c d C = seen @ filter (\<lambda>x. P (entry_ikey (fst x))) (merged c d C)"
proof -
  have le: "is_le (dir_cmp c d (entry_ikey (fst x)) (entry_ikey (fst y)))"
    if "is_lt (walk_cmp c d (item_key x) (item_key y))" for x y
    using that by (auto simp: walk_cmp_def item_key_def then_with_def ordering_tests split: ordering.splits)
  have "dropWhile (\<lambda>x. \<not> P (entry_ikey (fst x))) (merged c d C) = filter (\<lambda>x. P (entry_ikey (fst x))) (merged c d C)"
    by (rule dropWhile_eq_filter [OF sorted_merged [OF c C]]) (use up [OF le] in blast)
  then show ?thesis by (metis takeWhile_dropWhile_id)
qed

context child_source
begin

lemma rebuild_wf:
  assumes "mi_cmp s = c" and "mi_dir s \<in> {1, - 1}" and "length (mi_children s) = length C"
    and "\<forall>i < length C. ok (mi_children s ! i) \<and> contents (mi_children s ! i) = C ! i"
  shows "wf C (mi_rebuild ops s)"
  using assms by (auto simp: merge_wf_def rebuild_fields)

lemma rebuild_walk:
  assumes s: "mi_cmp s = c" "mi_dir s \<in> {1, - 1}" "length (mi_children s) = length C"
      "\<forall>i < length C. ok (mi_children s ! i)"
    and err: "mi_err (mi_rebuild ops s) = None"
    and cur: "\<forall>i < length C. if ch_err ops (mi_children s ! i) = None
       then cur (mi_children s ! i) = map_option fst (find (\<lambda>x. snd x = i) rem)
       else cur (mi_children s ! i) = None"
    and rem: "\<exists>seen. merged c (mi_dir s) C = seen @ rem"
  shows "at C rem (mi_rebuild ops s)"
proof -
  have "ch_err ops (mi_children s ! i) = None" if i: "i < length C" for i
  proof (rule ccontr)
    assume e: "ch_err ops (mi_children s ! i) \<noteq> None"
    with cur i have "cur (mi_children s ! i) = None" by simp
    then have "\<not> ch_valid ops (mi_children s ! i)" using valid_iff s(4) i by simp
    with err e i s(3) show False by (simp add: rebuild_fields(5))
  qed
  with cur have "cur (mi_children s ! i) = map_option fst (find (\<lambda>x. snd x = i) rem)" if "i < length C" for i
    using that by simp
  moreover have "heap_from (mi_before ops c (mi_dir s) (mi_children s)) 0
      (heapify (mi_before ops c (mi_dir s) (mi_children s))
        (filter (\<lambda>i. ch_valid ops (mi_children s ! i)) [0..<length (mi_children s)]))"
    using s by (intro heap_order.heapify_heap [OF before_order [of "{i. i < length C \<and> ch_valid ops (mi_children s ! i)}"]]) auto
  ultimately show ?thesis
    using rem s by (simp add: walk_at_def rebuild_fields)
qed

lemma wf_contents: "wf C s \<Longrightarrow> \<forall>L \<in> set C. in_order c L"
  unfolding all_set_conv_all_nth
proof (intro allI impI)
  fix i assume "wf C s" "i < length C"
  then show "in_order c (C ! i)" using contents_sorted [of "mi_children s ! i"] by (simp add: merge_wf_def)
qed

lemma seek_ok:
  assumes "ok x" and "\<not> op_moves op"
  shows "ok (ch_apply ops op x)" and "contents (ch_apply ops op x) = contents x"
    and "if ch_err ops (ch_apply ops op x) = None
      then cur (ch_apply ops op x) = find (\<lambda>e. seek_bound c op (entry_ikey e)) (dir_list (op_dir op) (contents x))
      else cur (ch_apply ops op x) = None"
  using apply_ok [of x op] apply_current [of x op] assms
  by (simp_all add: scan_apply_seek [OF order assms(2)])

lemma seek_wf:
  assumes "wf C s" and "\<not> op_moves op"
  shows "wf C (mi_seek ops op s)"
  unfolding mi_seek_def using assms
  by (intro rebuild_wf) (simp_all add: merge_wf_def op_dir_def seek_ok(1,2))

lemma seek_walk:
  assumes s: "wf C s" and op: "\<not> op_moves op" and err: "mi_err (mi_seek ops op s) = None"
  shows "at C (filter (\<lambda>x. seek_bound c op (entry_ikey (fst x))) (merged c (op_dir op) C)) (mi_seek ops op s)"
proof -
  define t where "t = s\<lparr>mi_dir := op_dir op, mi_children := map (ch_apply ops op) (mi_children s)\<rparr>"
  define rem where "rem = filter (\<lambda>x. seek_bound c op (entry_ikey (fst x))) (merged c (op_dir op) C)"
  have kid: "ok (mi_children s ! i)" "contents (mi_children s ! i) = C ! i"
    "mi_children t ! i = ch_apply ops op (mi_children s ! i)" if "i < length C" for i
    using s that by (simp_all add: merge_wf_def t_def)
  have "at C rem (mi_rebuild ops t)"
  proof (rule rebuild_walk)
    show "\<forall>i < length C. ok (mi_children t ! i)"
      by (simp add: kid seek_ok(1) [OF _ op])
    show "\<forall>i < length C. if ch_err ops (mi_children t ! i) = None
        then cur (mi_children t ! i) = map_option fst (find (\<lambda>x. snd x = i) rem)
        else cur (mi_children t ! i) = None"
    proof (intro allI impI)
      fix i assume i: "i < length C"
      show "if ch_err ops (mi_children t ! i) = None
        then cur (mi_children t ! i) = map_option fst (find (\<lambda>x. snd x = i) rem)
        else cur (mi_children t ! i) = None"
        using seek_ok(3) [OF kid(1) op, OF i]
        unfolding kid [OF i] rem_def
          find_in_union [OF order wf_contents [OF s] i, of "\<lambda>e. seek_bound c op (entry_ikey e)"] .
    qed
    have "\<exists>seen. merged c (op_dir op) C = seen @ rem"
      unfolding rem_def by (rule walk_suffix [OF order wf_contents [OF s]])
        (simp add: seek_bound_def key_order.above_mono [OF key_order_dir_cmp [OF order]])
    then show "\<exists>seen. merged c (mi_dir t) C = seen @ rem" by (simp add: t_def)
    show "mi_cmp t = c" "length (mi_children t) = length C"
      using s by (simp_all add: t_def merge_wf_def)
    show "mi_dir t \<in> {1, - 1}" by (simp add: t_def op_dir_def)
    show "mi_err (mi_rebuild ops t) = None" using err by (simp only: mi_seek_def t_def)
  qed
  then show ?thesis by (simp only: rem_def t_def mi_seek_def)
qed

end

section \<open>Steps\<close>

definition step_op :: "bool \<Rightarrow> cursor_op" where
  "step_op forward = (if forward then StepNext else StepPrev)"

lemma advance_fields:
  fixes s :: "'c merging" and ops :: "'c child_ops" and forward :: bool
  assumes "mi_heap s \<noteq> []"
  defines "t \<equiv> mi_heap s ! 0"
  defines "chs \<equiv> (mi_children s)[t := ch_apply ops (step_op forward) (mi_children s ! t)]"
  shows "mi_children (mi_advance ops forward s) = chs"
    "mi_cmp (mi_advance ops forward s) = mi_cmp s" "mi_dir (mi_advance ops forward s) = mi_dir s"
    "mi_heap (mi_advance ops forward s) =
       settle (mi_before ops (mi_cmp s) (mi_dir s) chs) (ch_valid ops (chs ! t)) (mi_heap s)"
    "mi_err (mi_advance ops forward s) = None \<longleftrightarrow>
       mi_err s = None \<and> (\<not> ch_valid ops (chs ! t) \<longrightarrow> ch_err ops (chs ! t) = None)"
  using assms(1) by (auto simp: mi_advance_def Let_def note_invalid_def chs_def t_def step_op_def)

lemma advance_empty: "mi_heap s = [] \<Longrightarrow> mi_advance ops forward s = s"
  by (simp add: mi_advance_def)

lemma advance_err: "mi_err (mi_advance ops forward s) = None \<Longrightarrow> mi_err s = None"
  using advance_fields(5) [of s ops forward] advance_empty [of s ops forward] by (cases "mi_heap s = []") auto

text \<open>The successor of an entry in a child's list, in the direction of the walk.\<close>

lemma scan_step:
  assumes c: "user_key_order (compare c)" and L: "in_order c L" and d: "d \<in> {1, - 1}"
    and e: "dir_list d L = as @ e # bs"
  shows "scan_apply c L (step_op (d > 0)) (Some e) = (case bs of [] \<Rightarrow> None | y # _ \<Rightarrow> Some y)"
proof -
  note order = key_order_dir_cmp [OF c, of d]
  let ?lt = "\<lambda>a b. is_lt (dir_cmp c d (entry_ikey a) (entry_ikey b))"
  have "sorted_wrt ?lt (dir_list d L)"
    using L by (simp add: dir_cmp_def dir_list_def sorted_wrt_rev)
  with e have s: "\<forall>x \<in> set as. ?lt x e" "\<forall>y \<in> set bs. ?lt e y"
    by (auto simp: sorted_wrt_append)
  have "\<not> ?lt e x" if "x \<in> set as" for x
    using s(1) that key_order.lt_imp_le [OF order] key_order.not_lt_iff [OF order] by blast
  moreover have "\<not> ?lt e e" by (simp add: key_order.lt_irrefl [OF order])
  ultimately have "filter (?lt e) (dir_list d L) = bs"
    using s(2) by (auto simp: e filter_empty_conv)
  moreover have "scan_apply c L (step_op (d > 0)) (Some e) = find (?lt e) (dir_list d L)"
    using d key_order.is_gt_iff [OF key_order_ikey_cmp [OF c]]
    by (auto simp: step_op_def dir_cmp_def dir_list_def)
  ultimately show ?thesis by (simp add: find_filter)
qed

context child_source
begin

lemma walk_top:
  assumes s: "wf C s" and w: "at C (x # rem) s"
  shows "mi_heap s \<noteq> []" and "mi_top_idx s = snd x" and "cur (mi_top s) = Some (fst x)" and "snd x < length C"
proof -
  let ?chs = "mi_children s" and ?d = "mi_dir s"
  let ?V = "{i. i < length C \<and> ch_valid ops (?chs ! i)}"
  have wf: "mi_cmp s = c" "?d \<in> {1, - 1}" "length ?chs = length C" "set (mi_heap s) = ?V"
    "\<forall>i < length C. ok (?chs ! i)"
    using s by (auto simp: merge_wf_def)
  obtain seen where seen: "merged c ?d C = seen @ x # rem" using w wf(1) by (auto simp: walk_at_def)
  have sorted: "in_walk_order c ?d (x # rem)"
    using sorted_merged [OF order wf_contents [OF s], of ?d] unfolding seen by (simp add: sorted_wrt_append)
  have "x \<in> set (merged c ?d C)" unfolding seen by simp
  then show i: "snd x < length C" by (auto simp: set_merged)
  have curs: "cur (?chs ! i) = map_option fst (find (\<lambda>y. snd y = i) (x # rem))" if "i < length C" for i
    using w wf(3) that by (simp add: walk_at_def)
  have x: "cur (?chs ! snd x) = Some (fst x)" using curs [OF i] by simp
  then have iV: "snd x \<in> ?V" using i wf(5) valid_iff by simp
  then show ne: "mi_heap s \<noteq> []" unfolding wf(4) [symmetric] by force
  have h: "heap_from (mi_before ops c ?d ?chs) 0 (mi_heap s)"
    using w wf(1) by (simp add: walk_at_def)
  have ho: "heap_order (mi_before ops c ?d ?chs) ?V"
    by (rule before_order [OF _ wf(2)]) (simp add: wf(5))
  have "\<not> mi_before ops c ?d ?chs (snd x) (mi_heap s ! 0)"
    using heap_order.heap_top_min [OF ho h, of "snd x"] iV wf(4) by simp
  moreover have "mi_before ops c ?d ?chs (snd x) j" if "j \<in> ?V" "j \<noteq> snd x" for j
  proof -
    have j: "j < length C" "ok (?chs ! j)" "ch_valid ops (?chs ! j)" using that(1) wf(5) by auto
    then have "find (\<lambda>y. snd y = j) rem \<noteq> None"
      using curs [OF j(1)] that(2) valid_iff by simp
    then obtain y where y: "find (\<lambda>y. snd y = j) rem = Some y" by blast
    then have cy: "cur (?chs ! j) = Some (fst y)" using curs [OF j(1)] that(2) by simp
    have "y \<in> set rem" "snd y = j" using find_Some_in [OF y] by blast+
    then have "is_lt (walk_cmp c ?d (item_key x) (item_key y))" using sorted by simp
    then show ?thesis
      using before_iff [of ?chs "snd x" j ?d] j iV wf(2,5) x cy \<open>snd y = j\<close> by (simp add: item_key_def)
  qed
  moreover have "mi_heap s ! 0 \<in> ?V" using ne wf(4) nth_mem by blast
  ultimately show top: "mi_top_idx s = snd x" unfolding mi_top_idx_def by blast
  with x show "cur (mi_top s) = Some (fst x)" by (simp add: mi_top_def)
qed

lemma walk_end:
  assumes "wf C s" and "at C [] s"
  shows "mi_heap s = []"
proof -
  have "\<not> ch_valid ops (mi_children s ! i)" if "i < length C" for i
    using assms that valid_iff by (simp add: merge_wf_def walk_at_def)
  then have "set (mi_heap s) = {}" using assms(1) by (auto simp: merge_wf_def)
  then show ?thesis by simp
qed

lemma advance_wf:
  assumes s: "wf C s"
  shows "wf C (mi_advance ops forward s)"
proof (cases "mi_heap s = []")
  case True
  then show ?thesis using s by (simp add: advance_empty)
next
  case False
  let ?t = "mi_heap s ! 0" and ?chs = "mi_children s"
  let ?chs' = "?chs[?t := ch_apply ops (step_op forward) (?chs ! ?t)]"
  have wf: "length ?chs = length C" "distinct (mi_heap s)"
    "set (mi_heap s) = {i. i < length ?chs \<and> ch_valid ops (?chs ! i)}"
    "\<forall>i < length C. ok (?chs ! i) \<and> contents (?chs ! i) = C ! i"
    using s by (simp_all add: merge_wf_def)
  have t: "?t < length C" "ch_valid ops (?chs ! ?t)"
    using nth_mem [of 0 "mi_heap s"] False wf(1,3) by auto
  then have "ok (ch_apply ops (step_op forward) (?chs ! ?t)) \<and> contents (ch_apply ops (step_op forward) (?chs ! ?t)) = C ! ?t"
    using apply_ok [of "?chs ! ?t" "step_op forward"] wf(4) valid_iff by auto
  then have "\<forall>i < length C. ok (?chs' ! i) \<and> contents (?chs' ! i) = C ! i"
    using wf(1,4) t(1) by (simp add: nth_list_update)
  moreover have "set (settle b (ch_valid ops (?chs' ! ?t)) (mi_heap s)) =
      {i. i < length ?chs' \<and> ch_valid ops (?chs' ! i)}" for b
    unfolding set_settle(1) [OF False wf(2)] using t wf(1,3) by (auto simp: nth_list_update)
  ultimately show ?thesis
    using s set_settle(2) [OF False wf(2)] unfolding merge_wf_def advance_fields [OF False] by simp
qed

end

context child_source
begin

lemma step_current:
  assumes s: "wf C s" and w: "at C (x # rem) s"
    and err: "mi_err (mi_advance ops (mi_dir s > 0) s) = None"
  shows "cur (ch_apply ops (step_op (mi_dir s > 0)) (mi_top s)) = map_option fst (find (\<lambda>y. snd y = snd x) rem)"
proof -
  let ?t = "snd x" and ?d = "mi_dir s"
  let ?y = "ch_apply ops (step_op (?d > 0)) (mi_top s)"
  note top = walk_top [OF s w]
  have wf: "mi_cmp s = c" "?d \<in> {1, - 1}" "length (mi_children s) = length C" and ok: "ok (mi_top s)" "contents (mi_top s) = C ! ?t"
    using s top(2,4) by (simp_all add: merge_wf_def mi_top_def)
  have ok': "ok ?y" using apply_ok [OF ok(1), of "step_op (?d > 0)"] top(3) by simp
  have "ch_err ops ?y = None \<and> cur ?y = scan_apply c (C ! ?t) (step_op (?d > 0)) (Some (fst x))"
  proof (cases "ch_err ops ?y = None")
    case True
    then show ?thesis using apply_current [OF ok(1), of "step_op (?d > 0)"] top(3) ok(2) by simp
  next
    case False
    then have "\<not> ch_valid ops ?y"
      using apply_current [OF ok(1), of "step_op (?d > 0)"] top(3) valid_iff [OF ok'] by simp
    with False err top(2,4) wf(3) show ?thesis
      unfolding advance_fields(5) [OF top(1)] by (simp add: mi_top_def mi_top_idx_def)
  qed
  moreover obtain seen where seen: "merged c ?d C = seen @ x # rem"
    using w wf(1) unfolding walk_at_def by blast
  define sf rf where "sf = filter (\<lambda>y. snd y = ?t) seen" and "rf = filter (\<lambda>y. snd y = ?t) rem"
  have "map fst (map (\<lambda>e. (e, ?t)) (dir_list ?d (C ! ?t))) = map fst (sf @ x # rf)"
    unfolding merged_of_child [OF order wf_contents [OF s] top(4), symmetric] seen by (simp add: sf_def rf_def)
  then have "dir_list ?d (C ! ?t) = map fst sf @ fst x # map fst rf" by (simp add: comp_def)
  moreover have "in_order c (C ! ?t)" using wf_contents [OF s] top(4) by simp
  ultimately show ?thesis
    using scan_step [OF order _ wf(2), of "C ! ?t" "map fst sf" "fst x" "map fst rf"]
    by (simp add: find_filter rf_def [symmetric] split: list.split)
qed

lemma advance_walk:
  assumes s: "wf C s" and w: "at C (x # rem) s"
    and err: "mi_err (mi_advance ops (mi_dir s > 0) s) = None"
  shows "at C rem (mi_advance ops (mi_dir s > 0) s)"
proof -
  let ?t = "mi_heap s ! 0" and ?d = "mi_dir s"
  define chs where "chs = (mi_children s)[?t := ch_apply ops (step_op (?d > 0)) (mi_children s ! ?t)]"
  let ?h = "settle (mi_before ops c ?d chs) (ch_valid ops (chs ! ?t)) (mi_heap s)"
  note top = walk_top [OF s w] and adv = advance_fields [OF walk_top(1) [OF s w], of ops "?d > 0", folded chs_def]
  have t: "?t = snd x" using top(2) by (simp add: mi_top_idx_def)
  have wf: "mi_cmp s = c" "?d \<in> {1, - 1}" "length (mi_children s) = length C" "distinct (mi_heap s)"
    using s by (simp_all add: merge_wf_def)
  have wf': "wf C (mi_advance ops (?d > 0) s)" by (rule advance_wf [OF s])
  have "cur (chs ! i) = map_option fst (find (\<lambda>y. snd y = i) rem)" if i: "i < length C" for i
  proof (cases "i = ?t")
    case True
    then show ?thesis
      using step_current [OF s w err] i wf(3) t by (simp add: chs_def mi_top_def mi_top_idx_def)
  next
    case False
    then have "cur (chs ! i) = map_option fst (find (\<lambda>y. snd y = i) (x # rem))"
      using w i wf(3) by (simp add: walk_at_def chs_def)
    with False t show ?thesis by simp
  qed
  moreover have "heap_from (mi_before ops c ?d chs) 0 ?h"
  proof (rule heap_order.settle_heap)
    show "heap_order (mi_before ops c ?d chs) (set ?h)"
      by (rule before_order [OF _ wf(2)])
         (use wf' in \<open>simp add: merge_wf_def adv wf(1)\<close>)
    show "heap_from (mi_before ops c ?d (mi_children s)) 0 (mi_heap s)"
      using w wf(1) by (simp add: walk_at_def)
    show "\<forall>a \<in> set (mi_heap s) - {?t}. \<forall>b \<in> set (mi_heap s) - {?t}.
        mi_before ops c ?d chs a b = mi_before ops c ?d (mi_children s) a b"
      by (simp add: mi_before_def chs_def)
  qed (use wf(4) top(1) in simp_all)
  moreover obtain seen where "merged c ?d C = seen @ x # rem"
    using w wf(1) unfolding walk_at_def by blast
  then have "\<exists>seen. merged c ?d C = seen @ rem" by (intro exI [of _ "seen @ [x]"]) simp
  ultimately show ?thesis
    using wf(3) by (simp add: walk_at_def adv wf(1) chs_def)
qed

end

section \<open>Every walk ends\<close>

text \<open>The entries a child has ahead of it, its current one included.\<close>

definition child_left :: "comparator \<Rightarrow> bool \<Rightarrow> ('c \<Rightarrow> entry option) \<Rightarrow> ('c \<Rightarrow> entry list) \<Rightarrow> 'c \<Rightarrow> nat" where
  "child_left c forward cur contents x = (case cur x of None \<Rightarrow> 0
     | Some e \<Rightarrow> length (filter (\<lambda>y. is_le (dir_cmp c (if forward then 1 else - 1) (entry_ikey e) (entry_ikey y))) (contents x)))"

definition merge_left :: "comparator \<Rightarrow> bool \<Rightarrow> ('c \<Rightarrow> entry option) \<Rightarrow> ('c \<Rightarrow> entry list) \<Rightarrow> 'c merging \<Rightarrow> nat" where
  "merge_left c forward cur contents s = sum_list (map (child_left c forward cur contents) (mi_children s))"

lemma filter_shrinks:
  assumes "\<forall>x \<in> set xs. P x \<longrightarrow> Q x" and "y \<in> set xs" and "Q y" and "\<not> P y"
  shows "length (filter P xs) < length (filter Q xs)"
proof -
  have "filter P xs = filter P (filter Q xs)" using assms(1) by (auto intro: filter_cong)
  moreover have "length (filter P (filter Q xs)) < length (filter Q xs)"
    using assms(2-4) by (intro length_filter_less [of y]) auto
  ultimately show ?thesis by simp
qed

lemma find_weaken:
  "find R xs = Some e \<Longrightarrow> \<forall>x \<in> set xs. Q x \<longrightarrow> R x \<Longrightarrow> Q e \<Longrightarrow> find Q xs = Some e"
  "find R xs = None \<Longrightarrow> \<forall>x \<in> set xs. Q x \<longrightarrow> R x \<Longrightarrow> find Q xs = None"
  by (induction xs) (auto split: if_splits)

lemma those_map:
  assumes "\<forall>x \<in> set xs. f x = Some (g x)"
  shows "those (map f xs) = Some (map g xs)"
  using assms by (induction xs) simp_all

context child_source
begin

abbreviation left :: "bool \<Rightarrow> 'c \<Rightarrow> nat" where
  "left forward \<equiv> child_left c forward cur contents"

lemma step_left:
  assumes "ok x" and "cur x \<noteq> None"
  shows "left forward (ch_apply ops (step_op forward) x) < left forward x"
proof -
  let ?d = "if forward then 1 else - 1 :: int"
  let ?y = "ch_apply ops (step_op forward) x"
  let ?le = "\<lambda>a b. is_le (dir_cmp c ?d (entry_ikey a) (entry_ikey b))"
  let ?lt = "\<lambda>a b. is_lt (dir_cmp c ?d (entry_ikey a) (entry_ikey b))"
  note order = key_order_dir_cmp [OF order, of ?d]
  obtain e where e: "cur x = Some e" using assms(2) by blast
  have in_x: "e \<in> set (contents x)" using current_in [OF assms(1) e] .
  have refl: "?le e e" by (rule key_order.le_refl [OF order])
  have y: "contents ?y = contents x" "cur ?y = None \<or> cur ?y = find (?lt e) (dir_list ?d (contents x))"
    using apply_ok [OF assms(1), of "step_op forward"] apply_current [OF assms(1), of "step_op forward"] e
      key_order.is_gt_iff [OF key_order_ikey_cmp [OF child_source.order [OF child_source_axioms]]]
    by (auto simp: step_op_def dir_cmp_def dir_list_def split: if_splits)
  show ?thesis
  proof (cases "cur ?y")
    case None
    then show ?thesis using in_x refl e by (auto simp: child_left_def filter_empty_conv)
  next
    case (Some z)
    then have lt: "?lt e z" using y(2) find_Some_in [of "?lt e"] by (metis option.distinct(1))
    have "length (filter (?le z) (contents x)) < length (filter (?le e) (contents x))"
    proof (rule filter_shrinks [of _ _ "?le e"])
      show "e \<in> set (contents x)" "?le e e" by (fact in_x, fact refl)
      show "\<forall>a \<in> set (contents x). ?le z a \<longrightarrow> ?le e a"
        using key_order.cmp_trans [OF order] key_order.lt_imp_le [OF order lt] by blast
      show "\<not> ?le z e" using lt key_order.not_lt_iff [OF order] by blast
    qed
    then show ?thesis using Some e y(1) by (simp add: child_left_def)
  qed
qed

lemma advance_left:
  assumes s: "wf C s" and h: "mi_heap s \<noteq> []"
  shows "merge_left c forward cur contents (mi_advance ops forward s) < merge_left c forward cur contents s"
proof -
  let ?t = "mi_heap s ! 0"
  have "?t \<in> set (mi_heap s)" using h by simp
  then have t: "?t < length (mi_children s)" "ok (mi_children s ! ?t)" "ch_valid ops (mi_children s ! ?t)"
    using s by (simp_all add: merge_wf_def)
  then have "left forward (ch_apply ops (step_op forward) (mi_children s ! ?t)) < left forward (mi_children s ! ?t)"
    by (intro step_left) (simp_all add: valid_iff)
  moreover have "left forward (mi_children s ! ?t) \<le> sum_list (map (left forward) (mi_children s))"
    by (rule member_le_sum_list) (use t(1) in simp_all)
  ultimately show ?thesis
    using t(1) by (simp add: merge_left_def advance_fields(1) [OF h] map_update sum_list_update)
qed

end

section \<open>Seeking strictly below a key\<close>

definition below_key :: "comparator \<Rightarrow> bytes \<Rightarrow> entry \<Rightarrow> bool" where
  "below_key c k e \<longleftrightarrow> is_lt (compare c (e_key e) k)"

context child_source
begin

lemma key_eq_test: "(if is_bytewise c then a = b else is_eq (compare c a b)) \<longleftrightarrow> a = b"
  using key_order.is_eq_iff [OF user_key_order.axioms [OF order]] by simp

lemma child_seek_lt_ends:
  assumes x: "ok x"
  shows "\<exists>y. child_seek_lt ops c k x = Some y \<and> ok y \<and> contents y = contents x \<and>
    (if ch_err ops y = None then cur y = find (below_key c k) (rev (contents x)) else cur y = None)"
proof -
  let ?L = "contents x"
  let ?cond = "\<lambda>y. ch_valid ops y \<and> ch_user_key ops y = k"
  define ahead where "ahead R \<longleftrightarrow> (\<forall>e \<in> set ?L. (below_key c k e \<longrightarrow> R e) \<and> (R e \<longrightarrow> is_le (compare c (e_key e) k)))" for R
  define inv where "inv y \<longleftrightarrow> ok y \<and> contents y = ?L \<and>
    (if ch_err ops y = None then \<exists>R. cur y = find R (rev ?L) \<and> ahead R else cur y = None)" for y
  note uorder = user_key_order.axioms [OF order]
  have invI: "inv y" if "ahead R" "ok y \<and> contents y = ?L"
    "if ch_err ops y = None then cur y = find R (rev ?L) else cur y = None" for y R
    using that by (cases "ch_err ops y = None") (auto simp: inv_def)
  have loop: "child_seek_lt ops c k x = while_option ?cond (ch_prev ops) (ch_seek_le ops k u64_max x)"
    by (simp only: child_seek_lt_def Let_def key_eq_test)
  have start: "inv (ch_seek_le ops k u64_max x)"
  proof -
    note seek = apply_ok [OF x, of "SeekLe k u64_max"] apply_current [OF x, of "SeekLe k u64_max"]
    have "ahead (\<lambda>e. is_le (ikey_cmp c (entry_ikey e) (k, u64_max)))"
      by (auto simp: ahead_def below_key_def ikey_cmp_eq entry_ikey_def then_with_def ordering_tests ord_cmp_def
          split: ordering.splits if_splits)
    moreover have "ok (ch_seek_le ops k u64_max x) \<and> contents (ch_seek_le ops k u64_max x) = ?L"
      "if ch_err ops (ch_seek_le ops k u64_max x) = None
       then cur (ch_seek_le ops k u64_max x) = find (\<lambda>e. is_le (ikey_cmp c (entry_ikey e) (k, u64_max))) (rev ?L)
       else cur (ch_seek_le ops k u64_max x) = None"
      using seek by (cases "ch_err ops (ch_seek_le ops k u64_max x)"; simp add: op_moves_def)+
    ultimately show ?thesis by (rule invI)
  qed
  have step: "inv (ch_prev ops y) \<and> left False (ch_prev ops y) < left False y" if y: "inv y" "?cond y" for y
  proof -
    have ok: "ok y" "contents y = ?L" using y(1) by (simp_all add: inv_def)
    then obtain e where e: "cur y = Some e" using y(2) valid_iff [OF ok(1)] by auto
    then have key: "e_key e = k" using y(2) reads [OF ok(1) e] by simp
    have "ahead (\<lambda>z. is_lt (ikey_cmp c (entry_ikey z) (entry_ikey e)))"
      using key by (auto simp: ahead_def below_key_def ikey_cmp_eq entry_ikey_def then_with_def ordering_tests
          split: ordering.splits if_splits)
    moreover have "ok (ch_prev ops y) \<and> contents (ch_prev ops y) = ?L"
      "if ch_err ops (ch_prev ops y) = None
       then cur (ch_prev ops y) = find (\<lambda>z. is_lt (ikey_cmp c (entry_ikey z) (entry_ikey e))) (rev ?L)
       else cur (ch_prev ops y) = None"
      using apply_ok [OF ok(1), of StepPrev] apply_current [OF ok(1), of StepPrev] e ok(2)
      by (cases "ch_err ops (ch_prev ops y)"; simp)+
    ultimately have "inv (ch_prev ops y)" by (rule invI)
    then show ?thesis using step_left [OF ok(1), of False] e by (simp add: step_op_def)
  qed
  obtain y where y: "while_option ?cond (ch_prev ops) (ch_seek_le ops k u64_max x) = Some y"
    using measure_while_option_Some [where P = inv and b = ?cond and c = "ch_prev ops" and f = "left False",
        OF conjI [OF step [THEN conjunct1] step [THEN conjunct2]] start] by blast
  have inv: "inv y"
    by (rule while_option_rule [where P = inv and b = ?cond, OF step [THEN conjunct1] y start])
  moreover have stop: "\<not> ?cond y" using while_option_stop [OF y] .
  moreover have "cur y = find (below_key c k) (rev ?L)" if R: "cur y = find R (rev ?L)" "ahead R" and "ok y" for R
  proof (cases "cur y")
    case None
    then show ?thesis using find_weaken(2) [of R "rev ?L" "below_key c k"] R by (simp add: ahead_def)
  next
    case (Some e)
    then have "e \<in> set ?L" "R e" using find_Some_in [of R "rev ?L" e] R(1) by auto
    then have "is_le (compare c (e_key e) k)" using R(2) by (simp add: ahead_def)
    moreover have "e_key e \<noteq> k" using stop Some reads [OF \<open>ok y\<close> Some] valid_iff [OF \<open>ok y\<close>] by simp
    ultimately have "below_key c k e"
      using key_order.cmp_Equal [OF uorder] by (cases "compare c (e_key e) k") (simp_all add: below_key_def)
    then show ?thesis using find_weaken(1) [of R "rev ?L" e "below_key c k"] R Some by (simp add: ahead_def)
  qed
  ultimately have "if ch_err ops y = None then cur y = find (below_key c k) (rev ?L) else cur y = None"
    unfolding inv_def by metis
  with inv show ?thesis unfolding loop y inv_def by blast
qed

end

context child_source
begin

lemma seek_lt_walk:
  assumes s: "wf C s"
  shows "\<exists>t. mi_seek_lt ops k s = Some t \<and> wf C t \<and> mi_dir t = - 1 \<and> (mi_err t = None \<longrightarrow>
    mi_err s = None \<and> at C (filter (\<lambda>x. below_key c k (fst x)) (merged c (- 1) C)) t)"
proof -
  define good where "good x y \<longleftrightarrow> child_seek_lt ops c k x = Some y \<and> ok y \<and> contents y = contents x \<and>
    (if ch_err ops y = None then cur y = find (below_key c k) (rev (contents x)) else cur y = None)" for x y
  have kids: "mi_cmp s = c" "length (mi_children s) = length C"
    "\<forall>i < length C. ok (mi_children s ! i) \<and> contents (mi_children s ! i) = C ! i"
    using s by (simp_all add: merge_wf_def)
  have "\<forall>x \<in> set (mi_children s). \<exists>y. good x y"
    using child_seek_lt_ends kids(2,3) unfolding good_def by (metis in_set_conv_nth)
  then obtain g where g: "\<forall>x \<in> set (mi_children s). good x (g x)" by metis
  define t where "t = s\<lparr>mi_dir := - 1, mi_children := map g (mi_children s)\<rparr>"
  have lt: "mi_seek_lt ops k s = Some (mi_rebuild ops t)"
    using those_map [of "mi_children s" "child_seek_lt ops c k" g] g
    by (simp add: mi_seek_lt_def kids(1) t_def good_def)
  have t: "mi_cmp t = c" "mi_dir t = - 1" "length (mi_children t) = length C" "mi_err t = mi_err s"
    using kids by (simp_all add: t_def)
  have kid: "good (mi_children s ! i) (mi_children t ! i)" if "i < length C" for i
    using g kids(2) that by (simp add: t_def)
  define rem where "rem = filter (\<lambda>x. below_key c k (fst x)) (merged c (- 1) C)"
  have "at C rem (mi_rebuild ops t)" if "mi_err (mi_rebuild ops t) = None"
  proof (rule rebuild_walk [OF t(1) _ t(3) _ that])
    show "\<forall>i < length C. ok (mi_children t ! i)" using kid by (simp add: good_def)
    show "\<forall>i < length C. if ch_err ops (mi_children t ! i) = None
        then cur (mi_children t ! i) = map_option fst (find (\<lambda>x. snd x = i) rem)
        else cur (mi_children t ! i) = None"
    proof (intro allI impI)
      fix i assume i: "i < length C"
      have "find (below_key c k) (rev (C ! i)) = map_option fst (find (\<lambda>x. snd x = i) rem)"
        unfolding rem_def find_in_union [OF order wf_contents [OF s] i] by (simp add: dir_list_def)
      then show "if ch_err ops (mi_children t ! i) = None
        then cur (mi_children t ! i) = map_option fst (find (\<lambda>x. snd x = i) rem)
        else cur (mi_children t ! i) = None"
        using kid [OF i] kids(3) i by (simp add: good_def)
    qed
    have "is_le (dir_cmp c (- 1) a b) \<Longrightarrow> is_lt (compare c (fst a) k) \<Longrightarrow> is_lt (compare c (fst b) k)" for a b :: ikey
      using key_order.le_lt_trans [OF user_key_order.axioms [OF order], of "fst b" "fst a" k]
      by (auto simp: dir_cmp_def ikey_cmp_eq then_with_def ordering_tests split: ordering.splits)
    then have "\<exists>seen. merged c (- 1) C = seen @ rem"
      unfolding rem_def below_key_def
      using walk_suffix [OF order wf_contents [OF s], of "- 1" "\<lambda>a. is_lt (compare c (fst a) k)"]
      by (simp add: entry_ikey_def)
    then show "\<exists>seen. merged c (mi_dir t) C = seen @ rem" by (simp add: t(2))
  qed (simp add: t(2))
  moreover have "wf C (mi_rebuild ops t)"
    using kid kids(3) by (intro rebuild_wf) (simp_all add: t good_def)
  ultimately show ?thesis
    unfolding lt rem_def [symmetric] by (auto simp: rebuild_fields t)
qed

end

section \<open>The memtable iterator is a child\<close>

definition mem_rows :: "'m skip_ops \<Rightarrow> comparator \<Rightarrow> 'm list \<Rightarrow> (ikey \<times> val) list" where
  "mem_rows ops c maps = sort_by (\<lambda>a b. ikey_cmp c (fst a) (fst b)) (concat (map (sk_iter ops) maps))"

definition mem_contents :: "'m skip_ops \<Rightarrow> comparator \<Rightarrow> 'm mem_merge \<Rightarrow> entry list" where
  "mem_contents ops c s = map entry_of (mem_rows ops c (map sc_map (mm_shards s)))"

definition mem_current :: "'m mem_merge \<Rightarrow> entry option" where
  "mem_current s = map_option entry_of (mm_top s)"

definition flags_match :: "ikey \<times> val \<Rightarrow> bool" where
  "flags_match x \<longleftrightarrow> (v_flags (snd x) AND TOMBSTONE \<noteq> 0) = entry_tombstone (entry_of x)"

definition mem_ok :: "'m skip_ops \<Rightarrow> comparator \<Rightarrow> 'm mem_merge \<Rightarrow> bool" where
  "mem_ok ops c s \<longleftrightarrow> mm_sim ops c (map sc_map (mm_shards s)) s \<and> runs_ok ops c (map sc_map (mm_shards s))
     \<and> (\<forall>x \<in> set (mem_rows ops c (map sc_map (mm_shards s))). flags_match x)"

lemma mem_rows_sorted:
  assumes c: "user_key_order (compare c)" and runs: "runs_ok ops c maps"
  shows "in_key_order (ikey_cmp c) (mem_rows ops c maps)"
    and "set (mem_rows ops c maps) = \<Union> (set (map (\<lambda>sh. set (sk_iter ops sh)) maps))"
proof -
  note order = key_order_ikey_cmp [OF c]
  have "distinct (map fst (sk_iter ops (maps ! i)))" if "i < length maps" for i
    using runs that by (intro key_order.sorted_lt_distinct [OF order]) (simp add: runs_ok_def sorted_wrt_map)
  moreover have "set (map fst (sk_iter ops (maps ! i))) \<inter> set (map fst (sk_iter ops (maps ! j))) = {}"
    if "i < length maps" "j < length maps" "i \<noteq> j" for i j
    using runs that unfolding runs_ok_def by simp
  ultimately have "distinct (concat (map (\<lambda>i. map fst (sk_iter ops (maps ! i))) [0..<length maps]))"
    by (intro distinct_concat_upt) blast+
  moreover have "map (\<lambda>i. map fst (sk_iter ops (maps ! i))) [0..<length maps] = map (\<lambda>m. map fst (sk_iter ops m)) maps"
    by (rule nth_equalityI) simp_all
  ultimately have "distinct (map fst (concat (map (sk_iter ops) maps)))" by (simp add: map_concat comp_def)
  then show "in_key_order (ikey_cmp c) (mem_rows ops c maps)"
    unfolding mem_rows_def by (rule sort_by_strict [OF order])
  show "set (mem_rows ops c maps) = \<Union> (set (map (\<lambda>sh. set (sk_iter ops sh)) maps))"
    by (simp add: mem_rows_def)
qed

lemma mem_top_row:
  assumes c: "user_key_order (compare c)" and s: "mem_ok ops c s" and e: "mm_top s = Some e"
  shows "e \<in> set (mem_rows ops c (map sc_map (mm_shards s)))"
proof -
  have sim: "mm_cmp s = c" "runs_ok ops c (map sc_map (mm_shards s))" and "mm_heap s = [] \<or> (\<exists>b. merge_at ops b s)"
    using s by (simp_all add: mem_ok_def mm_sim_def)
  then obtain b where at: "merge_at ops b s" using e by (auto simp: mm_top_def)
  let ?i = "mm_heap s ! 0"
  have "?i < length (mm_shards s)" "sc_cur (mm_shards s ! ?i) = Some e"
    using top_in_range [OF at e] by blast+
  moreover from this have "first_above (dir_cmp c (mm_dir s)) b (dir_list (mm_dir s) (sk_iter ops (sc_map (mm_shards s ! ?i)))) = Some e"
    using at sim(1) by (simp add: merge_at_def)
  ultimately have "e \<in> set (sk_iter ops (sc_map (mm_shards s ! ?i)))"
    using first_above_in(1) by fastforce
  with \<open>?i < length (mm_shards s)\<close> show ?thesis
    unfolding mem_rows_sorted(2) [OF c sim(2)] by auto
qed

lemma mem_apply_child: "ch_apply (mem_child_ops ops) op s = mm_apply ops op s"
  by (cases op) (simp_all add: mem_child_ops_def Let_def)

lemma mem_child_source:
  assumes c: "user_key_order (compare c)" and sm: "skip_map ops (ikey_cmp c)"
  shows "child_source (mem_child_ops ops) c (mem_ok ops c) mem_current (mem_contents ops c)"
proof (rule child_source.intro)
  fix s :: "'a mem_merge" and op e v
  show "user_key_order (compare c)" by (rule c)
  assume s: "mem_ok ops c s"
  let ?maps = "map sc_map (mm_shards s)"
  have sim: "mm_sim ops c ?maps s" and runs: "runs_ok ops c ?maps" using s by (simp_all add: mem_ok_def)
  note rows = mem_rows_sorted [OF c runs]
  show "in_order c (mem_contents ops c s)"
    using rows(1) by (simp add: mem_contents_def sorted_wrt_map entry_ikey_of)
  have "mm_top s = None \<longleftrightarrow> mm_heap s = []"
    using sim top_none unfolding mm_sim_def by (metis mm_top_def)
  then show "ch_valid (mem_child_ops ops) s = (mem_current s \<noteq> None)"
    by (simp add: mem_child_ops_def Let_def mm_valid_def mem_current_def)
  note keep = mm_apply_keeps [of s ops op] and step = mm_apply_sim [OF c sm runs rows sim, of op]
  have maps: "map sc_map (mm_shards (mm_apply ops op s)) = ?maps" using keep by (simp add: mm_keeps_def)
  then show "mem_ok ops c (ch_apply (mem_child_ops ops) op s) \<and>
      mem_contents ops c (ch_apply (mem_child_ops ops) op s) = mem_contents ops c s"
    using step s by (simp add: mem_apply_child mem_ok_def mem_contents_def)
  show "if ch_err (mem_child_ops ops) (ch_apply (mem_child_ops ops) op s) = None
      then mem_current (ch_apply (mem_child_ops ops) op s) = scan_apply c (mem_contents ops c s) op (mem_current s)
      else mem_current (ch_apply (mem_child_ops ops) op s) = None"
    using step by (simp add: mem_apply_child mem_current_def mem_contents_def) (simp add: mem_child_ops_def Let_def)
  assume "mem_current s = Some e"
  then obtain x where x: "mm_top s = Some x" "e = entry_of x" by (auto simp: mem_current_def)
  note row = mem_top_row [OF c s x(1)]
  show "e \<in> set (mem_contents ops c s)" using row x(2) by (simp add: mem_contents_def)
  have "flags_match x" using s row by (simp add: mem_ok_def)
  then show "ch_user_key (mem_child_ops ops) s = e_key e \<and> ch_seq (mem_child_ops ops) s = e_seq e \<and>
      ch_ttl (mem_child_ops ops) s = e_ttl e \<and> ch_tombstone (mem_child_ops ops) s = entry_tombstone e \<and>
      ch_kind (mem_child_ops ops) s = e_kind e"
    using x by (cases x) (auto simp: mem_child_ops_def Let_def flags_match_def entry_of_def)
  show "ch_value_into (mem_child_ops ops) s = Inr v \<Longrightarrow> v = e_value e"
    using x by (cases x) (auto simp: mem_child_ops_def Let_def entry_of_def)
  show "ch_value_block (mem_child_ops ops) s = Some v \<Longrightarrow> v = e_value e"
    by (simp add: mem_child_ops_def Let_def)
qed

interpretation mem_child: child_source "mem_child_ops list_ops" Bytewise "mem_ok list_ops Bytewise" mem_current
  "mem_contents list_ops Bytewise"
  by (rule mem_child_source [OF bytewise.user_key_order_axioms list_map.skip_map_axioms])

section \<open>The dispatch over the kinds of children\<close>

lemma child_iter_apply:
  "ch_apply (child_iter_ops mem uni sst) op x =
     map_child_iter (ch_apply mem op) (ch_apply uni op) (ch_apply sst op) x"
  by (cases op; cases x) (simp_all add: child_iter_ops_def)

text \<open>The dispatch asks only SSTable children for an error, so the others must not fail.\<close>

lemma child_iter_source:
  assumes m: "child_source mem c okm curm conm" and u: "child_source uni c oku curu conu"
    and s: "child_source sst c oks curs cons"
    and never: "\<And>x. ch_err mem x = None" "\<And>x. ch_err uni x = None"
  shows "child_source (child_iter_ops mem uni sst) c (case_child_iter okm oku oks)
    (case_child_iter curm curu curs) (case_child_iter conm conu cons)"
proof (rule child_source.intro)
  fix x op e v
  show "user_key_order (compare c)" by (rule child_source.order [OF m])
  let ?ops = "child_iter_ops mem uni sst" and ?ok = "case_child_iter okm oku oks"
  let ?cur = "case_child_iter curm curu curs" and ?con = "case_child_iter conm conu cons"
  assume ok: "?ok x"
  show "in_order c (?con x)"
    using ok child_source.contents_sorted [OF m] child_source.contents_sorted [OF u] child_source.contents_sorted [OF s]
    by (cases x) simp_all
  show "ch_valid ?ops x = (?cur x \<noteq> None)"
    using ok child_source.valid_iff [OF m] child_source.valid_iff [OF u] child_source.valid_iff [OF s]
    by (cases x) (simp_all add: child_iter_ops_def)
  show "?cur x = Some e \<Longrightarrow> e \<in> set (?con x)"
    using ok child_source.current_in [OF m] child_source.current_in [OF u] child_source.current_in [OF s]
    by (cases x) simp_all
  show "?cur x = Some e \<Longrightarrow> ch_user_key ?ops x = e_key e \<and> ch_seq ?ops x = e_seq e \<and>
      ch_ttl ?ops x = e_ttl e \<and> ch_tombstone ?ops x = entry_tombstone e \<and> ch_kind ?ops x = e_kind e"
    using ok child_source.reads [OF m] child_source.reads [OF u] child_source.reads [OF s]
    by (cases x) (simp_all add: child_iter_ops_def)
  show "?cur x = Some e \<Longrightarrow> ch_value_into ?ops x = Inr v \<Longrightarrow> v = e_value e"
    using ok child_source.reads_value [OF m] child_source.reads_value [OF u] child_source.reads_value [OF s]
    by (cases x) (simp_all add: child_iter_ops_def)
  show "?cur x = Some e \<Longrightarrow> ch_value_block ?ops x = Some v \<Longrightarrow> v = e_value e"
    using ok child_source.reads_block [OF s] by (cases x) (simp_all add: child_iter_ops_def)
  assume moves: "op_moves op \<Longrightarrow> ?cur x \<noteq> None"
  show "?ok (ch_apply ?ops op x) \<and> ?con (ch_apply ?ops op x) = ?con x"
    using ok moves child_source.apply_ok [OF m, of _ op] child_source.apply_ok [OF u, of _ op] child_source.apply_ok [OF s, of _ op]
    by (cases x) (simp_all add: child_iter_apply)
  show "if ch_err ?ops (ch_apply ?ops op x) = None
      then ?cur (ch_apply ?ops op x) = scan_apply c (?con x) op (?cur x) else ?cur (ch_apply ?ops op x) = None"
    unfolding child_iter_apply
    using ok moves child_source.apply_current [OF m, of _ op] child_source.apply_current [OF u, of _ op]
      child_source.apply_current [OF s, of _ op]
    by (cases x) (simp_all add: child_iter_ops_def never)
qed

end
