(* ===== verification/Scan_Iter.thy ===== *)
theory Scan_Iter
  imports Merging_Iter Range_Tombstone
begin

text \<open>
  The public iterator of \<open>src/src/iterator.rs\<close> over one column family at a fixed read
  sequence: it walks the merge of theory \<open>Merging_Iter\<close>, resolves each user key's group of
  versions to one value (newest visible version, merge operands folded onto their base,
  range deletes masking), and honours the declared key bounds in both directions.

  Theory \<open>Group_Resolve\<close> shows what one group resolves to, theory \<open>Scan_Walk\<close> where every
  movement lands.
\<close>

section \<open>Versions\<close>

definition expired :: "i64 \<Rightarrow> i64 \<Rightarrow> bool" where
  "expired ttl now \<longleftrightarrow> ttl \<noteq> 0 \<and> sint ttl \<le> sint now"

datatype version_decision = Ignore | DTombstone | DValue

record visible_version =
  vv_found :: bool
  vv_seq :: u64
  vv_tombstone :: bool
  vv_ttl :: i64
  vv_merged :: bool

definition vv_default :: visible_version where
  "vv_default = \<lparr>vv_found = False, vv_seq = 0, vv_tombstone = False, vv_ttl = 0, vv_merged = False\<rparr>"

definition vv_consider :: "u64 \<Rightarrow> bool \<Rightarrow> i64 \<Rightarrow> u64 \<Rightarrow> visible_version \<Rightarrow> version_decision \<times> visible_version" where
  "vv_consider seq tombstone ttl read_seq v =
     (if seq > read_seq \<or> (vv_found v \<and> seq \<le> vv_seq v) then (Ignore, v)
      else (if tombstone then DTombstone else DValue,
            v\<lparr>vv_found := True, vv_seq := seq, vv_tombstone := tombstone, vv_ttl := ttl\<rparr>))"

definition vv_is_live :: "i64 \<Rightarrow> visible_version \<Rightarrow> bool" where
  "vv_is_live now v \<longleftrightarrow> vv_merged v \<or> (vv_found v \<and> \<not> vv_tombstone v \<and> \<not> expired (vv_ttl v) now)"

section \<open>The iterator\<close>

text \<open>A merge operator is user code: its \<open>full_merge\<close> is a parameter.\<close>

type_synonym merge_operator = "bytes \<Rightarrow> bytes option \<Rightarrow> bytes list \<Rightarrow> string + bytes"

text \<open>A pinned value borrows its bytes from a block the iterator keeps alive.\<close>

datatype cur_val = CEmpty | CBuffered | CPinned bytes

record 'c scan_iter =
  it_m :: "'c merging"
  it_read_seq :: u64
  it_now :: i64
  it_key :: bytes
  it_val :: bytes
  it_cur_val :: cur_val
  it_valid :: bool
  it_err :: "onda_error option"
  it_lower :: "bytes bound"
  it_upper :: "bytes bound"
  it_mask :: "frag_cursor list"
  it_merge_op :: "merge_operator option"
  it_operands :: bytes
  it_operand_spans :: "(nat \<times> nat \<times> u64) list"

definition it_new :: "comparator \<Rightarrow> 'c list \<Rightarrow> u64 \<Rightarrow> i64 \<Rightarrow> bytes bound \<times> bytes bound \<Rightarrow> frag_cursor list
    \<Rightarrow> 'c scan_iter" where
  "it_new cmp children read_seq now bounds msk = \<lparr>it_m = mi_new cmp children, it_read_seq = read_seq,
     it_now = now, it_key = [], it_val = [], it_cur_val = CEmpty, it_valid = False, it_err = None,
     it_lower = fst bounds, it_upper = snd bounds, it_mask = msk, it_merge_op = None,
     it_operands = [], it_operand_spans = []\<rparr>"

definition with_merge_operator :: "merge_operator option \<Rightarrow> 'c scan_iter \<Rightarrow> 'c scan_iter" where
  "with_merge_operator op it = it\<lparr>it_merge_op := op\<rparr>"

definition it_failed :: "comparator \<Rightarrow> onda_error \<Rightarrow> 'c scan_iter" where
  "it_failed cmp e = (it_new cmp [] 0 0 (Unbounded, Unbounded) [])\<lparr>it_err := Some e, it_valid := False\<rparr>"

definition it_value :: "'c scan_iter \<Rightarrow> bytes" where
  "it_value it = (case it_cur_val it of CPinned b \<Rightarrow> b | CBuffered \<Rightarrow> it_val it | CEmpty \<Rightarrow> [])"

text \<open>\<open>Inl\<close> is the panic of a fragment cursor over a unified source (theory \<open>Range_Tombstone\<close>).\<close>

definition group_covering_seq :: "'c scan_iter \<Rightarrow> ('c scan_iter \<times> u64 option) result" where
  "group_covering_seq it =
     (if it_mask it = [] then Inr (it, None)
      else rbind (mask_covering_seq (compare (mi_cmp (it_m it))) (it_key it) (it_read_seq it) (it_mask it))
        (\<lambda>(msk, covering). Inr (it\<lparr>it_mask := msk\<rparr>, covering)))"

definition masked_by_range :: "visible_version \<Rightarrow> 'c scan_iter \<Rightarrow> ('c scan_iter \<times> bool) result" where
  "masked_by_range visible it = rbind (group_covering_seq it) (\<lambda>(it, covering).
     Inr (it, case covering of Some seq \<Rightarrow> seq > vv_seq visible | None \<Rightarrow> False))"

definition past_upper :: "'c scan_iter \<Rightarrow> bool" where
  "past_upper it = (case it_upper it of
     Unbounded \<Rightarrow> False
   | Included u \<Rightarrow> is_gt (mi_key_cmp (mi_cmp (it_m it)) (it_key it) u)
   | Excluded u \<Rightarrow> is_ge (mi_key_cmp (mi_cmp (it_m it)) (it_key it) u))"

definition below_lower :: "'c scan_iter \<Rightarrow> bool" where
  "below_lower it = (case it_lower it of
     Unbounded \<Rightarrow> False
   | Included l \<Rightarrow> is_lt (mi_key_cmp (mi_cmp (it_m it)) (it_key it) l)
   | Excluded l \<Rightarrow> is_le (mi_key_cmp (mi_cmp (it_m it)) (it_key it) l))"

definition capture_group_key :: "'c child_ops \<Rightarrow> 'c scan_iter \<Rightarrow> 'c scan_iter" where
  "capture_group_key ops it = it\<lparr>it_key := ch_user_key ops (mi_top (it_m it))\<rparr>"

definition top_in_group :: "'c child_ops \<Rightarrow> 'c scan_iter \<Rightarrow> bool" where
  "top_in_group ops it =
     (if \<not> mi_valid (it_m it) then False
      else
        let k = ch_user_key ops (mi_top (it_m it)) in
        if is_bytewise (mi_cmp (it_m it))
        then if key_prefix8 k \<noteq> key_prefix8 (it_key it) then False else k = it_key it
        else is_eq (mi_key_cmp (mi_cmp (it_m it)) k (it_key it)))"

definition capture_value :: "'c child_ops \<Rightarrow> 'c scan_iter \<Rightarrow> 'c scan_iter \<times> unit result" where
  "capture_value ops it =
     (let child = mi_top (it_m it) in
      case ch_value_block ops child of
        Some v \<Rightarrow> (it\<lparr>it_cur_val := CPinned v\<rparr>, Inr ())
      | None \<Rightarrow>
          (case ch_value_into ops child of
             Inl e \<Rightarrow> (it\<lparr>it_val := []\<rparr>, Inl e)
           | Inr v \<Rightarrow> (it\<lparr>it_val := v, it_cur_val := CBuffered\<rparr>, Inr ())))"

definition push_operand :: "'c child_ops \<Rightarrow> u64 \<Rightarrow> 'c scan_iter \<Rightarrow> 'c scan_iter \<times> unit result" where
  "push_operand ops seq it =
     (case ch_value_into ops (mi_top (it_m it)) of
        Inl e \<Rightarrow> (it, Inl e)
      | Inr v \<Rightarrow> (it\<lparr>it_operands := it_operands it @ v,
            it_operand_spans := it_operand_spans it @ [(length (it_operands it), length v, seq)]\<rparr>, Inr ()))"

definition clear_operands :: "'c scan_iter \<Rightarrow> 'c scan_iter" where
  "clear_operands it = it\<lparr>it_operands := [], it_operand_spans := []\<rparr>"

section \<open>Resolving one group\<close>

text \<open>
  Both ways of resolving a group drain it with one loop over the merge; what a pass does
  with the entry on top is its \<open>step\<close>.
\<close>

definition step_merge :: "'c child_ops \<Rightarrow> bool \<Rightarrow> 'c scan_iter \<Rightarrow> 'c scan_iter" where
  "step_merge ops forward it = it\<lparr>it_m := mi_advance ops forward (it_m it)\<rparr>"

partial_function (option) group_loop ::
  "'c child_ops \<Rightarrow> bool \<Rightarrow> ('c scan_iter \<Rightarrow> 's \<Rightarrow> 'c scan_iter \<times> 's result) \<Rightarrow> 'c scan_iter \<Rightarrow> 's
     \<Rightarrow> ('c scan_iter \<times> 's result) option" where
  "group_loop ops forward step it s =
     (if \<not> top_in_group ops it then Some (it, Inr s)
      else case step it s of
        (it, Inl e) \<Rightarrow> Some (it, Inl e)
      | (it, Inr s) \<Rightarrow> group_loop ops forward step (step_merge ops forward it) s)"

text \<open>One pass without an operator.\<close>

definition plain_step :: "'c child_ops \<Rightarrow> 'c scan_iter \<Rightarrow> visible_version
    \<Rightarrow> 'c scan_iter \<times> visible_version result" where
  "plain_step ops it v =
     (let t = mi_top (it_m it);
          (decision, v) = vv_consider (ch_seq ops t) (ch_tombstone ops t) (ch_ttl ops t) (it_read_seq it) v
      in case decision of
           Ignore \<Rightarrow> (it, Inr v)
         | DTombstone \<Rightarrow> (it\<lparr>it_cur_val := CEmpty\<rparr>, Inr v)
         | DValue \<Rightarrow> (case capture_value ops it of (it, r) \<Rightarrow> (it, map_sum id (\<lambda>_. v) r)))"

text \<open>One pass with an operator; the state carries the last sequence number seen.\<close>

definition merging_step :: "'c child_ops \<Rightarrow> bool \<Rightarrow> 'c scan_iter \<Rightarrow> visible_version \<times> u64 option
    \<Rightarrow> 'c scan_iter \<times> (visible_version \<times> u64 option) result" where
  "merging_step ops forward it s =
     (let (v, last_seq) = s; t = mi_top (it_m it); seq = ch_seq ops t in
      if last_seq = Some seq then (it, Inr s)
      else if ch_kind ops t = KIND_MERGE then
        if seq \<le> it_read_seq it \<and> \<not> (forward \<and> vv_found v)
        then case push_operand ops seq it of (it, r) \<Rightarrow> (it, map_sum id (\<lambda>_. (v, Some seq)) r)
        else (it, Inr (v, Some seq))
      else
        let (decision, v) = vv_consider (ch_seq ops t) (ch_tombstone ops t) (ch_ttl ops t) (it_read_seq it) v in
        case decision of
          Ignore \<Rightarrow> (it, Inr (v, Some seq))
        | DTombstone \<Rightarrow>
            (let it = it\<lparr>it_cur_val := CEmpty\<rparr> in if forward then it else clear_operands it, Inr (v, Some seq))
        | DValue \<Rightarrow>
            (case capture_value ops it of
               (it, Inl e) \<Rightarrow> (it, Inl e)
             | (it, Inr _) \<Rightarrow> (if forward then it else clear_operands it, Inr (v, Some seq))))"

definition span_slice :: "bytes \<Rightarrow> nat \<times> nat \<times> u64 \<Rightarrow> bytes" where
  "span_slice operands s = (case s of (start, len, _) \<Rightarrow> take len (drop start operands))"

definition span_seq :: "nat \<times> nat \<times> u64 \<Rightarrow> u64" where
  "span_seq s = snd (snd s)"

definition existing_base :: "visible_version \<Rightarrow> u64 option \<Rightarrow> 'c scan_iter \<Rightarrow> bytes option" where
  "existing_base visible cover it =
     (if vv_found visible \<and> \<not> vv_tombstone visible \<and> \<not> expired (vv_ttl visible) (it_now it)
         \<and> \<not> (case cover of Some c \<Rightarrow> vv_seq visible \<le> c | None \<Rightarrow> False)
      then Some (it_value it) else None)"

definition fold_group :: "merge_operator \<Rightarrow> visible_version \<Rightarrow> bool \<Rightarrow> u64 option \<Rightarrow> 'c scan_iter
    \<Rightarrow> 'c scan_iter \<times> visible_version result" where
  "fold_group op visible forward cover it =
     (let it = (case cover of
            Some c \<Rightarrow> it\<lparr>it_operand_spans := filter (\<lambda>s. span_seq s > c) (it_operand_spans it)\<rparr>
          | None \<Rightarrow> it)
      in if cover \<noteq> None \<and> it_operand_spans it = [] then (it, Inr visible)
         else
           let it = (if forward then it\<lparr>it_operand_spans := rev (it_operand_spans it)\<rparr> else it) in
           case op (it_key it) (existing_base visible cover it)
               (map (span_slice (it_operands it)) (it_operand_spans it)) of
             Inl e \<Rightarrow> (it, Inl (Corruption ''merge operator failed''))
           | Inr folded \<Rightarrow>
               let newest = foldl max 0 (map span_seq (it_operand_spans it)) in
               (it\<lparr>it_val := folded, it_cur_val := CBuffered\<rparr>,
                Inr (visible\<lparr>vv_found := True, vv_merged := True,
                  vv_seq := (if it_operand_spans it = [] then vv_seq visible else max (vv_seq visible) newest)\<rparr>)))"

text \<open>The outer \<open>Inl\<close> is a panic, the inner one an error the iterator reports.\<close>

definition resolve_merging_group :: "'c child_ops \<Rightarrow> merge_operator \<Rightarrow> bool \<Rightarrow> 'c scan_iter
    \<Rightarrow> ('c scan_iter \<times> visible_version result) result option" where
  "resolve_merging_group ops op forward it =
     map_option (\<lambda>(it, r). case r of
         Inl e \<Rightarrow> Inr (it, Inl e)
       | Inr (visible, _) \<Rightarrow>
           if it_operand_spans it = [] then Inr (it, Inr visible)
           else rbind (group_covering_seq it) (\<lambda>(it, cover). Inr (fold_group op visible forward cover it)))
       (group_loop ops forward (merging_step ops forward) (clear_operands (it\<lparr>it_cur_val := CEmpty\<rparr>))
          (vv_default, None))"

definition resolve_current_group :: "'c child_ops \<Rightarrow> bool \<Rightarrow> 'c scan_iter
    \<Rightarrow> ('c scan_iter \<times> visible_version result) result option" where
  "resolve_current_group ops forward it = (case it_merge_op it of
     Some op \<Rightarrow> resolve_merging_group ops op forward it
   | None \<Rightarrow> map_option Inr (group_loop ops forward (plain_step ops) (it\<lparr>it_cur_val := CEmpty\<rparr>) vv_default))"

section \<open>Moving\<close>

definition child_failed :: "'c scan_iter \<Rightarrow> 'c scan_iter \<times> bool" where
  "child_failed it = (case mi_err (it_m it) of
     None \<Rightarrow> (it, False)
   | Some e \<Rightarrow> (it\<lparr>it_err := Some (duplicate e), it_valid := False\<rparr>, True))"

text \<open>
  One pass of the loops of \<open>advance_forward\<close> and \<open>advance_backward\<close>, which differ in the
  direction and in the bound that ends them; the flag says whether to go round again.
\<close>

definition surface_group :: "bool \<Rightarrow> 'c scan_iter \<Rightarrow> visible_version \<Rightarrow> ('c scan_iter \<times> bool) result" where
  "surface_group forward it visible =
     (case child_failed it of (it, failed) \<Rightarrow>
        if failed then Inr (it, False)
        else if vv_is_live (it_now it) visible
        then rbind (masked_by_range visible it) (\<lambda>(it, hidden).
          if hidden then Inr (it, True)
          else Inr (it\<lparr>it_valid := \<not> (if forward then past_upper it else below_lower it)\<rparr>, False))
        else Inr (it, True))"

definition advance_step :: "'c child_ops \<Rightarrow> bool \<Rightarrow> 'c scan_iter \<Rightarrow> ('c scan_iter \<times> bool) result option" where
  "advance_step ops forward it =
     (case child_failed it of (it, failed) \<Rightarrow>
        if failed \<or> \<not> mi_valid (it_m it) then Some (Inr (it\<lparr>it_valid := False\<rparr>, False))
        else map_option (\<lambda>r. rbind r (\<lambda>(it, r). case r of
               Inl e \<Rightarrow> Inr (it\<lparr>it_err := Some e, it_valid := False\<rparr>, False)
             | Inr visible \<Rightarrow> surface_group forward it visible))
          (resolve_current_group ops forward (capture_group_key ops it)))"

partial_function (option) advance_loop :: "'c child_ops \<Rightarrow> bool \<Rightarrow> 'c scan_iter \<Rightarrow> 'c scan_iter result option" where
  "advance_loop ops forward it =
     Option.bind (advance_step ops forward it) (\<lambda>r. case r of
       Inl e \<Rightarrow> Some (Inl e)
     | Inr x \<Rightarrow> if snd x then advance_loop ops forward (fst x) else Some (Inr (fst x)))"

definition advance_forward :: "'c child_ops \<Rightarrow> 'c scan_iter \<Rightarrow> 'c scan_iter result option" where
  "advance_forward ops it = advance_loop ops True it"

definition advance_backward :: "'c child_ops \<Rightarrow> 'c scan_iter \<Rightarrow> 'c scan_iter result option" where
  "advance_backward ops it = advance_loop ops False it"

definition it_seek_to_first :: "'c child_ops \<Rightarrow> 'c scan_iter \<Rightarrow> 'c scan_iter result option" where
  "it_seek_to_first ops it = advance_forward ops (it\<lparr>it_m := (case it_lower it of
     Unbounded \<Rightarrow> mi_seek_to_first ops (it_m it)
   | Included l \<Rightarrow> mi_seek_ge ops l u64_max (it_m it)
   | Excluded l \<Rightarrow> mi_seek_ge ops l 0 (it_m it))\<rparr>)"

definition it_seek_to_last :: "'c child_ops \<Rightarrow> 'c scan_iter \<Rightarrow> 'c scan_iter result option" where
  "it_seek_to_last ops it = Option.bind (case it_upper it of
       Unbounded \<Rightarrow> Some (mi_seek_to_last ops (it_m it))
     | Included u \<Rightarrow> Some (mi_seek_le ops u 0 (it_m it))
     | Excluded u \<Rightarrow> mi_seek_lt ops u (it_m it))
   (\<lambda>m. advance_backward ops (it\<lparr>it_m := m\<rparr>))"

definition it_seek :: "'c child_ops \<Rightarrow> bytes \<Rightarrow> 'c scan_iter \<Rightarrow> 'c scan_iter result option" where
  "it_seek ops user_key it = advance_forward ops (it\<lparr>it_m := mi_seek_ge ops user_key u64_max (it_m it)\<rparr>)"

definition it_seek_for_prev :: "'c child_ops \<Rightarrow> bytes \<Rightarrow> 'c scan_iter \<Rightarrow> 'c scan_iter result option" where
  "it_seek_for_prev ops user_key it = advance_backward ops (it\<lparr>it_m := mi_seek_le ops user_key 0 (it_m it)\<rparr>)"

definition it_next :: "'c child_ops \<Rightarrow> 'c scan_iter \<Rightarrow> 'c scan_iter result option" where
  "it_next ops it = advance_forward ops
     (if it_valid it \<and> mi_dir (it_m it) < 0
      then it\<lparr>it_m := mi_seek_ge ops (it_key it) 0 (it_m it)\<rparr> else it)"

definition it_prev :: "'c child_ops \<Rightarrow> 'c scan_iter \<Rightarrow> 'c scan_iter result option" where
  "it_prev ops it = Option.bind
     (if it_valid it \<and> mi_dir (it_m it) > 0
      then map_option (\<lambda>m. it\<lparr>it_m := m\<rparr>) (mi_seek_lt ops (it_key it) (it_m it)) else Some it)
     (advance_backward ops)"

end
