(* ===== verification/Group_Resolve.thy ===== *)
theory Group_Resolve
  imports Scan_Iter
begin

text \<open>
  What the group loops of theory \<open>Scan_Iter\<close> compute: the versions of a key, newest first,
  with one copy per sequence number; the newest visible one, or the fold of the merge
  operands onto their base; and the range deletes that hide it. The loops are folds over the
  versions, forward and backward alike, and they end.
\<close>

section \<open>Range coverage\<close>

definition source_ok :: "(bytes \<Rightarrow> bytes \<Rightarrow> ordering) \<Rightarrow> frag_cursor \<Rightarrow> bool" where
  "source_ok cmp c \<longleftrightarrow> fc_prefix c = None \<and> fc_stop c \<le> length (fc_frags c) \<and> fc_start c \<le> fc_idx c
     \<and> fc_idx c \<le> fc_stop c \<and> frags_wf cmp (fc_frags c)"

definition newer_seq :: "u64 option \<Rightarrow> u64 option \<Rightarrow> u64 option" where
  "newer_seq best s = (case s of None \<Rightarrow> best | Some s \<Rightarrow> Some (case best of None \<Rightarrow> s | Some b \<Rightarrow> max b s))"

text \<open>The newest visible range delete over a key, from the fragments of every source's window.\<close>

definition mask_cover :: "(bytes \<Rightarrow> bytes \<Rightarrow> ordering) \<Rightarrow> fragment list list \<Rightarrow> bytes \<Rightarrow> u64 \<Rightarrow> u64 option" where
  "mask_cover cmp windows key r =
     foldl (\<lambda>best w. newer_seq best (visible_seq (frag_stack cmp w key) r)) None windows"

lemma mask_loop_correct:
  assumes "user_key_order cmp" and "\<forall>c \<in> set srcs. source_ok cmp c"
  shows "\<exists>srcs'. mask_loop cmp key r srcs best = Inr (srcs',
      foldl (\<lambda>best w. newer_seq best (visible_seq (frag_stack cmp w key) r)) best (map fc_window srcs))
    \<and> (\<forall>c \<in> set srcs'. source_ok cmp c) \<and> map fc_window srcs' = map fc_window srcs"
  using assms(2)
proof (induction srcs arbitrary: best)
  case (Cons c srcs)
  then have ok: "frags_wf cmp (fc_frags c)" "fc_prefix c = None" "fc_stop c \<le> length (fc_frags c)"
    "fc_start c \<le> fc_idx c" "fc_idx c \<le> fc_stop c"
    by (simp_all add: source_ok_def)
  from user_key_order.fc_covering_seq_window [OF assms(1) ok] obtain i where
    i: "fc_start c \<le> i" "i \<le> fc_stop c"
      "fc_covering_seq cmp key r c = Inr (c\<lparr>fc_idx := i\<rparr>, visible_seq (frag_stack cmp (fc_window c) key) r)"
    by blast
  obtain srcs' where "mask_loop cmp key r srcs (newer_seq best (visible_seq (frag_stack cmp (fc_window c) key) r)) =
      Inr (srcs', foldl (\<lambda>best w. newer_seq best (visible_seq (frag_stack cmp w key) r))
        (newer_seq best (visible_seq (frag_stack cmp (fc_window c) key) r)) (map fc_window srcs))"
    "\<forall>c \<in> set srcs'. source_ok cmp c" "map fc_window srcs' = map fc_window srcs"
    using Cons.IH Cons.prems by (metis list.set_intros(2))
  moreover have "source_ok cmp (c\<lparr>fc_idx := i\<rparr>)" "fc_window (c\<lparr>fc_idx := i\<rparr>) = fc_window c"
    using ok i(1,2) by (simp_all add: source_ok_def fc_window_def)
  ultimately show ?case
    using i(3) by (intro exI [of _ "c\<lparr>fc_idx := i\<rparr> # srcs'"]) (simp add: newer_seq_def Let_def)
qed simp

lemma mask_covering_correct:
  assumes "user_key_order cmp" and "\<forall>c \<in> set srcs. source_ok cmp c"
  shows "\<exists>srcs'. mask_covering_seq cmp key r srcs = Inr (srcs', mask_cover cmp (map fc_window srcs) key r)
    \<and> (\<forall>c \<in> set srcs'. source_ok cmp c) \<and> map fc_window srcs' = map fc_window srcs"
  using mask_loop_correct [OF assms, of key r None]
  by (cases "srcs = []") (simp_all add: mask_covering_seq_def mask_cover_def)

section \<open>What a key resolves to\<close>

text \<open>The versions of a key, newest first; of equal sequence numbers, the first child's counts.\<close>

definition same_seq :: "entry \<Rightarrow> entry \<Rightarrow> bool" where
  "same_seq a b \<longleftrightarrow> e_seq a = e_seq b"

definition group_of :: "comparator \<Rightarrow> int \<Rightarrow> entry list list \<Rightarrow> bytes \<Rightarrow> entry list" where
  "group_of c d C k = map fst (filter (\<lambda>x. e_key (fst x) = k) (merged c d C))"

definition versions :: "comparator \<Rightarrow> entry list list \<Rightarrow> bytes \<Rightarrow> entry list" where
  "versions c C k = dedup_by same_seq (group_of c 1 C k)"

definition entry_dead :: "i64 \<Rightarrow> entry \<Rightarrow> bool" where
  "entry_dead now e \<longleftrightarrow> entry_tombstone e \<or> expired (e_ttl e) now"

definition newest_value :: "i64 \<Rightarrow> u64 option \<Rightarrow> entry list \<Rightarrow> bytes option" where
  "newest_value now cover vs = (case vs of
     [] \<Rightarrow> None
   | e # _ \<Rightarrow> if entry_dead now e \<or> (case cover of Some s \<Rightarrow> s > e_seq e | None \<Rightarrow> False)
       then None else Some (e_value e))"

definition cut_by :: "u64 option \<Rightarrow> entry \<Rightarrow> bool" where
  "cut_by cover e \<longleftrightarrow> (case cover of Some s \<Rightarrow> e_seq e \<le> s | None \<Rightarrow> False)"

definition live_base :: "i64 \<Rightarrow> u64 option \<Rightarrow> entry list \<Rightarrow> bytes option" where
  "live_base now cover vs = (case vs of
     [] \<Rightarrow> None
   | e # _ \<Rightarrow> if entry_dead now e \<or> cut_by cover e then None else Some (e_value e))"

definition resolve_versions :: "merge_operator option \<Rightarrow> u64 \<Rightarrow> i64 \<Rightarrow> u64 option \<Rightarrow> bytes \<Rightarrow> entry list
    \<Rightarrow> bytes option result" where
  "resolve_versions mop read_seq now cover k vs =
     (let vis = filter (\<lambda>e. e_seq e \<le> read_seq) vs in
      case mop of
        None \<Rightarrow> Inr (newest_value now cover vis)
      | Some f \<Rightarrow>
          let chain = takeWhile entry_is_merge vis;
              base = dropWhile entry_is_merge vis;
              live = filter (\<lambda>e. \<not> cut_by cover e) chain
          in if live = [] then Inr (newest_value now cover base)
             else case f k (live_base now cover base) (rev (map e_value live)) of
               Inl e \<Rightarrow> Inl (Corruption ''merge operator failed'')
             | Inr v \<Rightarrow> Inr (Some v))"

section \<open>The two directions see the same versions\<close>

lemma dedup_first:
  assumes "sorted_wrt (\<lambda>a b. le (f a) (f b)) L" and "\<And>a b. le a b \<Longrightarrow> le b a \<Longrightarrow> a = b"
  shows "sorted_wrt (\<lambda>a b. le (f a) (f b) \<and> f a \<noteq> f b) (dedup_by (\<lambda>a b. f a = f b) L)"
    and "set (dedup_by (\<lambda>a b. f a = f b) L) = {x. find (\<lambda>y. f y = f x) L = Some x}"
proof -
  let ?same = "\<lambda>a b. f a = f b"
  have "sorted_wrt (\<lambda>a b. le (f a) (f b) \<and> f a \<noteq> f b) (dedup_by ?same L)
    \<and> set (dedup_by ?same L) = {x. find (\<lambda>y. f y = f x) L = Some x}"
    using assms(1)
  proof (induction ?same L rule: dedup_by.induct)
    case (2 x)
    then show ?case by auto
  next
    case (3 x y ys)
    show ?case
    proof (cases "f y = f x")
      case True
      then have "sorted_wrt (\<lambda>a b. le (f a) (f b)) (x # ys)" using "3.prems" by simp
      with 3 True show ?thesis by auto
    next
      case False
      let ?D = "dedup_by ?same (y # ys)"
      have ih: "sorted_wrt (\<lambda>a b. le (f a) (f b) \<and> f a \<noteq> f b) ?D"
        "set ?D = {x. find (\<lambda>y. f y = f x) (y # ys) = Some x}"
        using 3 False by simp_all
      have "f z \<noteq> f x" if "z \<in> set (y # ys)" for z
      proof
        assume "f z = f x"
        with that "3.prems" have "le (f y) (f x)" using False by auto
        moreover have "le (f x) (f y)" using "3.prems" by simp
        ultimately show False using assms(2) False by blast
      qed
      then have ne: "\<forall>z \<in> set ?D. f z \<noteq> f x \<and> le (f x) (f z)"
        using "3.prems" find_Some_in unfolding ih(2) by fastforce
      have "set (x # ?D) = {z. find (\<lambda>y. f y = f z) (x # y # ys) = Some z}"
      proof (rule set_eqI)
        fix z
        show "z \<in> set (x # ?D) \<longleftrightarrow> z \<in> {z. find (\<lambda>y. f y = f z) (x # y # ys) = Some z}"
        proof (cases "f x = f z")
          case True
          with ne have "z \<notin> set ?D" by metis
          with True show ?thesis by (auto simp del: find.simps(2)) auto
        next
          case False
          then have "find (\<lambda>y. f y = f z) (x # y # ys) = find (\<lambda>y. f y = f z) (y # ys)" by simp
          with False show ?thesis unfolding list.set ih(2) by auto
        qed
      qed
      moreover have "sorted_wrt (\<lambda>a b. le (f a) (f b) \<and> f a \<noteq> f b) (x # ?D)"
        using ih(1) ne by auto
      ultimately show ?thesis using False by simp
    qed
  qed simp
  then show "sorted_wrt (\<lambda>a b. le (f a) (f b) \<and> f a \<noteq> f b) (dedup_by ?same L)"
    "set (dedup_by ?same L) = {x. find (\<lambda>y. f y = f x) L = Some x}" by blast+
qed

lemma group_sorted:
  assumes c: "user_key_order (compare c)" and C: "\<forall>L \<in> set C. in_order c L"
  shows "sorted_wrt (\<lambda>a b. e_seq b \<le> e_seq a) (group_of c 1 C k)"
    and "sorted_wrt (\<lambda>a b. e_seq a \<le> e_seq b) (group_of c (- 1) C k)"
proof -
  have eq: "compare c k k = Equal" for k
    by (simp add: key_order.cmp_Equal [OF user_key_order.axioms [OF c]])
  have "in_walk_order c d (filter (\<lambda>x. e_key (fst x) = k) (merged c d C))" for d
    by (rule sorted_wrt_filter [OF sorted_merged [OF c C]])
  then have s: "sorted_wrt (\<lambda>x y. e_key (fst x) = k \<and> e_key (fst y) = k \<and> is_lt (walk_cmp c d (item_key x) (item_key y)))
      (filter (\<lambda>x. e_key (fst x) = k) (merged c d C))" for d
    by (rule sorted_wrt_mono_rel [rotated]) auto
  show "sorted_wrt (\<lambda>a b. e_seq b \<le> e_seq a) (group_of c 1 C k)"
    unfolding group_of_def sorted_wrt_map using s [of 1]
    by (rule sorted_wrt_mono_rel [rotated])
       (auto simp: walk_cmp_def item_key_def dir_cmp_def ikey_cmp_eq entry_ikey_def eq then_with_def ord_cmp_def
         split: if_splits)
  show "sorted_wrt (\<lambda>a b. e_seq a \<le> e_seq b) (group_of c (- 1) C k)"
    unfolding group_of_def sorted_wrt_map using s [of "- 1"]
    by (rule sorted_wrt_mono_rel [rotated])
       (auto simp: walk_cmp_def item_key_def dir_cmp_def ikey_cmp_eq entry_ikey_def eq then_with_def ord_cmp_def
         split: if_splits)
qed

lemma group_copies:
  assumes c: "user_key_order (compare c)" and C: "\<forall>L \<in> set C. in_order c L"
  shows "find (\<lambda>e. e_seq e = q) (group_of c (- 1) C k) = find (\<lambda>e. e_seq e = q) (group_of c 1 C k)"
proof -
  let ?P = "\<lambda>x :: item. e_key (fst x) = k \<and> e_seq (fst x) = q"
  have "filter ?P (merged c (- 1) C) = filter ?P (merged c 1 C)"
  proof (rule key_order.sorted_on_unique [OF key_order_walk_cmp [OF c], where f = item_key])
    show "in_walk_order c 1 (filter ?P (merged c 1 C))"
      by (rule sorted_wrt_filter [OF sorted_merged [OF c C]])
    have "in_walk_order c (- 1) (filter ?P (merged c (- 1) C))"
      by (rule sorted_wrt_filter [OF sorted_merged [OF c C]])
    then show "in_walk_order c 1 (filter ?P (merged c (- 1) C))"
      by (rule sorted_wrt_mono_rel [rotated])
         (auto simp: walk_cmp_def item_key_def dir_cmp_def entry_ikey_def key_order.cmp_Equal [OF key_order_ikey_cmp [OF c]])
    show "set (filter ?P (merged c (- 1) C)) = set (filter ?P (merged c 1 C))" by (simp add: set_merged)
  qed
  then have "filter (\<lambda>e. e_seq e = q) (group_of c (- 1) C k) = filter (\<lambda>e. e_seq e = q) (group_of c 1 C k)"
    by (simp add: group_of_def filter_map comp_def conj_commute)
  then show ?thesis by (simp add: find_filter)
qed

lemma versions_sorted:
  assumes c: "user_key_order (compare c)" and C: "\<forall>L \<in> set C. in_order c L"
  shows "sorted_wrt (\<lambda>a b. e_seq b < e_seq a) (versions c C k)"
    and "dedup_by same_seq (group_of c (- 1) C k) = rev (versions c C k)"
proof -
  note g = group_sorted [OF c C, of k]
  have same: "same_seq = (\<lambda>a b. e_seq a = e_seq b)" by (simp add: same_seq_def fun_eq_iff)
  note f = dedup_first [of "\<lambda>a b. b \<le> a" e_seq, OF g(1), folded same]
    and b = dedup_first [of "\<lambda>a b. a \<le> b" e_seq, OF g(2), folded same]
  show fs: "sorted_wrt (\<lambda>a b. e_seq b < e_seq a) (versions c C k)"
    using f(1) unfolding versions_def by (rule sorted_wrt_mono_rel [rotated]) auto
  show "dedup_by same_seq (group_of c (- 1) C k) = rev (versions c C k)"
  proof (rule key_order.sorted_on_unique [OF key_order_ord_cmp, where f = e_seq])
    show "sorted_wrt (\<lambda>a b. is_lt (ord_cmp (e_seq a) (e_seq b))) (dedup_by same_seq (group_of c (- 1) C k))"
      using b(1) by (rule sorted_wrt_mono_rel [rotated]) (auto simp: ord_cmp_def)
    show "sorted_wrt (\<lambda>a b. is_lt (ord_cmp (e_seq a) (e_seq b))) (rev (versions c C k))"
      using fs unfolding sorted_wrt_rev by (rule sorted_wrt_mono_rel [rotated]) (auto simp: ord_cmp_def)
    show "set (dedup_by same_seq (group_of c (- 1) C k)) = set (rev (versions c C k))"
      using f(2) b(2) by (simp add: versions_def group_copies [OF c C])
  qed
qed

section \<open>The group loops as folds over the versions\<close>

definition picks :: "u64 \<Rightarrow> entry option \<Rightarrow> entry \<Rightarrow> bool" where
  "picks rs best e \<longleftrightarrow> e_seq e \<le> rs \<and> (case best of Some b \<Rightarrow> e_seq b < e_seq e | None \<Rightarrow> True)"

definition pick :: "u64 \<Rightarrow> entry option \<Rightarrow> entry \<Rightarrow> entry option" where
  "pick rs best e = (if picks rs best e then Some e else best)"

type_synonym merge_state = "entry option \<times> u64 option \<times> entry list"

definition mpick :: "bool \<Rightarrow> u64 \<Rightarrow> merge_state \<Rightarrow> entry \<Rightarrow> merge_state" where
  "mpick forward rs st e = (case st of (best, last_seq, os) \<Rightarrow>
     if last_seq = Some (e_seq e) then st
     else if entry_is_merge e
     then (best, Some (e_seq e), if e_seq e \<le> rs \<and> \<not> (forward \<and> best \<noteq> None) then os @ [e] else os)
     else if picks rs best e then (Some e, Some (e_seq e), if forward then os else [])
     else (best, Some (e_seq e), os))"

lemma pick_dedup: "foldl (pick rs) best (dedup_by same_seq G) = foldl (pick rs) best G"
proof (induction same_seq G arbitrary: best rule: dedup_by.induct)
  case (3 x y ys)
  have "pick rs (pick rs best x) y = pick rs best x" if "same_seq y x"
    using that by (auto simp: pick_def picks_def same_seq_def split: option.splits)
  with 3 show ?case by (cases "same_seq y x") simp_all
qed simp_all

lemma mpick_dedup: "foldl (mpick forward rs) st (dedup_by same_seq G) = foldl (mpick forward rs) st G"
proof (induction same_seq G arbitrary: st rule: dedup_by.induct)
  case (3 x y ys)
  have "mpick forward rs (mpick forward rs st x) y = mpick forward rs st x" if "same_seq y x"
    using that by (cases st) (auto simp: mpick_def same_seq_def)
  with 3 show ?case by (cases "same_seq y x") simp_all
qed simp_all

abbreviation newest_first :: "entry list \<Rightarrow> bool" where
  "newest_first D \<equiv> sorted_wrt (\<lambda>a b. e_seq b < e_seq a) D"

definition first_of :: "'a list \<Rightarrow> 'a option" where
  "first_of xs = (case xs of [] \<Rightarrow> None | x # _ \<Rightarrow> Some x)"

definition chain_of :: "u64 \<Rightarrow> entry list \<Rightarrow> entry list" where
  "chain_of rs D = takeWhile entry_is_merge (filter (\<lambda>e. e_seq e \<le> rs) D)"

definition base_of :: "u64 \<Rightarrow> entry list \<Rightarrow> entry list" where
  "base_of rs D = dropWhile entry_is_merge (filter (\<lambda>e. e_seq e \<le> rs) D)"

lemma first_of_simps [simp]: "first_of [] = None" "first_of (x # xs) = Some x"
  by (simp_all add: first_of_def)

lemma first_of_in: "first_of xs = Some x \<Longrightarrow> x \<in> set xs"
  by (cases xs) auto

lemma chain_of_simps:
  "chain_of rs [] = []" "base_of rs [] = []"
  "chain_of rs (e # D) = (if e_seq e \<le> rs then if entry_is_merge e then e # chain_of rs D else [] else chain_of rs D)"
  "base_of rs (e # D) = (if e_seq e \<le> rs then if entry_is_merge e then base_of rs D
     else e # filter (\<lambda>e. e_seq e \<le> rs) D else base_of rs D)"
  by (simp_all add: chain_of_def base_of_def)

lemma base_in: "first_of (base_of rs D) = Some b \<Longrightarrow> b \<in> set D"
  by (auto simp: base_of_def dest!: first_of_in set_dropWhileD)

lemma pick_done: "\<forall>x \<in> set D. e_seq x < e_seq b \<Longrightarrow> foldl (pick rs) (Some b) D = Some b"
  by (induction D) (auto simp: pick_def picks_def)

lemma pick_forward:
  "newest_first D \<Longrightarrow> foldl (pick rs) None D = first_of (filter (\<lambda>e. e_seq e \<le> rs) D)"
  by (induction D) (auto simp: pick_def picks_def pick_done)

lemma pick_backward:
  assumes "newest_first D"
  shows "foldl (pick rs) None (rev D) = first_of (filter (\<lambda>e. e_seq e \<le> rs) D)"
  using assms
proof (induction D)
  case (Cons x D)
  have "e_seq b < e_seq x" if "first_of (filter (\<lambda>e. e_seq e \<le> rs) D) = Some b" for b
    using first_of_in [OF that] Cons.prems by simp
  with Cons show ?case by (auto simp: pick_def picks_def split: option.splits)
qed simp

lemma mpick_done:
  assumes "\<forall>x \<in> set D. e_seq x < e_seq b"
  shows "\<exists>l. foldl (mpick True rs) (Some b, last_seq, os) D = (Some b, l, os)"
  using assms by (induction D arbitrary: last_seq) (auto simp: mpick_def picks_def)

lemma mpick_forward:
  assumes "newest_first D" and "\<forall>x \<in> set D. last_seq \<noteq> Some (e_seq x)"
  shows "\<exists>l. foldl (mpick True rs) (None, last_seq, os) D = (first_of (base_of rs D), l, os @ chain_of rs D)"
  using assms
proof (induction D arbitrary: last_seq os)
  case (Cons x D)
  then have D: "newest_first D" "\<forall>y \<in> set D. Some (e_seq x) \<noteq> Some (e_seq y)" "\<forall>y \<in> set D. e_seq y < e_seq x"
    by auto
  show ?case
  proof (cases "e_seq x \<le> rs \<and> \<not> entry_is_merge x")
    case True
    then have "mpick True rs (None, last_seq, os) x = (Some x, Some (e_seq x), os)"
      using Cons.prems(2) by (simp add: mpick_def picks_def)
    with True show ?thesis
      using mpick_done [OF D(3), of rs "Some (e_seq x)" os] by (simp add: chain_of_simps)
  next
    case False
    then have "mpick True rs (None, last_seq, os) x = (None, Some (e_seq x), if e_seq x \<le> rs then os @ [x] else os)"
      using Cons.prems(2) by (auto simp: mpick_def picks_def)
    with False show ?thesis
      using Cons.IH [OF D(1,2), of "if e_seq x \<le> rs then os @ [x] else os"]
      by (cases "e_seq x \<le> rs") (simp_all add: chain_of_simps)
  qed
qed (simp add: chain_of_simps)

lemma mpick_backward:
  assumes "newest_first D"
  shows "foldl (mpick False rs) (None, None, []) (rev D) =
    (first_of (base_of rs D), map_option e_seq (first_of D), rev (chain_of rs D))"
  using assms
proof (induction D)
  case (Cons x D)
  then have lt: "\<forall>y \<in> set D. e_seq y < e_seq x" by simp
  have "map_option e_seq (first_of D) \<noteq> Some (e_seq x)"
    using lt by (cases D) auto
  moreover have "picks rs (first_of (base_of rs D)) x \<longleftrightarrow> e_seq x \<le> rs"
    using base_in [of rs D] lt by (auto simp: picks_def split: option.splits)
  ultimately show ?case using Cons by (auto simp: mpick_def chain_of_simps)
qed (simp add: chain_of_simps)

section \<open>Draining a group\<close>

text \<open>What a pass over a group leaves alone.\<close>

definition loop_frame :: "'c scan_iter \<Rightarrow> 'c scan_iter \<Rightarrow> bool" where
  "loop_frame it it' \<longleftrightarrow> it_read_seq it' = it_read_seq it \<and> it_now it' = it_now it \<and> it_key it' = it_key it
     \<and> it_valid it' = it_valid it \<and> it_err it' = it_err it \<and> it_lower it' = it_lower it
     \<and> it_upper it' = it_upper it \<and> it_mask it' = it_mask it \<and> it_merge_op it' = it_merge_op it
     \<and> mi_dir (it_m it') = mi_dir (it_m it) \<and> mi_cmp (it_m it') = mi_cmp (it_m it)"

lemma loop_frame_refl [simp]: "loop_frame it it"
  by (simp add: loop_frame_def)

lemma loop_frame_trans: "loop_frame a b \<Longrightarrow> loop_frame b c \<Longrightarrow> loop_frame a c"
  by (simp add: loop_frame_def)

lemma step_merge_frame: "loop_frame it (step_merge ops forward it)"
  using advance_fields(2,3) [of "it_m it" ops forward] advance_empty [of "it_m it" ops forward]
  by (cases "mi_heap (it_m it) = []") (simp_all add: loop_frame_def step_merge_def)

abbreviation in_group :: "bytes \<Rightarrow> item \<Rightarrow> bool" where
  "in_group k x \<equiv> e_key (fst x) = k"

context child_source
begin

lemma top_in_group_iff:
  assumes "mi_cmp (it_m it) = c"
  shows "top_in_group ops it \<longleftrightarrow> mi_heap (it_m it) \<noteq> [] \<and> ch_user_key ops (mi_top (it_m it)) = it_key it"
  using key_eq_test [of "ch_user_key ops (mi_top (it_m it))" "it_key it"] assms
  by (auto simp: top_in_group_def mi_valid_def Let_def mi_key_cmp_def split: if_splits)

lemma wf_top:
  assumes "wf C m" and "mi_heap m \<noteq> []"
  shows "ok (mi_top m)" and "cur (mi_top m) \<noteq> None"
proof -
  have "mi_heap m ! 0 \<in> set (mi_heap m)" using assms(2) by simp
  then have "ch_valid ops (mi_top m)" and ok: "ok (mi_top m)"
    using assms(1) by (simp_all add: merge_wf_def mi_top_def mi_top_idx_def)
  then show "ok (mi_top m)" "cur (mi_top m) \<noteq> None" using valid_iff [OF ok] by simp_all
qed

lemma group_loop_correct:
  fixes rel :: "'c scan_iter \<Rightarrow> 's \<Rightarrow> 'p \<Rightarrow> bool" and f :: "'p \<Rightarrow> entry \<Rightarrow> 'p"
  assumes step: "\<And>it s p e it' r. ok (mi_top (it_m it)) \<Longrightarrow> cur (mi_top (it_m it)) = Some e \<Longrightarrow>
      it_read_seq it = rs \<Longrightarrow> rel it s p \<Longrightarrow> step it s = (it', r) \<Longrightarrow>
      loop_frame it it' \<and> it_m it' = it_m it \<and> (\<forall>s'. r = Inr s' \<longrightarrow> rel it' s' (f p e))"
    and rel_m: "\<And>it s p m. rel (it\<lparr>it_m := m\<rparr>) s p = rel it s p"
    and "wf C (it_m it)" and "forward = (mi_dir (it_m it) > 0)" and "it_read_seq it = rs" and "rel it s p"
    and "mi_err (it_m it) = None \<Longrightarrow> at C rem (it_m it)"
  shows "\<exists>it' r. group_loop ops forward step it s = Some (it', r) \<and> loop_frame it it' \<and> wf C (it_m it')
    \<and> merge_left c forward cur contents (it_m it') \<le> merge_left c forward cur contents (it_m it)
    \<and> (mi_err (it_m it') = None \<longrightarrow> mi_err (it_m it) = None)
    \<and> (\<forall>s'. r = Inr s' \<longrightarrow>
         (top_in_group ops it \<longrightarrow> merge_left c forward cur contents (it_m it') < merge_left c forward cur contents (it_m it))
         \<and> (mi_err (it_m it') = None \<longrightarrow> at C (dropWhile (in_group (it_key it)) rem) (it_m it')
            \<and> rel it' s' (foldl f p (map fst (takeWhile (in_group (it_key it)) rem)))))"
  using assms(3-7)
proof (induction "merge_left c forward cur contents (it_m it)" arbitrary: it s p rem rule: less_induct)
  case less
  let ?m = "it_m it" and ?k = "it_key it"
  let ?left = "\<lambda>m. merge_left c forward cur contents m"
  have cmp: "mi_cmp ?m = c" using less.prems(1) by (simp add: merge_wf_def)
  note loop = group_loop.simps [of ops forward step it s]
  show ?case
  proof (cases "top_in_group ops it")
    case False
    have "takeWhile (in_group ?k) rem = [] \<and> dropWhile (in_group ?k) rem = rem" if "mi_err ?m = None"
    proof (cases rem)
      case (Cons x xs)
      note top = walk_top [OF less.prems(1) less.prems(5) [OF that, unfolded Cons]]
      have "e_key (fst x) \<noteq> ?k"
        using False top(1) reads [OF wf_top(1) [OF less.prems(1) top(1)] top(3)] top_in_group_iff [OF cmp] by simp
      then show ?thesis by (simp add: Cons)
    qed simp
    with False less.prems show ?thesis unfolding loop by auto
  next
    case True
    then have ne: "mi_heap ?m \<noteq> []" and key: "ch_user_key ops (mi_top ?m) = ?k"
      using top_in_group_iff [OF cmp] by simp_all
    note okt = wf_top(1) [OF less.prems(1) ne]
    obtain e where e: "cur (mi_top ?m) = Some e" using wf_top(2) [OF less.prems(1) ne] by blast
    obtain it1 r1 where st: "step it s = (it1, r1)" by fastforce
    note st1 = step [OF okt e less.prems(3,4) st]
    show ?thesis
    proof (cases r1)
      case (Inl err)
      then show ?thesis using st st1 True less.prems(1) unfolding loop by auto
    next
      case (Inr s1)
      define it2 where "it2 = step_merge ops forward it1"
      have it2: "it_m it2 = mi_advance ops forward ?m" "it_key it2 = ?k" "it_read_seq it2 = rs" "loop_frame it it2"
        "rel it2 s1 (f p e)" "forward = (mi_dir (it_m it2) > 0)"
        using st1 Inr less.prems(2,3) step_merge_frame [of it1 ops forward] loop_frame_trans
        by (simp_all add: it2_def step_merge_def rel_m loop_frame_def)
      have lt: "?left (it_m it2) < ?left ?m" unfolding it2(1) by (rule advance_left [OF less.prems(1) ne])
      have wf2: "wf C (it_m it2)" unfolding it2(1) by (rule advance_wf [OF less.prems(1)])
      have walk: "mi_err ?m = None \<and> (\<exists>x xs. rem = x # xs \<and> fst x = e \<and> in_group ?k x \<and> at C xs (it_m it2))"
        if err: "mi_err (it_m it2) = None"
      proof -
        have e0: "mi_err ?m = None" using err advance_err unfolding it2(1) by blast
        then have "rem \<noteq> []" using less.prems(1,5) ne walk_end by blast
        then obtain x xs where rem: "rem = x # xs" by (cases rem) auto
        note w = less.prems(5) [OF e0, unfolded rem]
        have "fst x = e" using walk_top(3) [OF less.prems(1) w] e by simp
        moreover have "at C xs (it_m it2)"
          using advance_walk [OF less.prems(1) w] err less.prems(2) unfolding it2(1) by simp
        ultimately show ?thesis using rem e0 reads [OF okt e] key by auto
      qed
      have at2: "mi_err (it_m it2) = None \<Longrightarrow> at C (tl rem) (it_m it2)" using walk by fastforce
      obtain it' r where ih: "group_loop ops forward step it2 s1 = Some (it', r)" "loop_frame it2 it'" "wf C (it_m it')"
        "?left (it_m it') \<le> ?left (it_m it2)" "mi_err (it_m it') = None \<longrightarrow> mi_err (it_m it2) = None"
        "\<forall>s'. r = Inr s' \<longrightarrow> mi_err (it_m it') = None \<longrightarrow> at C (dropWhile (in_group ?k) (tl rem)) (it_m it')
           \<and> rel it' s' (foldl f (f p e) (map fst (takeWhile (in_group ?k) (tl rem))))"
        using less.hyps [OF lt wf2 it2(6,3,5) at2] it2(2) by auto
      have "group_loop ops forward step it s = Some (it', r)"
        unfolding loop using True st Inr ih(1) by (simp add: it2_def)
      moreover have "at C (dropWhile (in_group ?k) rem) (it_m it')
           \<and> rel it' s' (foldl f p (map fst (takeWhile (in_group ?k) rem)))"
        if "r = Inr s'" "mi_err (it_m it') = None" for s'
        using ih(5,6) that walk by fastforce
      ultimately show ?thesis
        using ih(2-5) lt it2(4) loop_frame_trans walk by (intro exI [of _ it'] exI [of _ r]) fastforce
    qed
  qed
qed

end

section \<open>Resolving a group\<close>

definition vv_of :: "entry option \<Rightarrow> visible_version" where
  "vv_of best = (case best of None \<Rightarrow> vv_default
     | Some e \<Rightarrow> \<lparr>vv_found = True, vv_seq = e_seq e, vv_tombstone = entry_tombstone e, vv_ttl = e_ttl e, vv_merged = False\<rparr>)"

definition best_value :: "entry option \<Rightarrow> bytes" where
  "best_value best = (case best of None \<Rightarrow> [] | Some e \<Rightarrow> if entry_tombstone e then [] else e_value e)"

definition plain_rel :: "'c scan_iter \<Rightarrow> visible_version \<Rightarrow> entry option \<Rightarrow> bool" where
  "plain_rel it v best \<longleftrightarrow> v = vv_of best \<and> it_value it = best_value best"

definition operands_hold :: "'c scan_iter \<Rightarrow> entry list \<Rightarrow> bool" where
  "operands_hold it os \<longleftrightarrow>
     map (\<lambda>s. (span_slice (it_operands it) s, span_seq s)) (it_operand_spans it) = map (\<lambda>e. (e_value e, e_seq e)) os
     \<and> (\<forall>(start, len, _) \<in> set (it_operand_spans it). start + len \<le> length (it_operands it))"

definition merging_rel :: "'c scan_iter \<Rightarrow> visible_version \<times> u64 option \<Rightarrow> merge_state \<Rightarrow> bool" where
  "merging_rel it s p \<longleftrightarrow> (case (s, p) of ((v, l), (best, l', os)) \<Rightarrow> plain_rel it v best \<and> l = l' \<and> operands_hold it os)"

lemma it_value_update [simp]:
  "it_value (it\<lparr>it_m := m\<rparr>) = it_value it" "it_value (it\<lparr>it_operands := os\<rparr>) = it_value it"
  "it_value (it\<lparr>it_operand_spans := ss\<rparr>) = it_value it" "it_value (it\<lparr>it_mask := ms\<rparr>) = it_value it"
  "it_value (it\<lparr>it_key := k\<rparr>) = it_value it" "it_value (it\<lparr>it_cur_val := CEmpty\<rparr>) = []"
  by (simp_all add: it_value_def split: cur_val.split)

lemma consider_pick:
  "vv_consider (e_seq e) (entry_tombstone e) (e_ttl e) rs (vv_of best) =
     (if picks rs best e then (if entry_tombstone e then DTombstone else DValue, vv_of (Some e)) else (Ignore, vv_of best))"
  by (auto simp: vv_consider_def picks_def vv_of_def vv_default_def split: option.splits)

lemma operands_clear: "operands_hold (clear_operands it) []"
  by (simp add: operands_hold_def clear_operands_def)

lemma operands_cong:
  "it_operands it' = it_operands it \<Longrightarrow> it_operand_spans it' = it_operand_spans it \<Longrightarrow>
    operands_hold it' os = operands_hold it os"
  by (simp add: operands_hold_def)

lemma operands_push:
  assumes "operands_hold it os"
  shows "operands_hold (it\<lparr>it_operands := it_operands it @ e_value e,
    it_operand_spans := it_operand_spans it @ [(length (it_operands it), length (e_value e), e_seq e)]\<rparr>) (os @ [e])"
proof -
  have "span_slice (it_operands it @ e_value e) s = span_slice (it_operands it) s" if "s \<in> set (it_operand_spans it)" for s
    using that assms by (auto simp: operands_hold_def span_slice_def)
  then have "map (\<lambda>s. (span_slice (it_operands it @ e_value e) s, span_seq s)) (it_operand_spans it) =
      map (\<lambda>s. (span_slice (it_operands it) s, span_seq s)) (it_operand_spans it)"
    by simp
  with assms show ?thesis
    by (auto simp: operands_hold_def span_slice_def span_seq_def)
qed

context child_source
begin

lemma capture_value_reads:
  assumes "ok (mi_top (it_m it))" and "cur (mi_top (it_m it)) = Some e" and "capture_value ops it = (it', r)"
  shows "loop_frame it it' \<and> it_m it' = it_m it \<and> it_operands it' = it_operands it
    \<and> it_operand_spans it' = it_operand_spans it \<and> (r = Inr () \<longrightarrow> it_value it' = e_value e)"
  using assms(3) reads_value [OF assms(1,2)] reads_block [OF assms(1,2)]
  by (auto simp: capture_value_def Let_def it_value_def loop_frame_def split: option.splits sum.splits)

lemma plain_step_rel:
  assumes "ok (mi_top (it_m it))" and "cur (mi_top (it_m it)) = Some e" and "it_read_seq it = rs"
    and "plain_rel it v best" and "plain_step ops it v = (it', r)"
  shows "loop_frame it it' \<and> it_m it' = it_m it \<and> (\<forall>v'. r = Inr v' \<longrightarrow> plain_rel it' v' (pick rs best e))"
proof -
  have v: "v = vv_of best" "it_value it = best_value best" using assms(4) by (simp_all add: plain_rel_def)
  obtain it1 r1 where cv: "capture_value ops it = (it1, r1)" by fastforce
  note cap = capture_value_reads [OF assms(1,2) cv]
  show ?thesis
    using assms(3,5) reads [OF assms(1,2)] v cap cv
    by (auto simp: plain_step_def Let_def consider_pick plain_rel_def pick_def best_value_def loop_frame_def
        map_sum_def split: if_splits sum.splits prod.splits)
qed

lemma merging_step_rel:
  assumes "ok (mi_top (it_m it))" and "cur (mi_top (it_m it)) = Some e" and "it_read_seq it = rs"
    and "merging_rel it s p" and "merging_step ops forward it s = (it', r)"
  shows "loop_frame it it' \<and> it_m it' = it_m it \<and> (\<forall>s'. r = Inr s' \<longrightarrow> merging_rel it' s' (mpick forward rs p e))"
proof -
  obtain v l best os where s: "s = (v, l)" "p = (best, l, os)" and pr: "plain_rel it v best" and oh: "operands_hold it os"
    using assms(4) by (cases s; cases p) (auto simp: merging_rel_def)
  have v: "v = vv_of best" "it_value it = best_value best" using pr by (simp_all add: plain_rel_def)
  have found: "vv_found v \<longleftrightarrow> best \<noteq> None" by (auto simp: v vv_of_def vv_default_def split: option.splits)
  note rd = reads [OF assms(1,2)]
  obtain it1 r1 where cv: "capture_value ops it = (it1, r1)" by fastforce
  note cap = capture_value_reads [OF assms(1,2) cv]
  show ?thesis
  proof (cases "l = Some (e_seq e)")
    case True
    then show ?thesis using assms(4,5) rd s by (auto simp: merging_step_def Let_def mpick_def)
  next
    case new: False
    show ?thesis
    proof (cases "entry_is_merge e")
      case True
      have push: "push_operand ops (e_seq e) it = (case ch_value_into ops (mi_top (it_m it)) of Inl x \<Rightarrow> (it, Inl x)
          | Inr _ \<Rightarrow> (it\<lparr>it_operands := it_operands it @ e_value e,
              it_operand_spans := it_operand_spans it @ [(length (it_operands it), length (e_value e), e_seq e)]\<rparr>, Inr ()))"
        using reads_value [OF assms(1,2)] by (auto simp: push_operand_def split: sum.splits)
      show ?thesis
        using assms(3,5) rd s True new found push operands_push [OF oh, of e] oh v
        by (auto simp: merging_step_def Let_def mpick_def merging_rel_def plain_rel_def entry_is_merge_def
            loop_frame_def map_sum_def split: if_splits sum.splits)
    next
      case False
      then show ?thesis
        using assms(3,5) rd s new oh v cap cv operands_clear operands_cong [of _ it os]
        by (auto simp: merging_step_def Let_def mpick_def merging_rel_def plain_rel_def entry_is_merge_def consider_pick
            loop_frame_def best_value_def clear_operands_def operands_hold_def
            split: if_splits sum.splits)
    qed
  qed
qed

end

definition hidden_by :: "u64 option \<Rightarrow> visible_version \<Rightarrow> bool" where
  "hidden_by cover v \<longleftrightarrow> (case cover of Some s \<Rightarrow> s > vv_seq v | None \<Rightarrow> False)"

definition outcome :: "i64 \<Rightarrow> u64 option \<Rightarrow> visible_version \<Rightarrow> bytes \<Rightarrow> bytes option" where
  "outcome now cover v val = (if vv_is_live now v \<and> \<not> hidden_by cover v then Some val else None)"

lemma outcome_newest:
  "outcome now cover (vv_of (first_of vs)) (best_value (first_of vs)) = newest_value now cover vs"
  by (cases vs) (auto simp: outcome_def hidden_by_def vv_of_def vv_default_def vv_is_live_def best_value_def
      newest_value_def entry_dead_def split: option.splits)

lemma existing_live_base:
  assumes "plain_rel it v (first_of base)"
  shows "existing_base v cover it = live_base (it_now it) cover base"
  using assms by (cases base) (auto simp: plain_rel_def existing_base_def live_base_def vv_of_def vv_default_def
      best_value_def entry_dead_def cut_by_def split: option.splits)

definition cut_spans :: "u64 option \<Rightarrow> 'c scan_iter \<Rightarrow> 'c scan_iter" where
  "cut_spans cover it = (case cover of
     Some c \<Rightarrow> it\<lparr>it_operand_spans := filter (\<lambda>s. span_seq s > c) (it_operand_spans it)\<rparr> | None \<Rightarrow> it)"

lemma filter_map_pairs:
  assumes "map g xs = map h ys"
  shows "map g (filter (\<lambda>x. P (g x)) xs) = map h (filter (\<lambda>y. P (h y)) ys)"
  using arg_cong [OF assms, of "filter P"] by (simp add: filter_map comp_def)

lemma operands_cut:
  assumes "operands_hold it os"
  shows "operands_hold (cut_spans cover it) (filter (\<lambda>e. \<not> cut_by cover e) os)"
proof (cases cover)
  case (Some s)
  have "map (\<lambda>s. (span_slice (it_operands it) s, span_seq s)) (it_operand_spans it) = map (\<lambda>e. (e_value e, e_seq e)) os"
    using assms by (simp add: operands_hold_def)
  from filter_map_pairs [OF this, of "\<lambda>(_, q). s < q"] assms show ?thesis
    by (auto simp: Some operands_hold_def cut_spans_def cut_by_def not_le)
qed (use assms in \<open>simp add: cut_spans_def cut_by_def\<close>)

lemma operands_read:
  assumes "operands_hold it os"
  shows "map (span_slice (it_operands it)) (it_operand_spans it) = map e_value os"
    and "map span_seq (it_operand_spans it) = map e_seq os"
    and "it_operand_spans it = [] \<longleftrightarrow> os = []"
proof -
  have h: "map (\<lambda>s. (span_slice (it_operands it) s, span_seq s)) (it_operand_spans it) = map (\<lambda>e. (e_value e, e_seq e)) os"
    using assms by (simp add: operands_hold_def)
  from arg_cong [OF h, of "map fst"] show "map (span_slice (it_operands it)) (it_operand_spans it) = map e_value os"
    by (simp add: comp_def)
  from arg_cong [OF h, of "map snd"] show "map span_seq (it_operand_spans it) = map e_seq os" by (simp add: comp_def)
  from arg_cong [OF h, of length] show "it_operand_spans it = [] \<longleftrightarrow> os = []" by auto
qed

lemma foldl_max_ge: "x \<in> set xs \<Longrightarrow> x \<le> foldl max a xs" for x a :: u64
proof -
  have "(a \<le> foldl max a xs) \<and> (\<forall>x \<in> set xs. x \<le> foldl max a xs)" for a
  proof (induction xs arbitrary: a)
    case (Cons y ys)
    from Cons [of "max a y"] show ?case by (simp add: max.boundedE)
  qed simp
  then show "x \<in> set xs \<Longrightarrow> x \<le> foldl max a xs" by blast
qed

definition resolve_merged :: "merge_operator \<Rightarrow> i64 \<Rightarrow> u64 option \<Rightarrow> bytes \<Rightarrow> entry list \<Rightarrow> entry list
    \<Rightarrow> bytes option result" where
  "resolve_merged f now cover k chain base =
     (let live = filter (\<lambda>e. \<not> cut_by cover e) chain in
      if live = [] then Inr (newest_value now cover base)
      else case f k (live_base now cover base) (rev (map e_value live)) of
        Inl e \<Rightarrow> Inl (Corruption ''merge operator failed'')
      | Inr v \<Rightarrow> Inr (Some v))"

lemma fold_group_outcome:
  assumes oh: "operands_hold it (if forward then chain else rev chain)" and ne: "chain \<noteq> []"
    and pr: "plain_rel it v (first_of base)" and fg: "fold_group op v forward cover it = (it', r)"
  shows "loop_frame it it' \<and> it_m it' = it_m it"
    and "r = Inr v' \<Longrightarrow> resolve_merged op (it_now it) cover (it_key it) chain base =
      Inr (outcome (it_now it) cover v' (it_value it'))"
proof -
  define live where "live = filter (\<lambda>e. \<not> cut_by cover e) chain"
  define it1 where "it1 = cut_spans cover it"
  define it2 where "it2 = (if forward then it1\<lparr>it_operand_spans := rev (it_operand_spans it1)\<rparr> else it1)"
  have oh1: "operands_hold it1 (if forward then live else rev live)"
    using operands_cut [OF oh, of cover] by (simp add: it1_def live_def rev_filter split: if_splits)
  have it1: "it_now it1 = it_now it" "it_value it1 = it_value it" "it_key it1 = it_key it" "loop_frame it it1" "it_m it1 = it_m it"
    by (auto simp: it1_def cut_spans_def loop_frame_def split: option.split)
  have empty: "it_operand_spans it1 = [] \<longleftrightarrow> live = []"
    using operands_read(3) [OF oh1] by (simp split: if_splits)
  have it2: "it_now it2 = it_now it" "it_value it2 = it_value it" "it_key it2 = it_key it" "loop_frame it it2" "it_m it2 = it_m it"
    using it1 by (simp_all add: it2_def loop_frame_def)
  have slices: "map (span_slice (it_operands it2)) (it_operand_spans it2) = rev (map e_value live)"
    and seqs: "map span_seq (it_operand_spans it2) = rev (map e_seq live)"
    using operands_read(1,2) [OF oh1] by (simp_all add: it2_def rev_map [symmetric] split: if_splits)
  have nonempty: "it_operand_spans it2 = [] \<longleftrightarrow> live = []" using empty by (simp add: it2_def)
  have existing: "existing_base v cover it2 = live_base (it_now it) cover base"
    using existing_live_base [of it2 v base cover] pr it2 by (simp add: plain_rel_def)
  have all: "cover = None \<Longrightarrow> live \<noteq> []" using ne by (simp add: live_def cut_by_def)
  have fold: "fold_group op v forward cover it = (if live = [] then (it1, Inr v)
      else case op (it_key it) (live_base (it_now it) cover base) (rev (map e_value live)) of
        Inl e \<Rightarrow> (it2, Inl (Corruption ''merge operator failed''))
      | Inr folded \<Rightarrow> (it2\<lparr>it_val := folded, it_cur_val := CBuffered\<rparr>,
          Inr (v\<lparr>vv_found := True, vv_merged := True, vv_seq := max (vv_seq v) (foldl max 0 (rev (map e_seq live)))\<rparr>)))"
    unfolding fold_group_def cut_spans_def [symmetric] it1_def [symmetric] it2_def [symmetric] Let_def
    using empty nonempty all existing slices seqs it2(3) by (auto split: sum.split)
  show "loop_frame it it' \<and> it_m it' = it_m it"
    using fg it1(4,5) it2(4,5) unfolding fold by (auto simp: loop_frame_def split: if_splits sum.splits)
  assume r: "r = Inr v'"
  have not_hidden: "\<not> (case cover of Some s \<Rightarrow> s > max a (foldl max 0 (rev (map e_seq live))) | None \<Rightarrow> False)"
    if some: "live \<noteq> []" for a
  proof (cases cover)
    case (Some s)
    obtain e where "e \<in> set live" using some by (cases live) auto
    moreover from this have "s < e_seq e" by (auto simp: live_def Some cut_by_def)
    moreover have "e_seq e \<le> foldl max 0 (rev (map e_seq live))" using \<open>e \<in> set live\<close> by (intro foldl_max_ge) simp
    ultimately show ?thesis using Some by (auto simp: not_less max_def intro: order_trans less_imp_le)
  qed simp
  show "resolve_merged op (it_now it) cover (it_key it) chain base = Inr (outcome (it_now it) cover v' (it_value it'))"
  proof (cases "live = []")
    case True
    then have "resolve_merged op (it_now it) cover (it_key it) chain base = Inr (newest_value (it_now it) cover base)"
      unfolding resolve_merged_def live_def [symmetric] by simp
    moreover have "v' = vv_of (first_of base)" "it_value it' = best_value (first_of base)"
      using fg True r pr it1(2) unfolding fold by (auto simp: plain_rel_def)
    ultimately show ?thesis by (simp add: outcome_newest)
  next
    case False
    then show ?thesis
      using fg r not_hidden [of "vv_seq v"] unfolding fold resolve_merged_def live_def [symmetric]
      by (auto simp: outcome_def vv_is_live_def hidden_by_def it_value_def split: sum.splits option.splits)
  qed
qed

text \<open>What resolving a group leaves alone: the range cursors move, their windows stay.\<close>

definition scan_frame :: "'c scan_iter \<Rightarrow> 'c scan_iter \<Rightarrow> bool" where
  "scan_frame it it' \<longleftrightarrow> it_read_seq it' = it_read_seq it \<and> it_now it' = it_now it \<and> it_lower it' = it_lower it
     \<and> it_upper it' = it_upper it \<and> it_merge_op it' = it_merge_op it \<and> map fc_window (it_mask it') = map fc_window (it_mask it)
     \<and> mi_dir (it_m it') = mi_dir (it_m it) \<and> mi_cmp (it_m it') = mi_cmp (it_m it)"

definition mask_ok :: "comparator \<Rightarrow> 'c scan_iter \<Rightarrow> bool" where
  "mask_ok c it \<longleftrightarrow> (\<forall>s \<in> set (it_mask it). source_ok (compare c) s)"

definition group_cover :: "'c scan_iter \<Rightarrow> bytes \<Rightarrow> u64 option" where
  "group_cover it k = mask_cover (compare (mi_cmp (it_m it))) (map fc_window (it_mask it)) k (it_read_seq it)"

definition key_result :: "'c scan_iter \<Rightarrow> entry list list \<Rightarrow> bytes \<Rightarrow> bytes option result" where
  "key_result it C k = resolve_versions (it_merge_op it) (it_read_seq it) (it_now it) (group_cover it k) k
     (versions (mi_cmp (it_m it)) C k)"

lemma frame_scan: "loop_frame it it' \<Longrightarrow> scan_frame it it'"
  by (simp add: loop_frame_def scan_frame_def)

lemma scan_frame_trans: "scan_frame a b \<Longrightarrow> scan_frame b c \<Longrightarrow> scan_frame a c"
  by (simp add: scan_frame_def)

lemma frame_mask: "loop_frame it it' \<Longrightarrow> mask_ok c it' = mask_ok c it"
  by (simp add: loop_frame_def mask_ok_def)

lemma scan_frame_result: "scan_frame it it' \<Longrightarrow> group_cover it' k = group_cover it k \<and> key_result it' C k = key_result it C k"
  by (simp add: scan_frame_def group_cover_def key_result_def)

lemma covering_correct:
  assumes "user_key_order (compare c)" and "mi_cmp (it_m it) = c" and "mask_ok c it"
  shows "\<exists>ms. group_covering_seq it = Inr (it\<lparr>it_mask := ms\<rparr>, group_cover it (it_key it)) \<and>
    scan_frame it (it\<lparr>it_mask := ms\<rparr>) \<and> mask_ok c (it\<lparr>it_mask := ms\<rparr>)"
proof -
  from mask_covering_correct [OF assms(1), of "it_mask it" "it_key it" "it_read_seq it"] obtain ms where
    ms: "mask_covering_seq (compare c) (it_key it) (it_read_seq it) (it_mask it) = Inr (ms, group_cover it (it_key it))"
      "\<forall>s \<in> set ms. source_ok (compare c) s" "map fc_window ms = map fc_window (it_mask it)"
    using assms(2,3) by (auto simp: mask_ok_def group_cover_def)
  have "group_covering_seq it = Inr (it\<lparr>it_mask := ms\<rparr>, group_cover it (it_key it))"
    using ms(1) assms(2) by (cases "it_mask it = []") (auto simp: group_covering_seq_def mask_covering_seq_def)
  with ms(2,3) show ?thesis by (intro exI [of _ ms]) (simp add: scan_frame_def mask_ok_def)
qed

lemma resolve_versions_merge:
  "resolve_versions (Some f) rs now cover k D = resolve_merged f now cover k (chain_of rs D) (base_of rs D)"
  by (simp add: resolve_versions_def resolve_merged_def chain_of_def base_of_def Let_def)

context child_source
begin

text \<open>Draining a group without an operator.\<close>

lemma resolve_plain:
  assumes wf: "wf C (it_m it)" and fwd: "forward = (mi_dir (it_m it) > 0)" and op: "it_merge_op it = None"
    and walk: "mi_err (it_m it) = None \<longrightarrow> at C rem (it_m it)"
    and D: "newest_first D" "dedup_by same_seq (map fst (takeWhile (in_group (it_key it)) rem)) = (if forward then D else rev D)"
  shows "\<exists>it' r. resolve_current_group ops forward it = Some (Inr (it', r)) \<and> loop_frame it it' \<and> wf C (it_m it')
    \<and> (mi_err (it_m it') = None \<longrightarrow> mi_err (it_m it) = None)
    \<and> (\<forall>v. r = Inr v \<longrightarrow>
         (top_in_group ops it \<longrightarrow> merge_left c forward cur contents (it_m it') < merge_left c forward cur contents (it_m it))
         \<and> (mi_err (it_m it') = None \<longrightarrow> at C (dropWhile (in_group (it_key it)) rem) (it_m it')
            \<and> resolve_versions None (it_read_seq it) (it_now it) cover k D = Inr (outcome (it_now it) cover v (it_value it'))))"
proof -
  let ?it = "it\<lparr>it_cur_val := CEmpty\<rparr>" and ?rs = "it_read_seq it"
  have rel: "plain_rel ?it vv_default None" by (simp add: plain_rel_def vv_of_def best_value_def)
  have fr: "loop_frame it ?it" by (simp add: loop_frame_def)
  have best: "foldl (pick ?rs) None (map fst (takeWhile (in_group (it_key it)) rem)) = first_of (filter (\<lambda>e. e_seq e \<le> ?rs) D)"
    using pick_dedup [of ?rs None "map fst (takeWhile (in_group (it_key it)) rem)"] D(2)
      pick_forward [OF D(1)] pick_backward [OF D(1)] by (simp split: if_splits)
  have top: "top_in_group ops ?it = top_in_group ops it" by (simp add: top_in_group_def)
  let ?k = "it_key ?it" and ?left = "\<lambda>i. merge_left c forward cur contents (it_m i)"
  have "\<exists>it' r. group_loop ops forward (plain_step ops) ?it vv_default = Some (it', r) \<and> loop_frame ?it it' \<and> wf C (it_m it')
    \<and> ?left it' \<le> ?left ?it \<and> (mi_err (it_m it') = None \<longrightarrow> mi_err (it_m ?it) = None)
    \<and> (\<forall>v. r = Inr v \<longrightarrow> (top_in_group ops ?it \<longrightarrow> ?left it' < ?left ?it)
         \<and> (mi_err (it_m it') = None \<longrightarrow> at C (dropWhile (in_group ?k) rem) (it_m it')
            \<and> plain_rel it' v (foldl (pick ?rs) None (map fst (takeWhile (in_group ?k) rem)))))"
  proof (rule group_loop_correct [where rel = plain_rel and rs = ?rs])
    fix it it' :: "'c scan_iter" and s p e r
    assume "ok (mi_top (it_m it))" "cur (mi_top (it_m it)) = Some e" "it_read_seq it = ?rs"
      "plain_rel it s p" "plain_step ops it s = (it', r)"
    then show "loop_frame it it' \<and> it_m it' = it_m it \<and> (\<forall>s'. r = Inr s' \<longrightarrow> plain_rel it' s' (pick ?rs p e))"
      by (rule plain_step_rel)
  qed (use wf fwd walk rel in \<open>simp_all add: plain_rel_def\<close>)
  then obtain it' r where loop: "group_loop ops forward (plain_step ops) ?it vv_default = Some (it', r)"
    "loop_frame ?it it'" "wf C (it_m it')" "mi_err (it_m it') = None \<longrightarrow> mi_err (it_m it) = None"
    "\<forall>v. r = Inr v \<longrightarrow> (top_in_group ops it \<longrightarrow> ?left it' < ?left it)
         \<and> (mi_err (it_m it') = None \<longrightarrow> at C (dropWhile (in_group (it_key it)) rem) (it_m it')
            \<and> plain_rel it' v (first_of (filter (\<lambda>e. e_seq e \<le> ?rs) D)))"
    unfolding top best [symmetric] by auto
  have "resolve_current_group ops forward it = Some (Inr (it', r))"
    using op loop(1) by (simp add: resolve_current_group_def)
  moreover have "resolve_versions None ?rs (it_now it) cover k D = Inr (outcome (it_now it) cover v (it_value it'))"
    if "plain_rel it' v (first_of (filter (\<lambda>e. e_seq e \<le> ?rs) D))" for v
    using that by (simp add: plain_rel_def resolve_versions_def outcome_newest)
  ultimately show ?thesis
    using loop(3-5) loop_frame_trans [OF fr loop(2)] by (intro exI [of _ it'] exI [of _ r]) blast
qed

end

lemma fold_group_frame:
  assumes "fold_group op v forward cover it = (it', r)"
  shows "loop_frame it it'" and "it_m it' = it_m it"
  using assms by (auto simp: fold_group_def Let_def loop_frame_def split: option.splits if_splits sum.splits)

lemma mpick_group:
  assumes "newest_first D" and "dedup_by same_seq G = (if forward then D else rev D)"
  shows "\<exists>l. foldl (mpick forward rs) (None, None, []) G =
    (first_of (base_of rs D), l, if forward then chain_of rs D else rev (chain_of rs D))"
proof (cases forward)
  case True
  with mpick_dedup [of forward rs "(None, None, [])" G] mpick_forward [OF assms(1), of None rs "[]"] assms(2)
  show ?thesis by simp
next
  case False
  with mpick_dedup [of forward rs "(None, None, [])" G] mpick_backward [OF assms(1), of rs] assms(2)
  have "foldl (mpick forward rs) (None, None, []) G =
      (first_of (base_of rs D), map_option e_seq (first_of D), rev (chain_of rs D))" by simp
  with False show ?thesis by (intro exI) simp
qed

context child_source
begin

text \<open>Draining a group with an operator.\<close>

lemma merging_loop:
  assumes wf: "wf C (it_m it)" and fwd: "forward = (mi_dir (it_m it) > 0)"
    and walk: "mi_err (it_m it) = None \<longrightarrow> at C rem (it_m it)"
    and D: "newest_first D" "dedup_by same_seq (map fst (takeWhile (in_group (it_key it)) rem)) = (if forward then D else rev D)"
  shows "\<exists>it' r. group_loop ops forward (merging_step ops forward) (clear_operands (it\<lparr>it_cur_val := CEmpty\<rparr>)) (vv_default, None) = Some (it', r)
    \<and> loop_frame it it' \<and> wf C (it_m it') \<and> (mi_err (it_m it') = None \<longrightarrow> mi_err (it_m it) = None)
    \<and> (\<forall>v l. r = Inr (v, l) \<longrightarrow>
         (top_in_group ops it \<longrightarrow> merge_left c forward cur contents (it_m it') < merge_left c forward cur contents (it_m it))
         \<and> (mi_err (it_m it') = None \<longrightarrow> at C (dropWhile (in_group (it_key it)) rem) (it_m it')
            \<and> plain_rel it' v (first_of (base_of (it_read_seq it) D))
            \<and> operands_hold it' (if forward then chain_of (it_read_seq it) D else rev (chain_of (it_read_seq it) D))))"
proof -
  let ?it = "clear_operands (it\<lparr>it_cur_val := CEmpty\<rparr>)" and ?rs = "it_read_seq it"
  let ?G = "map fst (takeWhile (in_group (it_key it)) rem)"
  have rel: "merging_rel ?it (vv_default, None) (None, None, [])"
    using operands_clear by (simp add: merging_rel_def plain_rel_def vv_of_def best_value_def it_value_def clear_operands_def operands_hold_def)
  have it: "loop_frame it ?it" "it_m ?it = it_m it" "it_read_seq ?it = ?rs" "it_key ?it = it_key it"
    by (simp_all add: loop_frame_def clear_operands_def)
  obtain l where l: "foldl (mpick forward ?rs) (None, None, []) ?G =
      (first_of (base_of ?rs D), l, if forward then chain_of ?rs D else rev (chain_of ?rs D))"
    using mpick_group [OF D] by blast
  have top: "top_in_group ops ?it = top_in_group ops it" by (simp add: top_in_group_def clear_operands_def)
  let ?left = "\<lambda>i. merge_left c forward cur contents (it_m i)"
  have "\<exists>it' r. group_loop ops forward (merging_step ops forward) ?it (vv_default, None) = Some (it', r) \<and> loop_frame ?it it' \<and> wf C (it_m it')
    \<and> ?left it' \<le> ?left ?it \<and> (mi_err (it_m it') = None \<longrightarrow> mi_err (it_m ?it) = None)
    \<and> (\<forall>s. r = Inr s \<longrightarrow> (top_in_group ops ?it \<longrightarrow> ?left it' < ?left ?it)
         \<and> (mi_err (it_m it') = None \<longrightarrow> at C (dropWhile (in_group (it_key ?it)) rem) (it_m it')
            \<and> merging_rel it' s (foldl (mpick forward ?rs) (None, None, []) (map fst (takeWhile (in_group (it_key ?it)) rem)))))"
  proof (rule group_loop_correct [where rel = merging_rel and rs = ?rs])
    fix it it' :: "'c scan_iter" and s p e r
    assume "ok (mi_top (it_m it))" "cur (mi_top (it_m it)) = Some e" "it_read_seq it = ?rs"
      "merging_rel it s p" "merging_step ops forward it s = (it', r)"
    then show "loop_frame it it' \<and> it_m it' = it_m it \<and> (\<forall>s'. r = Inr s' \<longrightarrow> merging_rel it' s' (mpick forward ?rs p e))"
      by (rule merging_step_rel)
  next
    show "merging_rel (it\<lparr>it_m := m\<rparr>) s p = merging_rel it s p" for it :: "'c scan_iter" and s p m
      by (simp add: merging_rel_def plain_rel_def operands_hold_def)
  qed (use wf fwd walk rel it in simp_all)
  then show ?thesis
    unfolding it(2,4) l top using loop_frame_trans [OF it(1)]
    by (elim exE, intro exI) (auto simp: merging_rel_def)
qed

end

context child_source
begin

abbreviation resolves :: "bool \<Rightarrow> entry list list \<Rightarrow> item list \<Rightarrow> entry list \<Rightarrow> 'c scan_iter \<Rightarrow> 'c scan_iter
    \<Rightarrow> visible_version result \<Rightarrow> bool" where
  "resolves forward C rem D it it' r \<equiv> scan_frame it it' \<and> it_key it' = it_key it \<and> it_err it' = it_err it
    \<and> mask_ok c it' \<and> wf C (it_m it') \<and> (mi_err (it_m it') = None \<longrightarrow> mi_err (it_m it) = None)
    \<and> (\<forall>v. r = Inr v \<longrightarrow>
         (top_in_group ops it \<longrightarrow> merge_left c forward cur contents (it_m it') < merge_left c forward cur contents (it_m it))
         \<and> (mi_err (it_m it') = None \<longrightarrow> at C (dropWhile (in_group (it_key it)) rem) (it_m it')
            \<and> resolve_versions (it_merge_op it) (it_read_seq it) (it_now it) (group_cover it (it_key it)) (it_key it) D =
                Inr (outcome (it_now it) (group_cover it (it_key it)) v (it_value it'))))"

lemma resolve_merging:
  assumes wf: "wf C (it_m it)" and fwd: "forward = (mi_dir (it_m it) > 0)" and op: "it_merge_op it = Some f"
    and mok: "mask_ok c it" and walk: "mi_err (it_m it) = None \<longrightarrow> at C rem (it_m it)"
    and D: "newest_first D" "dedup_by same_seq (map fst (takeWhile (in_group (it_key it)) rem)) = (if forward then D else rev D)"
  shows "\<exists>it' r. resolve_current_group ops forward it = Some (Inr (it', r)) \<and> resolves forward C rem D it it' r"
proof -
  let ?rs = "it_read_seq it" and ?k = "it_key it" and ?cover = "group_cover it (it_key it)"
  let ?chain = "chain_of ?rs D" and ?base = "base_of ?rs D"
  from merging_loop [OF wf fwd walk D] obtain it1 r1 where
    loop: "group_loop ops forward (merging_step ops forward) (clear_operands (it\<lparr>it_cur_val := CEmpty\<rparr>)) (vv_default, None) = Some (it1, r1)"
    and fr: "loop_frame it it1" and wf1: "wf C (it_m it1)" and mono: "mi_err (it_m it1) = None \<longrightarrow> mi_err (it_m it) = None"
    and res: "\<forall>v l. r1 = Inr (v, l) \<longrightarrow>
       (top_in_group ops it \<longrightarrow> merge_left c forward cur contents (it_m it1) < merge_left c forward cur contents (it_m it))
       \<and> (mi_err (it_m it1) = None \<longrightarrow> at C (dropWhile (in_group ?k) rem) (it_m it1)
          \<and> plain_rel it1 v (first_of ?base) \<and> operands_hold it1 (if forward then ?chain else rev ?chain))"
    by - (elim exE conjE, rule that)
  note res = res [THEN spec, THEN spec, THEN mp]
  have rcg: "resolve_current_group ops forward it = Some (case r1 of Inl e \<Rightarrow> Inr (it1, Inl e)
     | Inr (v, _) \<Rightarrow> if it_operand_spans it1 = [] then Inr (it1, Inr v)
         else rbind (group_covering_seq it1) (\<lambda>(it, cover). Inr (fold_group f v forward cover it)))"
    using op loop by (simp add: resolve_current_group_def resolve_merging_group_def)
  have fr1: "scan_frame it it1" "it_key it1 = ?k" "it_err it1 = it_err it" "mask_ok c it1" "it_now it1 = it_now it"
    using frame_scan [OF fr] frame_mask [OF fr, of c] mok fr by (simp_all add: loop_frame_def)
  show ?thesis
  proof (cases r1)
    case (Inl e)
    then show ?thesis using rcg fr1 wf1 mono by (intro exI [of _ it1] exI [of _ "Inl e"]) simp
  next
    case (Inr s)
    then obtain v l where r1: "r1 = Inr (v, l)" by (cases s) auto
    show ?thesis
    proof (cases "it_operand_spans it1 = []")
      case True
      have "resolve_versions (it_merge_op it) ?rs (it_now it) ?cover ?k D = Inr (outcome (it_now it) ?cover v (it_value it1))"
        if "mi_err (it_m it1) = None"
        using res [OF r1] that True operands_read(3) [of it1 "if forward then ?chain else rev ?chain"]
        by (auto simp: op resolve_versions_merge resolve_merged_def plain_rel_def outcome_newest split: if_splits)
      then show ?thesis
        using rcg fr1 wf1 mono res [OF r1] True r1 by (intro exI [of _ it1] exI [of _ "Inr v"]) simp
    next
      case False
      obtain ms where ms: "group_covering_seq it1 = Inr (it1\<lparr>it_mask := ms\<rparr>, ?cover)"
        "scan_frame it1 (it1\<lparr>it_mask := ms\<rparr>)" "mask_ok c (it1\<lparr>it_mask := ms\<rparr>)"
        using covering_correct [OF order _ fr1(4)] wf1 scan_frame_result [OF fr1(1)] fr1(2) by (auto simp: merge_wf_def)
      let ?it2 = "it1\<lparr>it_mask := ms\<rparr>"
      obtain it' r where fg: "fold_group f v forward ?cover ?it2 = (it', r)" by fastforce
      note fgf = fold_group_frame [OF fg]
      have "resolve_versions (it_merge_op it) ?rs (it_now it) ?cover ?k D = Inr (outcome (it_now it) ?cover v' (it_value it'))"
        if "mi_err (it_m it1) = None" "r = Inr v'" for v'
      proof -
        have oh: "operands_hold ?it2 (if forward then ?chain else rev ?chain)" and pr: "plain_rel ?it2 v (first_of ?base)"
          using res [OF r1] that(1) by (simp_all add: operands_hold_def plain_rel_def)
        moreover have "?chain \<noteq> []" using operands_read(3) [OF oh] False by (auto split: if_splits)
        ultimately show ?thesis
          using fold_group_outcome(2) [OF oh _ pr fg that(2)] fr1(2,5) by (simp add: op resolve_versions_merge)
      qed
      moreover have "resolve_current_group ops forward it = Some (Inr (it', r))"
        using rcg r1 False ms(1) fg by simp
      moreover have "scan_frame it it'" "it_key it' = ?k" "it_err it' = it_err it" "mask_ok c it'"
        using scan_frame_trans [OF scan_frame_trans [OF fr1(1) ms(2)] frame_scan [OF fgf(1)]] fgf(1) fr1(2,3)
          frame_mask [OF fgf(1), of c] ms(3) by (simp_all add: loop_frame_def)
      ultimately show ?thesis
        using wf1 mono res [OF r1] fgf(2) by (intro exI [of _ it'] exI [of _ r]) simp
    qed
  qed
qed

lemma resolve_group_correct:
  assumes wf: "wf C (it_m it)" and fwd: "forward = (mi_dir (it_m it) > 0)"
    and mok: "mask_ok c it" and walk: "mi_err (it_m it) = None \<longrightarrow> at C rem (it_m it)"
    and D: "newest_first D" "dedup_by same_seq (map fst (takeWhile (in_group (it_key it)) rem)) = (if forward then D else rev D)"
  shows "\<exists>it' r. resolve_current_group ops forward it = Some (Inr (it', r)) \<and> resolves forward C rem D it it' r"
proof (cases "it_merge_op it")
  case None
  from resolve_plain [OF wf fwd None walk D, of "group_cover it (it_key it)" "it_key it"] obtain it' r where
    res: "resolve_current_group ops forward it = Some (Inr (it', r))" "loop_frame it it'" "wf C (it_m it')"
      "mi_err (it_m it') = None \<longrightarrow> mi_err (it_m it) = None"
      "\<forall>v. r = Inr v \<longrightarrow>
         (top_in_group ops it \<longrightarrow> merge_left c forward cur contents (it_m it') < merge_left c forward cur contents (it_m it))
         \<and> (mi_err (it_m it') = None \<longrightarrow> at C (dropWhile (in_group (it_key it)) rem) (it_m it')
            \<and> resolve_versions None (it_read_seq it) (it_now it) (group_cover it (it_key it)) (it_key it) D =
                Inr (outcome (it_now it) (group_cover it (it_key it)) v (it_value it')))"
    by - (elim exE conjE, rule that)
  moreover have "scan_frame it it'" "it_key it' = it_key it" "it_err it' = it_err it" "mask_ok c it'"
    using frame_scan [OF res(2)] frame_mask [OF res(2), of c] mok res(2) by (simp_all add: loop_frame_def)
  ultimately show ?thesis unfolding None by (intro exI [of _ it'] exI [of _ r] conjI)
next
  case (Some f)
  from resolve_merging [OF wf fwd Some mok walk D] show ?thesis .
qed

end

end
