(* ===== verification/Scan_Walk.thy ===== *)
theory Scan_Walk
  imports Group_Resolve
begin

text \<open>
  Where the movements of the public iterator land: on the next key, in the direction of the
  walk and within the declared bounds, that resolves to a value.
\<close>

section \<open>From groups to keys\<close>

definition kdir :: "comparator \<Rightarrow> int \<Rightarrow> bytes \<Rightarrow> bytes \<Rightarrow> ordering" where
  "kdir c d a b = (if d \<ge> 0 then compare c a b else compare c b a)"

definition keys_of :: "comparator \<Rightarrow> int \<Rightarrow> entry list list \<Rightarrow> bytes list" where
  "keys_of c d C = remdups_adj (map (\<lambda>x. e_key (fst x)) (merged c d C))"

abbreviation with_key :: "(bytes \<Rightarrow> bool) \<Rightarrow> item list \<Rightarrow> item list" where
  "with_key Q L \<equiv> filter (\<lambda>x. Q (e_key (fst x))) L"

definition upward :: "comparator \<Rightarrow> int \<Rightarrow> (bytes \<Rightarrow> bool) \<Rightarrow> bool" where
  "upward c d Q \<longleftrightarrow> (\<forall>a b. is_le (kdir c d a b) \<longrightarrow> Q a \<longrightarrow> Q b)"

definition beyond :: "comparator \<Rightarrow> int \<Rightarrow> bytes \<Rightarrow> bytes \<Rightarrow> bool" where
  "beyond c d k k' \<longleftrightarrow> is_lt (kdir c d k k')"

lemma key_order_kdir: "user_key_order (compare c) \<Longrightarrow> key_order (kdir c d)"
  by (cases "d \<ge> 0") (simp_all add: kdir_def [abs_def] user_key_order.axioms key_order_reverse)

lemma upward_beyond: "user_key_order (compare c) \<Longrightarrow> upward c d (beyond c d k)"
  unfolding upward_def beyond_def
  using key_order.lt_le_trans [OF key_order_kdir] by blast

lemma merged_keys_sorted:
  assumes "user_key_order (compare c)" and "\<forall>L \<in> set C. in_order c L"
  shows "sorted_wrt (\<lambda>x y. is_le (kdir c d (e_key (fst x)) (e_key (fst y)))) (merged c d C)"
proof -
  have "is_le (kdir c d (e_key (fst x)) (e_key (fst y)))" if "is_lt (walk_cmp c d (item_key x) (item_key y))" for x y
    using that by (auto simp: walk_cmp_def item_key_def dir_cmp_def kdir_def ikey_cmp_eq entry_ikey_def then_with_def
        ordering_tests split: ordering.splits if_splits)
  then show ?thesis by (rule sorted_wrt_mono_rel [OF _ sorted_merged [OF assms]])
qed

text \<open>The first group of what is left is the key's whole group, and what follows is past the key.\<close>

lemma group_split:
  assumes c: "user_key_order (compare c)" and C: "\<forall>L \<in> set C. in_order c L" and Q: "upward c d Q"
    and rem: "with_key Q (merged c d C) = x # xs"
  defines "k \<equiv> e_key (fst x)"
  shows "takeWhile (in_group k) (x # xs) = filter (in_group k) (merged c d C)"
    and "dropWhile (in_group k) (x # xs) = with_key (beyond c d k) (merged c d C)"
    and "\<forall>k' \<in> (\<lambda>x. e_key (fst x)) ` set (merged c d C). Q k' \<longleftrightarrow> k' = k \<or> beyond c d k k'"
proof -
  note order = key_order_kdir [OF c, of d]
  let ?le = "\<lambda>x y. is_le (kdir c d (e_key (fst x)) (e_key (fst y)))"
  have sorted: "sorted_wrt ?le (x # xs)"
    unfolding rem [symmetric] by (rule sorted_wrt_filter [OF merged_keys_sorted [OF c C]])
  then have first: "is_le (kdir c d k (e_key (fst y)))" if "y \<in> set (x # xs)" for y
    using that key_order.le_refl [OF order] by (auto simp: k_def)
  have anti: "a = b" if "is_le (kdir c d a b)" "is_le (kdir c d b a)" for a b
    using that by (rule key_order.le_antisym [OF order])
  have mem: "y \<in> set (x # xs) \<longleftrightarrow> y \<in> set (merged c d C) \<and> Q (e_key (fst y))" for y
    unfolding rem [symmetric] by auto
  have Qk: "Q k" using mem [of x] by (simp add: k_def)
  show "\<forall>k' \<in> (\<lambda>x. e_key (fst x)) ` set (merged c d C). Q k' \<longleftrightarrow> k' = k \<or> beyond c d k k'"
  proof (rule ballI, elim imageE)
    fix k' y assume y: "k' = e_key (fst y)" "y \<in> set (merged c d C)"
    show "Q k' \<longleftrightarrow> k' = k \<or> beyond c d k k'"
    proof
      assume "Q k'"
      then have "is_le (kdir c d k k')" using first [of y] mem [of y] y by blast
      then show "k' = k \<or> beyond c d k k'"
        using key_order.le_cases [OF order] by (auto simp: beyond_def)
    next
      assume "k' = k \<or> beyond c d k k'"
      then show "Q k'" using Qk Q key_order.lt_imp_le [OF order] unfolding upward_def beyond_def by blast
    qed
  qed
  then have iff: "Q (e_key (fst y)) \<longleftrightarrow> in_group k y \<or> beyond c d k (e_key (fst y))" if "y \<in> set (merged c d C)" for y
    using that by blast
  have not_both: "\<not> (beyond c d k k)" by (simp add: beyond_def key_order.lt_irrefl [OF order])
  have "takeWhile (in_group k) (x # xs) = filter (in_group k) (x # xs)"
    by (rule takeWhile_eq_filter [OF sorted]) (use first anti in blast)
  also have "\<dots> = filter (in_group k) (merged c d C)"
    unfolding rem [symmetric] filter_filter using Qk by (intro filter_cong) auto
  finally show "takeWhile (in_group k) (x # xs) = filter (in_group k) (merged c d C)" .
  have "dropWhile (\<lambda>y. \<not> (\<not> in_group k y)) (x # xs) = filter (\<lambda>y. \<not> in_group k y) (x # xs)"
    by (rule dropWhile_eq_filter [OF sorted]) (use first anti in blast)
  also have "\<dots> = with_key (beyond c d k) (merged c d C)"
    unfolding rem [symmetric] filter_filter using iff not_both by (intro filter_cong) auto
  finally show "dropWhile (in_group k) (x # xs) = with_key (beyond c d k) (merged c d C)" by simp
qed

lemma set_keys_of: "set (keys_of c d C) = (\<lambda>x. e_key (fst x)) ` set (merged c d C)"
  by (simp add: keys_of_def)

lemma remdups_adj_strict:
  assumes "key_order cmp" and "sorted_wrt (\<lambda>a b. is_le (cmp a b)) xs"
  shows "sorted_wrt (\<lambda>a b. is_lt (cmp a b)) (remdups_adj xs)"
proof -
  have "sorted_wrt (\<lambda>a b. is_le (cmp a b) \<and> a \<noteq> b) (remdups_adj xs)"
    using assms(2)
  proof (induction xs rule: remdups_adj.induct)
    case (3 x y xs)
    have "x \<noteq> z" if "x \<noteq> y" "z \<in> set (y # xs)" for z
      using that 3(3) key_order.le_antisym [OF assms(1)] by auto
    with 3 show ?case by auto
  qed simp_all
  then show ?thesis
    by (rule sorted_wrt_mono_rel [rotated]) (use key_order.le_cases [OF assms(1)] in blast)
qed

lemma keys_of_sorted:
  assumes "user_key_order (compare c)" and "\<forall>L \<in> set C. in_order c L"
  shows "sorted_wrt (\<lambda>a b. is_lt (kdir c d a b)) (keys_of c d C)"
  unfolding keys_of_def using merged_keys_sorted [OF assms, of d]
  by (intro remdups_adj_strict [OF key_order_kdir [OF assms(1)]]) (simp add: sorted_wrt_map)

lemma keys_of_backward:
  assumes "user_key_order (compare c)" and "\<forall>L \<in> set C. in_order c L"
  shows "keys_of c (- 1) C = rev (keys_of c 1 C)"
proof (rule key_order.sorted_on_unique [OF key_order_kdir [OF assms(1), of "- 1"], where f = "\<lambda>k. k"])
  show "sorted_wrt (\<lambda>a b. is_lt (kdir c (- 1) a b)) (keys_of c (- 1) C)" by (rule keys_of_sorted [OF assms])
  show "sorted_wrt (\<lambda>a b. is_lt (kdir c (- 1) a b)) (rev (keys_of c 1 C))"
    using keys_of_sorted [OF assms, of 1] by (simp add: sorted_wrt_rev kdir_def)
qed (simp add: set_keys_of set_merged)

lemma find_least:
  assumes "key_order cmp" and "sorted_wrt (\<lambda>a b. is_lt (cmp a b)) K" and "k \<in> set K" and "P k"
    and "\<forall>k' \<in> set K. P k' \<longrightarrow> k' = k \<or> is_lt (cmp k k')"
  shows "find P K = Some k"
  using assms(2-5)
proof (induction K)
  case (Cons a K)
  show ?case
  proof (cases "a = k")
    case False
    then have "is_lt (cmp a k)" using Cons.prems by simp
    then have "\<not> P a" using Cons.prems(4) False key_order.not_lt_iff [OF assms(1)] key_order.lt_imp_le [OF assms(1)] by auto
    with Cons False show ?thesis by simp
  qed (use Cons in simp)
qed simp

section \<open>One movement\<close>

definition bound_ok :: "bool \<Rightarrow> 'c scan_iter \<Rightarrow> bytes \<Rightarrow> bool" where
  "bound_ok forward it k \<longleftrightarrow> \<not> (if forward then past_upper (it\<lparr>it_key := k\<rparr>) else below_lower (it\<lparr>it_key := k\<rparr>))"

definition lands :: "(bytes \<Rightarrow> bool) \<Rightarrow> (bytes \<Rightarrow> bytes option result) \<Rightarrow> bytes option \<Rightarrow> 'c scan_iter \<Rightarrow> bool" where
  "lands inb res target it \<longleftrightarrow> (case target of
     None \<Rightarrow> \<not> it_valid it
   | Some k \<Rightarrow> (it_valid it \<longleftrightarrow> inb k) \<and>
       (\<exists>v. res k = Inr (Some v) \<and> (it_valid it \<longrightarrow> it_key it = k \<and> it_value it = v)))"

definition live_key :: "'c scan_iter \<Rightarrow> entry list list \<Rightarrow> bytes \<Rightarrow> bool" where
  "live_key it C k \<longleftrightarrow> key_result it C k \<noteq> Inr None"

lemma scan_frame_refl [simp]: "scan_frame it it"
  by (simp add: scan_frame_def)

lemma frame_bound: "scan_frame it it' \<Longrightarrow> bound_ok forward it' k = bound_ok forward it k"
  by (simp add: bound_ok_def scan_frame_def past_upper_def below_lower_def split: bound.split)

lemma bound_ok_here: "bound_ok forward it (it_key it) \<longleftrightarrow> \<not> (if forward then past_upper it else below_lower it)"
  by (simp add: bound_ok_def)

context child_source
begin

abbreviation landed :: "bool \<Rightarrow> entry list list \<Rightarrow> (bytes \<Rightarrow> bool) \<Rightarrow> 'c scan_iter \<Rightarrow> 'c scan_iter \<Rightarrow> bool" where
  "landed forward C Q it it' \<equiv> lands (bound_ok forward it) (key_result it C)
       (find (\<lambda>k. Q k \<and> live_key it C k) (keys_of c (mi_dir (it_m it)) C)) it'
     \<and> (it_valid it' \<longrightarrow> mi_err (it_m it') = None \<and>
          at C (with_key (beyond c (mi_dir (it_m it)) (it_key it')) (merged c (mi_dir (it_m it)) C)) (it_m it'))"

lemma group_versions:
  assumes "\<forall>L \<in> set C. in_order c L" and "d \<in> {1, - 1}"
  shows "dedup_by same_seq (map fst (filter (in_group k) (merged c d C))) =
    (if d > 0 then versions c C k else rev (versions c C k))"
  using assms(2) versions_sorted(2) [OF order assms(1), of k]
  by (auto simp: group_of_def [symmetric] versions_def)

text \<open>A group that has been resolved, from the check for a failed child on.\<close>

lemma surface_correct:
  assumes wf: "wf C (it_m it)" and mok: "mask_ok c it"
    and err: "mi_err (it_m it) = None" and k: "it_key it = k"
    and res: "key_result it C k = Inr (outcome (it_now it) (group_cover it k) v (it_value it))"
  shows "\<exists>it' go. surface_group forward it v = Inr (it', go) \<and> scan_frame it it' \<and> mask_ok c it' \<and> it_m it' = it_m it
    \<and> it_err it' = it_err it \<and> (if go then key_result it C k = Inr None
        else key_result it C k = Inr (Some (it_value it')) \<and> it_key it' = k \<and> (it_valid it' \<longleftrightarrow> bound_ok forward it k))"
proof -
  have cmp: "mi_cmp (it_m it) = c" using wf by (simp add: merge_wf_def)
  have nf: "child_failed it = (it, False)" by (simp add: child_failed_def err)
  show ?thesis
  proof (cases "vv_is_live (it_now it) v")
    case False
    then show ?thesis
      using res mok by (intro exI [of _ it] exI [of _ True]) (simp add: surface_group_def nf outcome_def)
  next
    case True
    obtain ms where ms: "group_covering_seq it = Inr (it\<lparr>it_mask := ms\<rparr>, group_cover it k)"
      "scan_frame it (it\<lparr>it_mask := ms\<rparr>)" "mask_ok c (it\<lparr>it_mask := ms\<rparr>)"
      using covering_correct [OF order cmp mok] k by auto
    have masked: "masked_by_range v it = Inr (it\<lparr>it_mask := ms\<rparr>, hidden_by (group_cover it k) v)"
      by (simp add: masked_by_range_def ms(1) hidden_by_def)
    show ?thesis
    proof (cases "hidden_by (group_cover it k) v")
      case hid: True
      then show ?thesis
        using res ms(2,3) True
        by (intro exI [of _ "it\<lparr>it_mask := ms\<rparr>"] exI [of _ True]) (simp add: surface_group_def nf masked outcome_def)
    next
      case hid: False
      let ?it = "it\<lparr>it_mask := ms, it_valid := bound_ok forward it k\<rparr>"
      have "surface_group forward it v = Inr (?it, False)"
        using True hid k by (simp add: surface_group_def nf masked bound_ok_def past_upper_def below_lower_def
            split: bound.split)
      moreover have "scan_frame it ?it" "mask_ok c ?it"
        using ms(2,3) by (simp_all add: scan_frame_def mask_ok_def)
      moreover have "it_value ?it = it_value it" by (simp add: it_value_def split: cur_val.split)
      ultimately show ?thesis
        using res True hid k by (intro exI [of _ ?it] exI [of _ False]) (simp add: outcome_def)
    qed
  qed
qed

end

lemma child_failed_some:
  assumes "mi_err (it_m it) \<noteq> None"
  shows "\<exists>it'. child_failed it = (it', True) \<and> scan_frame it it' \<and> it_m it' = it_m it \<and> it_mask it' = it_mask it
    \<and> it_err it' \<noteq> None \<and> \<not> it_valid it'"
  using assms by (auto simp: child_failed_def scan_frame_def)

context child_source
begin

abbreviation goes_on :: "bool \<Rightarrow> entry list list \<Rightarrow> (bytes \<Rightarrow> bool) \<Rightarrow> 'c scan_iter \<Rightarrow> 'c scan_iter \<Rightarrow> bool" where
  "goes_on forward C Q it it' \<equiv>
     merge_left c forward cur contents (it_m it') < merge_left c forward cur contents (it_m it)
     \<and> mi_err (it_m it') = None
     \<and> (\<exists>k. at C (with_key (beyond c (mi_dir (it_m it)) k) (merged c (mi_dir (it_m it)) C)) (it_m it')
          \<and> (\<forall>k' \<in> set (keys_of c (mi_dir (it_m it)) C).
               (Q k' \<and> live_key it C k') = (beyond c (mi_dir (it_m it)) k k' \<and> live_key it C k')))"

abbreviation advanced :: "bool \<Rightarrow> entry list list \<Rightarrow> (bytes \<Rightarrow> bool) \<Rightarrow> 'c scan_iter \<Rightarrow> 'c scan_iter \<Rightarrow> bool \<Rightarrow> bool" where
  "advanced forward C Q it it' go \<equiv> scan_frame it it' \<and> mask_ok c it' \<and> wf C (it_m it')
     \<and> (it_err it' = None \<longrightarrow> it_err it = None)
     \<and> (if go then goes_on forward C Q it it' else it_err it' = None \<or> it_valid it' \<longrightarrow> landed forward C Q it it')"

lemma advance_group:
  assumes wf: "wf C (it_m it)" and fwd: "forward = (mi_dir (it_m it) > 0)" and mok: "mask_ok c it"
    and Q: "upward c (mi_dir (it_m it)) Q" and err: "mi_err (it_m it) = None"
    and walk: "at C (x # xs) (it_m it)" and rem: "with_key Q (merged c (mi_dir (it_m it)) C) = x # xs"
  shows "\<exists>it' go. advance_step ops forward it = Some (Inr (it', go)) \<and> advanced forward C Q it it' go"
proof -
  let ?d = "mi_dir (it_m it)" and ?k = "e_key (fst x)"
  define it1 where "it1 = capture_group_key ops it"
  note top = walk_top [OF wf walk] and C = wf_contents [OF wf]
  have d: "?d \<in> {1, - 1}" and cmp: "mi_cmp (it_m it) = c" using wf by (simp_all add: merge_wf_def)
  note split = group_split [OF order C Q rem]
  have it1: "it_m it1 = it_m it" "it_key it1 = ?k" "scan_frame it it1" "mask_ok c it1" "it_err it1 = it_err it" "it_now it1 = it_now it"
    using reads [OF wf_top(1) [OF wf top(1)] top(3)] mok
    by (simp_all add: it1_def capture_group_key_def scan_frame_def mask_ok_def)
  have tig: "top_in_group ops it1"
    using reads [OF wf_top(1) [OF wf top(1)] top(3)] top(1) top_in_group_iff [of it1] cmp it1 by simp
  have D: "newest_first (versions c C ?k)"
    "dedup_by same_seq (map fst (takeWhile (in_group (it_key it1)) (x # xs))) =
      (if forward then versions c C ?k else rev (versions c C ?k))"
    using versions_sorted(1) [OF order C] group_versions [OF C d] split(1) fwd it1(2) by simp_all
  have pre: "wf C (it_m it1)" "forward = (mi_dir (it_m it1) > 0)" "mi_err (it_m it1) = None \<longrightarrow> at C (x # xs) (it_m it1)"
    using wf fwd walk by (simp_all add: it1(1))
  from resolve_group_correct [OF pre(1,2) it1(4) pre(3) D] obtain it2 r where
    rcg: "resolve_current_group ops forward it1 = Some (Inr (it2, r))" and
    fr: "scan_frame it1 it2" and k2: "it_key it2 = ?k" and e2: "it_err it2 = it_err it1" and m2: "mask_ok c it2" and wf2: "wf C (it_m it2)" and
    inr: "\<forall>v. r = Inr v \<longrightarrow>
       (top_in_group ops it1 \<longrightarrow> merge_left c forward cur contents (it_m it2) < merge_left c forward cur contents (it_m it1))
       \<and> (mi_err (it_m it2) = None \<longrightarrow> at C (dropWhile (in_group ?k) (x # xs)) (it_m it2)
          \<and> resolve_versions (it_merge_op it1) (it_read_seq it1) (it_now it1) (group_cover it1 ?k) ?k (versions c C ?k) =
              Inr (outcome (it_now it1) (group_cover it1 ?k) v (it_value it2)))"
    unfolding it1(2) by - (elim exE conjE, rule that)
  have fr2: "scan_frame it it2" by (rule scan_frame_trans [OF it1(3) fr])
  have nf: "child_failed it = (it, False)" by (simp add: child_failed_def err)
  have step: "advance_step ops forward it = Some (case r of
      Inl e \<Rightarrow> Inr (it2\<lparr>it_err := Some e, it_valid := False\<rparr>, False) | Inr v \<Rightarrow> surface_group forward it2 v)"
    using top(1) rcg by (simp add: advance_step_def nf mi_valid_def it1_def [symmetric])
  show ?thesis
  proof (cases r)
    case (Inl e)
    let ?it = "it2\<lparr>it_err := Some e, it_valid := False\<rparr>"
    have "scan_frame it ?it" "mask_ok c ?it" "wf C (it_m ?it)" using fr2 m2 wf2 by (simp_all add: scan_frame_def mask_ok_def)
    with step Inl show ?thesis by (intro exI [of _ ?it] exI [of _ False]) simp
  next
    case (Inr v)
    note res = inr [rule_format, OF Inr]
    show ?thesis
    proof (cases "mi_err (it_m it2) = None")
      case False
      from child_failed_some [OF False] obtain it' where
        it': "child_failed it2 = (it', True)" "scan_frame it2 it'" "it_m it' = it_m it2" "it_mask it' = it_mask it2"
          "it_err it' \<noteq> None" "\<not> it_valid it'"
        by blast
      have "scan_frame it it'" "mask_ok c it'" using scan_frame_trans [OF fr2 it'(2)] it'(4) m2 by (simp_all add: mask_ok_def)
      with step Inr it' wf2 show ?thesis by (intro exI [of _ it'] exI [of _ False]) (auto simp: surface_group_def)
    next
      case True
      have fr_res: "key_result it2 C k = key_result it C k" "group_cover it2 k = group_cover it k" for k
        using scan_frame_result [OF fr2] by simp_all
      have kr: "key_result it2 C ?k = Inr (outcome (it_now it2) (group_cover it2 ?k) v (it_value it2))"
        using res True scan_frame_result [OF it1(3)] fr2 it1(3,6) cmp
        by (simp add: fr_res key_result_def scan_frame_def)
      from surface_correct [OF wf2 m2 True k2 kr, of forward] obtain it' go where
        sg: "surface_group forward it2 v = Inr (it', go)" "scan_frame it2 it'" "mask_ok c it'" "it_m it' = it_m it2" "it_err it' = it_err it2"
        and go: "if go then key_result it2 C ?k = Inr None
          else key_result it2 C ?k = Inr (Some (it_value it')) \<and> it_key it' = ?k \<and> (it_valid it' \<longleftrightarrow> bound_ok forward it2 ?k)"
        by - (elim exE conjE, rule that)
      have at': "at C (with_key (beyond c ?d ?k) (merged c ?d C)) (it_m it')"
        using res True split(2) sg(4) by simp
      have keys: "\<forall>k' \<in> set (keys_of c ?d C). Q k' \<longleftrightarrow> k' = ?k \<or> beyond c ?d ?k k'"
        using split(3) by (simp add: set_keys_of)
      have "if go then goes_on forward C Q it it' else landed forward C Q it it'"
      proof (cases go)
        case True
        then have "\<not> live_key it C ?k" using go by (simp add: live_key_def fr_res)
        then have skip: "\<forall>k' \<in> set (keys_of c ?d C). (Q k' \<and> live_key it C k') = (beyond c ?d ?k k' \<and> live_key it C k')"
          using keys by (intro ballI) (metis (no_types))
        have less: "merge_left c forward cur contents (it_m it') < merge_left c forward cur contents (it_m it)"
          using conjunct1 [OF res, rule_format, OF tig] sg(4) it1(1) by simp
        have "mi_err (it_m it') = None" using \<open>mi_err (it_m it2) = None\<close> sg(4) by simp
        with True less at' skip show ?thesis by (simp only: if_True, intro conjI exI [of _ ?k]) simp_all
      next
        case False
        then have l: "key_result it C ?k = Inr (Some (it_value it'))" "it_key it' = ?k" "it_valid it' \<longleftrightarrow> bound_ok forward it ?k"
          using go frame_bound [OF fr2] by (simp_all add: fr_res)
        have "?k \<in> set (keys_of c ?d C)"
          unfolding set_keys_of using arg_cong [OF rem, of set] by auto
        then have "find (\<lambda>k. Q k \<and> live_key it C k) (keys_of c ?d C) = Some ?k"
          using keys l(1) by (intro find_least [OF key_order_kdir [OF order] keys_of_sorted [OF order C]])
            (auto simp: live_key_def beyond_def)
        with l at' False \<open>mi_err (it_m it2) = None\<close> sg(4) show ?thesis by (simp add: lands_def)
      qed
      with step Inr sg wf2 fr2 e2 it1(5) show ?thesis
        by (intro exI [of _ it'] exI [of _ go]) (auto intro: scan_frame_trans)
    qed
  qed
qed

end

context child_source
begin

lemma advance_step_correct:
  assumes wf: "wf C (it_m it)" and fwd: "forward = (mi_dir (it_m it) > 0)" and mok: "mask_ok c it"
    and Q: "upward c (mi_dir (it_m it)) Q"
    and walk: "mi_err (it_m it) = None \<longrightarrow> at C (with_key Q (merged c (mi_dir (it_m it)) C)) (it_m it)"
  shows "\<exists>it' go. advance_step ops forward it = Some (Inr (it', go)) \<and> advanced forward C Q it it' go"
proof (cases "mi_err (it_m it) = None")
  case False
  from child_failed_some [OF False] obtain it' where
    it': "child_failed it = (it', True)" "scan_frame it it'" "it_m it' = it_m it" "it_mask it' = it_mask it" "it_err it' \<noteq> None"
    by blast
  have "advance_step ops forward it = Some (Inr (it'\<lparr>it_valid := False\<rparr>, False))" by (simp add: advance_step_def it'(1))
  then show ?thesis
    using it' wf mok by (intro exI [of _ "it'\<lparr>it_valid := False\<rparr>"] exI [of _ False]) (auto simp: scan_frame_def mask_ok_def)
next
  case True
  note at = walk [rule_format, OF True]
  show ?thesis
  proof (cases "with_key Q (merged c (mi_dir (it_m it)) C)")
    case Nil
    have "\<not> mi_valid (it_m it)" using walk_end [OF wf at [unfolded Nil]] by (simp add: mi_valid_def)
    then have step: "advance_step ops forward it = Some (Inr (it\<lparr>it_valid := False\<rparr>, False))"
      by (simp add: advance_step_def child_failed_def True)
    have "find (\<lambda>k. Q k \<and> live_key it C k) (keys_of c (mi_dir (it_m it)) C) = None"
      using Nil by (auto simp: find_None_iff set_keys_of filter_empty_conv)
    with step wf mok show ?thesis
      by (intro exI [of _ "it\<lparr>it_valid := False\<rparr>"] exI [of _ False]) (simp add: scan_frame_def mask_ok_def lands_def)
  next
    case (Cons x xs)
    show ?thesis by (rule advance_group [OF wf fwd mok Q True at [unfolded Cons] Cons])
  qed
qed

text \<open>The loop always comes to an end: every round leaves less of the walk.\<close>

lemma advance_loop_correct:
  assumes "wf C (it_m it)" and "forward = (mi_dir (it_m it) > 0)" and "mask_ok c it"
    and "upward c (mi_dir (it_m it)) Q"
    and "mi_err (it_m it) = None \<longrightarrow> at C (with_key Q (merged c (mi_dir (it_m it)) C)) (it_m it)"
  shows "\<exists>it'. advance_loop ops forward it = Some (Inr it') \<and> advanced forward C Q it it' False"
  using assms
proof (induction "merge_left c forward cur contents (it_m it)" arbitrary: it Q rule: less_induct)
  case less
  from advance_step_correct [OF less.prems] obtain it1 go where
    step: "advance_step ops forward it = Some (Inr (it1, go))" and adv: "advanced forward C Q it it1 go"
    by - (elim exE, erule conjE, rule that)
  show ?case
  proof (cases go)
    case False
    with step adv show ?thesis by (intro exI [of _ it1]) (simp add: advance_loop.simps)
  next
    case True
    have fr: "scan_frame it it1" "mask_ok c it1" "wf C (it_m it1)" "it_err it1 = None \<longrightarrow> it_err it = None"
      using adv by simp_all
    obtain k where left: "merge_left c forward cur contents (it_m it1) < merge_left c forward cur contents (it_m it)"
      and at: "at C (with_key (beyond c (mi_dir (it_m it)) k) (merged c (mi_dir (it_m it)) C)) (it_m it1)"
      and same: "\<forall>k' \<in> set (keys_of c (mi_dir (it_m it)) C).
               (Q k' \<and> live_key it C k') = (beyond c (mi_dir (it_m it)) k k' \<and> live_key it C k')"
      using adv True by (simp only: if_True) (elim exE conjE, rule that)
    have d: "mi_dir (it_m it1) = mi_dir (it_m it)" using fr(1) by (simp add: scan_frame_def)
    have live: "live_key it1 C = live_key it C" "key_result it1 C = key_result it C" "bound_ok forward it1 = bound_ok forward it"
      using scan_frame_result [OF fr(1)] frame_bound [OF fr(1)] by (auto simp: live_key_def fun_eq_iff)
    have "\<exists>it'. advance_loop ops forward it1 = Some (Inr it') \<and> advanced forward C (beyond c (mi_dir (it_m it)) k) it1 it' False"
      using less.prems(2) fr(2,3) at upward_beyond [OF order] left by (intro less.hyps) (simp_all add: d)
    then obtain it' where loop: "advance_loop ops forward it1 = Some (Inr it')"
      and adv': "advanced forward C (beyond c (mi_dir (it_m it)) k) it1 it' False"
      by - (elim exE, erule conjE, rule that)
    have "find (\<lambda>k'. beyond c (mi_dir (it_m it)) k k' \<and> live_key it C k') (keys_of c (mi_dir (it_m it)) C) =
        find (\<lambda>k'. Q k' \<and> live_key it C k') (keys_of c (mi_dir (it_m it)) C)"
      by (rule find_cong) (use same in simp_all)
    with adv' fr have "advanced forward C Q it it' False"
      using scan_frame_trans [OF fr(1), of it'] by (simp only: d live) simp
    moreover have "advance_loop ops forward it = Some (Inr it')"
      using step loop True by (simp add: advance_loop.simps [of _ _ it])
    ultimately show ?thesis by (intro exI [of _ it']) simp
  qed
qed

end

end
