(* ===== verification/Scan_View.thy ===== *)
theory Scan_View
  imports Scan_Walk
begin

text \<open>
  The contract of the public iterator of \<open>src/src/iterator.rs\<close>: whatever sequence of movements a
  client makes, the iterator stands where a cursor over the sorted list of the live keys would.
  The abstract cursor is \<open>view_apply\<close>; \<open>scan_move_apply\<close> is the client's call, which steps only an
  iterator that is valid.
\<close>

section \<open>The abstract cursor\<close>

datatype scan_move = MoveFirst | MoveLast | MoveSeek bytes | MoveSeekForPrev bytes | MoveNext | MovePrev

definition upper_ok :: "comparator \<Rightarrow> bytes bound \<Rightarrow> bytes \<Rightarrow> bool" where
  "upper_ok c up k = (case up of Unbounded \<Rightarrow> True
     | Included u \<Rightarrow> is_le (compare c k u) | Excluded u \<Rightarrow> is_lt (compare c k u))"

definition lower_ok :: "comparator \<Rightarrow> bytes bound \<Rightarrow> bytes \<Rightarrow> bool" where
  "lower_ok c lo k = (case lo of Unbounded \<Rightarrow> True
     | Included l \<Rightarrow> is_le (compare c l k) | Excluded l \<Rightarrow> is_lt (compare c l k))"

fun move_forward :: "scan_move \<Rightarrow> bool" where
  "move_forward MoveFirst = True"
| "move_forward (MoveSeek _) = True"
| "move_forward MoveNext = True"
| "move_forward _ = False"

fun move_steps :: "scan_move \<Rightarrow> bool" where
  "move_steps MoveNext = True"
| "move_steps MovePrev = True"
| "move_steps _ = False"

fun move_from :: "comparator \<Rightarrow> bytes bound \<times> bytes bound \<Rightarrow> scan_move \<Rightarrow> bytes \<Rightarrow> bytes \<Rightarrow> bool" where
  "move_from c b MoveFirst cur k = lower_ok c (fst b) k"
| "move_from c b MoveLast cur k = upper_ok c (snd b) k"
| "move_from c b (MoveSeek q) cur k = is_le (compare c q k)"
| "move_from c b (MoveSeekForPrev q) cur k = is_le (compare c k q)"
| "move_from c b MoveNext cur k = is_lt (compare c cur k)"
| "move_from c b MovePrev cur k = is_lt (compare c k cur)"

definition stop_ok :: "comparator \<Rightarrow> bytes bound \<times> bytes bound \<Rightarrow> bool \<Rightarrow> bytes \<Rightarrow> bool" where
  "stop_ok c b forward k = (if forward then upper_ok c (snd b) k else lower_ok c (fst b) k)"

definition view_stop :: "comparator \<Rightarrow> bytes bound \<times> bytes bound \<Rightarrow> bool \<Rightarrow> bytes option \<Rightarrow> bytes option" where
  "view_stop c b forward target =
     (case target of None \<Rightarrow> None | Some k \<Rightarrow> if stop_ok c b forward k then Some k else None)"

text \<open>\<open>K\<close> holds the keys in ascending order, and \<open>live\<close> says which of them have a value.\<close>

definition view_apply :: "comparator \<Rightarrow> bytes bound \<times> bytes bound \<Rightarrow> bytes list \<Rightarrow> (bytes \<Rightarrow> bool) \<Rightarrow> scan_move
    \<Rightarrow> bytes option \<Rightarrow> bytes option" where
  "view_apply c b K live m cur =
     (if move_steps m \<and> cur = None then None
      else view_stop c b (move_forward m)
        (find (\<lambda>k. move_from c b m (the cur) k \<and> live k) (if move_forward m then K else rev K)))"

definition view_run :: "comparator \<Rightarrow> bytes bound \<times> bytes bound \<Rightarrow> bytes list \<Rightarrow> (bytes \<Rightarrow> bool) \<Rightarrow> scan_move list
    \<Rightarrow> bytes option" where
  "view_run c b K live ms = foldl (\<lambda>cur m. view_apply c b K live m cur) None ms"

section \<open>The client's calls\<close>

definition scan_move_apply :: "'c child_ops \<Rightarrow> scan_move \<Rightarrow> 'c scan_iter \<Rightarrow> 'c scan_iter result option" where
  "scan_move_apply ops m it = (case m of
     MoveFirst \<Rightarrow> it_seek_to_first ops it
   | MoveLast \<Rightarrow> it_seek_to_last ops it
   | MoveSeek q \<Rightarrow> it_seek ops q it
   | MoveSeekForPrev q \<Rightarrow> it_seek_for_prev ops q it
   | MoveNext \<Rightarrow> if it_valid it then it_next ops it else Some (Inr it)
   | MovePrev \<Rightarrow> if it_valid it then it_prev ops it else Some (Inr it))"

fun scan_run :: "'c child_ops \<Rightarrow> scan_move list \<Rightarrow> 'c scan_iter \<Rightarrow> 'c scan_iter result option" where
  "scan_run ops [] it = Some (Inr it)"
| "scan_run ops (m # ms) it = Option.bind (scan_move_apply ops m it) (\<lambda>r. case r of
     Inl e \<Rightarrow> Some (Inl e) | Inr it \<Rightarrow> scan_run ops ms it)"

definition scan_result :: "comparator \<Rightarrow> merge_operator option \<Rightarrow> u64 \<Rightarrow> i64 \<Rightarrow> frag_cursor list \<Rightarrow> entry list list
    \<Rightarrow> bytes \<Rightarrow> bytes option result" where
  "scan_result c mop read_seq now msk C k =
     resolve_versions mop read_seq now (mask_cover (compare c) (map fc_window msk) k read_seq) k (versions c C k)"

section \<open>Seeks by user key\<close>

lemma seek_bound_key:
  assumes "user_key_order (compare c)" and "0 < e_seq e"
  shows "seek_bound c SeekFirst (entry_ikey e)" "seek_bound c SeekLast (entry_ikey e)"
    "seek_bound c (SeekGe k u64_max) (entry_ikey e) \<longleftrightarrow> is_le (compare c k (e_key e))"
    "seek_bound c (SeekGe k 0) (entry_ikey e) \<longleftrightarrow> is_lt (compare c k (e_key e))"
    "seek_bound c (SeekLe k 0) (entry_ikey e) \<longleftrightarrow> is_le (compare c (e_key e) k)"
proof -
  have rev: "compare c (e_key e) k = reverse_ord (compare c k (e_key e))"
    by (rule key_order.cmp_reverse [OF user_key_order.axioms [OF assms(1)]])
  have ord: "ord_cmp 0 (e_seq e) = Less" "ord_cmp (e_seq e) 0 = Greater" "is_ge (ord_cmp u64_max (e_seq e))"
    using assms(2) by (auto simp: ord_cmp_def ordering_tests dest: leD)
  note keys = seek_bound_def op_bound_def op_dir_def above_bound_def dir_cmp_def ikey_cmp_eq entry_ikey_def
  show "seek_bound c SeekFirst (entry_ikey e)" "seek_bound c SeekLast (entry_ikey e)"
    by (simp_all add: keys)
  show "seek_bound c (SeekGe k u64_max) (entry_ikey e) \<longleftrightarrow> is_le (compare c k (e_key e))"
    "seek_bound c (SeekGe k 0) (entry_ikey e) \<longleftrightarrow> is_lt (compare c k (e_key e))"
    "seek_bound c (SeekLe k 0) (entry_ikey e) \<longleftrightarrow> is_le (compare c (e_key e) k)"
    using ord by (cases "compare c k (e_key e)"; simp add: keys rev)+
qed

lemma upward_move:
  assumes "user_key_order (compare c)"
  shows "upward c (if move_forward m then 1 else - 1) (move_from c b m cur)"
proof -
  note order = user_key_order.axioms [OF assms]
  note trans = key_order.lt_le_trans [OF order] key_order.le_lt_trans [OF order] key_order.cmp_trans [OF order]
  show ?thesis
    by (cases m) (auto simp: upward_def kdir_def lower_ok_def upper_ok_def split: bound.splits intro: trans)
qed

lemma move_beyond:
  "move_from c b MoveNext k = beyond c 1 k" "move_from c b MovePrev k = beyond c (- 1) k"
  by (simp_all add: fun_eq_iff beyond_def kdir_def)

section \<open>The iterator follows the cursor\<close>

definition same_scan :: "'c scan_iter \<Rightarrow> 'c scan_iter \<Rightarrow> bool" where
  "same_scan it it' \<longleftrightarrow> it_read_seq it' = it_read_seq it \<and> it_now it' = it_now it \<and> it_lower it' = it_lower it
     \<and> it_upper it' = it_upper it \<and> it_merge_op it' = it_merge_op it \<and> map fc_window (it_mask it') = map fc_window (it_mask it)
     \<and> mi_cmp (it_m it') = mi_cmp (it_m it)"

lemma same_scan_result: "same_scan it it' \<Longrightarrow> key_result it' C = key_result it C"
  by (simp add: same_scan_def key_result_def group_cover_def fun_eq_iff)

lemma same_scan_frame: "same_scan it it1 \<Longrightarrow> scan_frame it1 it' \<Longrightarrow> same_scan it it'"
  by (simp add: same_scan_def scan_frame_def)

lemma bound_ok_stop:
  assumes "user_key_order (compare (mi_cmp (it_m it)))"
  shows "bound_ok forward it k = stop_ok (mi_cmp (it_m it)) (it_lower it, it_upper it) forward k"
proof -
  note order = user_key_order.axioms [OF assms]
  have cmp: "mi_key_cmp (mi_cmp (it_m it)) = compare (mi_cmp (it_m it))"
    by (simp add: fun_eq_iff mi_key_cmp_def is_bytewise_compare)
  show ?thesis
    by (simp add: bound_ok_def stop_ok_def past_upper_def below_lower_def upper_ok_def lower_ok_def cmp
        key_order.is_gt_iff [OF order] key_order.is_ge_iff [OF order] key_order.not_lt_iff [OF order, symmetric]
        split: bound.split)
qed

context child_source
begin

definition scan_sim :: "entry list list \<Rightarrow> 'c scan_iter \<Rightarrow> bytes option \<Rightarrow> 'c scan_iter \<Rightarrow> bool" where
  "scan_sim C it0 v it \<longleftrightarrow> same_scan it0 it \<and> mask_ok c it \<and> wf C (it_m it)
     \<and> (it_valid it \<longrightarrow> mi_err (it_m it) = None \<and>
          at C (with_key (beyond c (mi_dir (it_m it)) (it_key it)) (merged c (mi_dir (it_m it)) C)) (it_m it))
     \<and> (it_err it = None \<longrightarrow> (case v of None \<Rightarrow> \<not> it_valid it
          | Some k \<Rightarrow> it_valid it \<and> it_key it = k \<and> key_result it0 C k = Inr (Some (it_value it))))"

abbreviation key_list :: "bool \<Rightarrow> entry list list \<Rightarrow> bytes list" where
  "key_list forward C \<equiv> if forward then keys_of c 1 C else rev (keys_of c 1 C)"

lemma advance_sim:
  assumes same: "same_scan it0 it" and wf0: "wf C (it_m it)" and wf: "wf C m" and mok: "mask_ok c it" and d: "mi_dir m = (if forward then 1 else - 1)"
    and Q: "upward c (mi_dir m) Q" and walk: "mi_err m = None \<longrightarrow> at C (with_key Q (merged c (mi_dir m) C)) m"
    and pre: "it_err it = None \<longrightarrow> (\<forall>k. (Q k \<longleftrightarrow> P k))"
  shows "\<exists>it'. advance_loop ops forward (it\<lparr>it_m := m\<rparr>) = Some (Inr it') \<and> (it_err it' = None \<longrightarrow> it_err it = None)
    \<and> scan_sim C it0 (view_stop c (it_lower it0, it_upper it0) forward
        (find (\<lambda>k. P k \<and> key_result it0 C k \<noteq> Inr None) (key_list forward C))) it'"
proof -
  let ?it = "it\<lparr>it_m := m\<rparr>" and ?stop = "stop_ok c (it_lower it0, it_upper it0) forward"
  have cmp: "mi_cmp m = c" "mi_cmp (it_m it0) = c" and same1: "same_scan it0 ?it"
    using wf0 wf same by (simp_all add: merge_wf_def same_scan_def)
  have fwd: "forward = (mi_dir (it_m ?it) > 0)" and mok1: "mask_ok c ?it" using d mok by (simp_all add: mask_ok_def)
  have "\<exists>it'. advance_loop ops forward ?it = Some (Inr it') \<and> advanced forward C Q ?it it' False"
    using wf Q walk by (intro advance_loop_correct fwd mok1) simp_all
  then obtain it' where loop: "advance_loop ops forward ?it = Some (Inr it')" and adv: "advanced forward C Q ?it it' False"
    by - (elim exE, erule conjE, rule that)
  have fr: "scan_frame ?it it'" "mask_ok c it'" "wf C (it_m it')" "it_err it' = None \<longrightarrow> it_err it = None"
    and land: "it_err it' = None \<or> it_valid it' \<longrightarrow> landed forward C Q ?it it'"
    using adv by simp_all
  have keys: "keys_of c (mi_dir m) C = key_list forward C"
    using keys_of_backward [OF order wf_contents [OF wf]] by (simp add: d)
  have bnd: "bound_ok forward ?it = ?stop"
    using bound_ok_stop [of ?it forward] order cmp same by (simp add: fun_eq_iff same_scan_def)
  have live: "live_key ?it C k \<longleftrightarrow> key_result it0 C k \<noteq> Inr None" for k
    by (simp add: live_key_def same_scan_result [OF same1])
  have dir: "mi_dir (it_m it') = mi_dir m" using fr(1) by (simp add: scan_frame_def)
  have "scan_sim C it0 (view_stop c (it_lower it0, it_upper it0) forward
        (find (\<lambda>k. P k \<and> key_result it0 C k \<noteq> Inr None) (key_list forward C))) it'"
    unfolding scan_sim_def
  proof (intro conjI impI)
    show "same_scan it0 it'" by (rule same_scan_frame [OF same1 fr(1)])
    assume v: "it_valid it'"
    then show "mi_err (it_m it') = None"
      "at C (with_key (beyond c (mi_dir (it_m it')) (it_key it')) (merged c (mi_dir (it_m it')) C)) (it_m it')"
      using land dir by simp_all
  next
    assume e: "it_err it' = None"
    let ?t = "find (\<lambda>k. P k \<and> key_result it0 C k \<noteq> Inr None) (key_list forward C)"
    have "(\<lambda>k. Q k \<and> live_key ?it C k) = (\<lambda>k. P k \<and> key_result it0 C k \<noteq> Inr None)"
      using pre e fr(4) live by auto
    then have "lands ?stop (key_result it0 C) ?t it'"
      using land e by (simp add: bnd same_scan_result [OF same1] keys)
    then show "case view_stop c (it_lower it0, it_upper it0) forward ?t of None \<Rightarrow> \<not> it_valid it'
        | Some k \<Rightarrow> it_valid it' \<and> it_key it' = k \<and> key_result it0 C k = Inr (Some (it_value it'))"
      by (cases ?t) (auto simp: lands_def view_stop_def)
  qed (use fr in simp_all)
  with loop fr(4) show ?thesis by (intro exI [of _ it']) simp
qed

end

context child_source
begin

abbreviation follows :: "entry list list \<Rightarrow> 'c scan_iter \<Rightarrow> bool \<Rightarrow> (bytes \<Rightarrow> bool) \<Rightarrow> 'c scan_iter \<Rightarrow> 'c scan_iter result option \<Rightarrow> bool" where
  "follows C it0 forward P it r \<equiv> \<exists>it'. r = Some (Inr it') \<and> (it_err it' = None \<longrightarrow> it_err it = None)
    \<and> scan_sim C it0 (view_stop c (it_lower it0, it_upper it0) forward
        (find (\<lambda>k. P k \<and> key_result it0 C k \<noteq> Inr None) (key_list forward C))) it'"

lemma seek_sim:
  assumes sim: "scan_sim C it0 v it" and op: "\<not> op_moves op" "op_dir op = (if forward then 1 else - 1)"
    and bnd: "\<And>x. x \<in> set (merged c (op_dir op) C) \<Longrightarrow> seek_bound c op (entry_ikey (fst x)) = Q (e_key (fst x))"
    and Q: "upward c (op_dir op) Q" and pre: "it_err it = None \<longrightarrow> (\<forall>k. Q k \<longleftrightarrow> P k)"
  shows "follows C it0 forward P it (advance_loop ops forward (it\<lparr>it_m := mi_seek ops op (it_m it)\<rparr>))"
proof -
  have it: "same_scan it0 it" "wf C (it_m it)" "mask_ok c it" using sim by (simp_all add: scan_sim_def)
  have d: "mi_dir (mi_seek ops op (it_m it)) = op_dir op" by (simp add: mi_seek_def rebuild_fields)
  have "with_key Q (merged c (op_dir op) C) = filter (\<lambda>x. seek_bound c op (entry_ikey (fst x))) (merged c (op_dir op) C)"
    using bnd by (intro filter_cong) simp_all
  then have walk: "mi_err (mi_seek ops op (it_m it)) = None \<longrightarrow>
      at C (with_key Q (merged c (op_dir op) C)) (mi_seek ops op (it_m it))"
    using seek_walk [OF it(2) op(1)] by simp
  show ?thesis
    using Q walk op(2) by (intro advance_sim [OF it(1,2) seek_wf [OF it(2) op(1)] it(3) _ _ _ pre]) (simp_all add: d)
qed

lemma seek_lt_sim:
  assumes sim: "scan_sim C it0 v it" and pre: "it_err it = None \<longrightarrow> (\<forall>k'. is_lt (compare c k' k) \<longleftrightarrow> P k')"
  shows "follows C it0 False P it
    (Option.bind (map_option (\<lambda>m. it\<lparr>it_m := m\<rparr>) (mi_seek_lt ops k (it_m it))) (advance_loop ops False))"
proof -
  have it: "same_scan it0 it" "wf C (it_m it)" "mask_ok c it" using sim by (simp_all add: scan_sim_def)
  from seek_lt_walk [OF it(2), of k] obtain m where m: "mi_seek_lt ops k (it_m it) = Some m" "wf C m" "mi_dir m = - 1"
    and walk: "mi_err m = None \<longrightarrow> mi_err (it_m it) = None \<and> at C (filter (\<lambda>x. below_key c k (fst x)) (merged c (- 1) C)) m"
    by - (elim exE conjE, rule that)
  have Q: "upward c (- 1) (\<lambda>k'. is_lt (compare c k' k))"
    using upward_beyond [OF order, of "- 1" k] by (simp add: beyond_def [abs_def] kdir_def)
  have "follows C it0 False P it (advance_loop ops False (it\<lparr>it_m := m\<rparr>))"
    using m(3) walk Q by (intro advance_sim [OF it(1,2) m(2) it(3) _ _ _ pre]) (simp_all add: below_key_def)
  then show ?thesis by (simp add: m(1))
qed

lemma step_sim:
  assumes sim: "scan_sim C it0 v it" and d: "mi_dir (it_m it) = (if forward then 1 else - 1)" and valid: "it_valid it"
    and pre: "it_err it = None \<longrightarrow> (\<forall>k. beyond c (mi_dir (it_m it)) (it_key it) k \<longleftrightarrow> P k)"
  shows "follows C it0 forward P it (advance_loop ops forward it)"
proof -
  have it: "same_scan it0 it" "wf C (it_m it)" "mask_ok c it" using sim by (simp_all add: scan_sim_def)
  have walk: "mi_err (it_m it) = None \<longrightarrow> at C (with_key (beyond c (mi_dir (it_m it)) (it_key it)) (merged c (mi_dir (it_m it)) C)) (it_m it)"
    using sim valid by (simp add: scan_sim_def)
  have "follows C it0 forward P it (advance_loop ops forward (it\<lparr>it_m := it_m it\<rparr>))"
    by (rule advance_sim [OF it(1,2,2,3) d upward_beyond [OF order] walk pre])
  then show ?thesis by simp
qed

end

context child_source
begin

lemma first_sim:
  assumes sim: "scan_sim C it0 v it" and seqs: "\<And>x. x \<in> set (merged c 1 C) \<Longrightarrow> 0 < e_seq (fst x)"
  shows "follows C it0 True (move_from c (it_lower it0, it_upper it0) MoveFirst k) it (it_seek_to_first ops it)"
proof -
  have lo: "it_lower it = it_lower it0" using sim by (simp add: scan_sim_def same_scan_def)
  note key = seek_bound_key [OF order seqs]
  have Q: "upward c 1 (lower_ok c (it_lower it0))"
    using upward_move [OF order, of MoveFirst "(it_lower it0, it_upper it0)"] by (simp add: upward_def)
  obtain op where op: "\<not> op_moves op" "op_dir op = 1"
      "it_seek_to_first ops it = advance_loop ops True (it\<lparr>it_m := mi_seek ops op (it_m it)\<rparr>)"
      "\<And>x. x \<in> set (merged c 1 C) \<Longrightarrow> seek_bound c op (entry_ikey (fst x)) = lower_ok c (it_lower it0) (e_key (fst x))"
  proof (cases "it_lower it0")
    case (Included l)
    show ?thesis
      by (rule that [of "SeekGe l u64_max"])
        (simp_all add: op_moves_def op_dir_def it_seek_to_first_def advance_forward_def lo Included mi_seek_cases key lower_ok_def)
  next
    case (Excluded l)
    show ?thesis
      by (rule that [of "SeekGe l 0"])
        (simp_all add: op_moves_def op_dir_def it_seek_to_first_def advance_forward_def lo Excluded mi_seek_cases key lower_ok_def)
  next
    case Unbounded
    show ?thesis
      by (rule that [of SeekFirst])
        (simp_all add: op_moves_def op_dir_def it_seek_to_first_def advance_forward_def lo Unbounded mi_seek_cases key lower_ok_def)
  qed
  show ?thesis
    unfolding op(3) using Q op(4) by (intro seek_sim [OF sim op(1), where Q = "lower_ok c (it_lower it0)"]) (simp_all add: op(2))
qed

lemma last_sim:
  assumes sim: "scan_sim C it0 v it" and seqs: "\<And>x. x \<in> set (merged c (- 1) C) \<Longrightarrow> 0 < e_seq (fst x)"
  shows "follows C it0 False (move_from c (it_lower it0, it_upper it0) MoveLast k) it (it_seek_to_last ops it)"
proof -
  have up: "it_upper it = it_upper it0" using sim by (simp add: scan_sim_def same_scan_def)
  note key = seek_bound_key [OF order seqs]
  have Q: "upward c (- 1) (upper_ok c (it_upper it0))"
    using upward_move [OF order, of MoveLast "(it_lower it0, it_upper it0)"] by (simp add: upward_def)
  note defs = it_seek_to_last_def advance_backward_def up mi_seek_cases
  show ?thesis
  proof (cases "it_upper it0")
    case (Included u)
    have e: "it_seek_to_last ops it = advance_loop ops False (it\<lparr>it_m := mi_seek ops (SeekLe u 0) (it_m it)\<rparr>)"
      by (simp add: defs Included)
    show ?thesis
      unfolding e using Q by (intro seek_sim [OF sim, where Q = "upper_ok c (it_upper it0)"])
        (simp_all add: op_moves_def op_dir_def key upper_ok_def Included)
  next
    case Unbounded
    have e: "it_seek_to_last ops it = advance_loop ops False (it\<lparr>it_m := mi_seek ops (SeekLast) (it_m it)\<rparr>)"
      by (simp add: defs Unbounded)
    show ?thesis
      unfolding e using Q by (intro seek_sim [OF sim, where Q = "upper_ok c (it_upper it0)"])
        (simp_all add: op_moves_def op_dir_def key upper_ok_def Unbounded)
  next
    case (Excluded u)
    have "it_seek_to_last ops it =
        Option.bind (map_option (\<lambda>m. it\<lparr>it_m := m\<rparr>) (mi_seek_lt ops u (it_m it))) (advance_loop ops False)"
      by (cases "mi_seek_lt ops u (it_m it)") (simp_all add: defs Excluded)
    with seek_lt_sim [OF sim, of u] show ?thesis by (simp add: Excluded upper_ok_def)
  qed
qed

end

context child_source
begin

lemma next_sim:
  assumes sim: "scan_sim C it0 v it" and valid: "it_valid it" and seqs: "\<And>x. x \<in> set (merged c 1 C) \<Longrightarrow> 0 < e_seq (fst x)"
  shows "follows C it0 True (move_from c b MoveNext (the v)) it (it_next ops it)"
proof -
  have v: "it_err it = None \<longrightarrow> v = Some (it_key it)" and d: "mi_dir (it_m it) \<in> {1, - 1}"
    using sim valid by (auto simp: scan_sim_def merge_wf_def split: option.splits)
  have Q: "upward c 1 (beyond c 1 (it_key it))" by (rule upward_beyond [OF order])
  show ?thesis
  proof (cases "mi_dir (it_m it) < 0")
    case True
    have e: "it_next ops it = advance_loop ops True (it\<lparr>it_m := mi_seek ops (SeekGe (it_key it) 0) (it_m it)\<rparr>)"
      using True valid by (simp add: it_next_def advance_forward_def mi_seek_cases)
    show ?thesis
      unfolding e using Q v by (intro seek_sim [OF sim, where Q = "beyond c 1 (it_key it)"])
        (simp_all add: op_moves_def op_dir_def seek_bound_key [OF order seqs] beyond_def kdir_def)
  next
    case False
    then have "mi_dir (it_m it) = 1" "it_next ops it = advance_loop ops True it"
      using d by (auto simp: it_next_def advance_forward_def)
    with step_sim [OF sim _ valid, of True "move_from c b MoveNext (the v)"] v show ?thesis
      by (simp add: beyond_def kdir_def)
  qed
qed

lemma prev_sim:
  assumes sim: "scan_sim C it0 v it" and valid: "it_valid it"
  shows "follows C it0 False (move_from c b MovePrev (the v)) it (it_prev ops it)"
proof -
  have v: "it_err it = None \<longrightarrow> v = Some (it_key it)" and d: "mi_dir (it_m it) \<in> {1, - 1}"
    using sim valid by (auto simp: scan_sim_def merge_wf_def split: option.splits)
  show ?thesis
  proof (cases "mi_dir (it_m it) > 0")
    case True
    then have e: "it_prev ops it = Option.bind (map_option (\<lambda>m. it\<lparr>it_m := m\<rparr>) (mi_seek_lt ops (it_key it) (it_m it)))
        (advance_loop ops False)"
      using valid by (simp add: it_prev_def advance_backward_def [abs_def])
    show ?thesis unfolding e using v by (intro seek_lt_sim [OF sim]) simp
  next
    case False
    then have "mi_dir (it_m it) = - 1" "it_prev ops it = advance_loop ops False it"
      using d by (auto simp: it_prev_def advance_backward_def)
    with step_sim [OF sim _ valid, of False "move_from c b MovePrev (the v)"] v show ?thesis
      by (simp add: beyond_def kdir_def)
  qed
qed

abbreviation view :: "entry list list \<Rightarrow> 'c scan_iter \<Rightarrow> scan_move \<Rightarrow> bytes option \<Rightarrow> bytes option" where
  "view C it0 \<equiv> view_apply c (it_lower it0, it_upper it0) (keys_of c 1 C) (\<lambda>k. key_result it0 C k \<noteq> Inr None)"

lemma move_sim:
  assumes sim: "scan_sim C it0 v it" and seqs: "\<forall>L \<in> set C. \<forall>e \<in> set L. 0 < e_seq e"
  shows "\<exists>it'. scan_move_apply ops m it = Some (Inr it') \<and> (it_err it' = None \<longrightarrow> it_err it = None)
    \<and> scan_sim C it0 (view C it0 m v) it'"
proof -
  have pos: "0 < e_seq (fst x)" if "x \<in> set (merged c d C)" for x d
    using that seqs nth_mem unfolding set_merged by fastforce
  let ?b = "(it_lower it0, it_upper it0)"
  have stay: ?thesis if "move_steps m" "\<not> it_valid it"
  proof (intro exI [of _ it] conjI impI)
    show "scan_move_apply ops m it = Some (Inr it)" using that by (cases m) (simp_all add: scan_move_apply_def)
    have "it_err it = None \<longrightarrow> v = None" using sim that(2) by (auto simp: scan_sim_def split: option.splits)
    then show "scan_sim C it0 (view C it0 m v) it" using sim that by (auto simp: scan_sim_def view_apply_def)
  qed
  have go: ?thesis if fol: "follows C it0 (move_forward m) (move_from c ?b m (the v)) it (scan_move_apply ops m it)"
    and stp: "move_steps m \<longrightarrow> it_valid it"
  proof -
    obtain it' where it': "scan_move_apply ops m it = Some (Inr it')" "it_err it' = None \<longrightarrow> it_err it = None"
      "scan_sim C it0 (view_stop c ?b (move_forward m)
        (find (\<lambda>k. move_from c ?b m (the v) k \<and> key_result it0 C k \<noteq> Inr None) (key_list (move_forward m) C))) it'"
      using fol by - (elim exE conjE, rule that)
    have "scan_sim C it0 (view C it0 m v) it'"
    proof (cases "move_steps m \<and> v = None")
      case True
      then have "it_err it \<noteq> None" using sim stp by (auto simp: scan_sim_def)
      with it'(2) have "it_err it' \<noteq> None" by auto
      then show ?thesis using it'(3) by (cases "it_err it'") (simp_all add: scan_sim_def)
    next
      case False
      with it'(3) show ?thesis unfolding view_apply_def by (simp only: if_False)
    qed
    with it' show ?thesis by (intro exI [of _ it']) simp
  qed
  have seek: "upward c (if move_forward m then 1 else - 1) (move_from c ?b m (the v))" by (rule upward_move [OF order])
  show ?thesis
  proof (cases m)
    case MoveFirst
    with go first_sim [OF sim pos, where k = "the v"] show ?thesis by (simp add: scan_move_apply_def)
  next
    case MoveLast
    with go last_sim [OF sim pos, where k = "the v"] show ?thesis by (simp add: scan_move_apply_def)
  next
    case (MoveSeek q)
    have "follows C it0 True (move_from c ?b m (the v)) it (advance_loop ops True (it\<lparr>it_m := mi_seek ops (SeekGe q u64_max) (it_m it)\<rparr>))"
      using seek MoveSeek by (intro seek_sim [OF sim, where Q = "move_from c ?b m (the v)"])
        (simp_all add: op_moves_def op_dir_def seek_bound_key [OF order pos])
    with go MoveSeek show ?thesis by (simp add: scan_move_apply_def it_seek_def advance_forward_def mi_seek_cases)
  next
    case (MoveSeekForPrev q)
    have "follows C it0 False (move_from c ?b m (the v)) it (advance_loop ops False (it\<lparr>it_m := mi_seek ops (SeekLe q 0) (it_m it)\<rparr>))"
      using seek MoveSeekForPrev by (intro seek_sim [OF sim, where Q = "move_from c ?b m (the v)"])
        (simp_all add: op_moves_def op_dir_def seek_bound_key [OF order pos])
    with go MoveSeekForPrev show ?thesis by (simp add: scan_move_apply_def it_seek_for_prev_def advance_backward_def mi_seek_cases)
  next
    case MoveNext
    with go stay next_sim [OF sim _ pos, where b = ?b] show ?thesis by (cases "it_valid it") (simp_all add: scan_move_apply_def)
  next
    case MovePrev
    with go stay prev_sim [OF sim, where b = ?b] show ?thesis by (cases "it_valid it") (simp_all add: scan_move_apply_def)
  qed
qed

end

context child_source
begin

lemma run_sim:
  assumes seqs: "\<forall>L \<in> set C. \<forall>e \<in> set L. 0 < e_seq e" and "scan_sim C it0 v it"
  shows "\<exists>it'. scan_run ops ms it = Some (Inr it') \<and> (it_err it' = None \<longrightarrow> it_err it = None)
    \<and> scan_sim C it0 (foldl (\<lambda>cur m. view C it0 m cur) v ms) it'"
  using assms(2)
proof (induction ms arbitrary: v it)
  case (Cons m ms)
  from move_sim [OF Cons.prems seqs, where m = m] obtain it1 where
    it1: "scan_move_apply ops m it = Some (Inr it1)" "it_err it1 = None \<longrightarrow> it_err it = None"
      "scan_sim C it0 (view C it0 m v) it1"
    by - (elim exE conjE, rule that)
  from Cons.IH [OF it1(3)] obtain it' where
    it': "scan_run ops ms it1 = Some (Inr it')" "it_err it' = None \<longrightarrow> it_err it1 = None"
      "scan_sim C it0 (foldl (\<lambda>cur m. view C it0 m cur) (view C it0 m v) ms) it'"
    by - (elim exE conjE, rule that)
  then show ?case using it1 by (intro exI [of _ it']) auto
qed auto

lemma fresh_sim:
  fixes mop :: "merge_operator option" and rs :: u64 and now :: i64 and b :: "bytes bound \<times> bytes bound"
  assumes "\<forall>x \<in> set kids. ok x \<and> cur x = None" and "\<forall>s \<in> set msk. source_ok (compare c) s"
  defines "it \<equiv> with_merge_operator mop (it_new c kids rs now b msk)"
  shows "scan_sim (map contents kids) it None it"
    and "it_err it = None" "(it_lower it, it_upper it) = b" "key_result it C = scan_result c mop rs now msk C"
  using assms valid_iff nth_mem
  by (force simp: scan_sim_def same_scan_def merge_wf_def mask_ok_def it_new_def mi_new_def with_merge_operator_def
      key_result_def group_cover_def scan_result_def fun_eq_iff)+

lemma scan_run_view:
  assumes kids: "\<forall>x \<in> set kids. ok x \<and> cur x = None \<and> (\<forall>e \<in> set (contents x). 0 < e_seq e)"
    and msk: "\<forall>s \<in> set msk. source_ok (compare c) s"
  shows "\<exists>it. scan_run ops ms (with_merge_operator mop (it_new c kids rs now b msk)) = Some (Inr it)
    \<and> (it_err it = None \<longrightarrow>
        (case view_run c b (keys_of c 1 (map contents kids))
             (\<lambda>k. scan_result c mop rs now msk (map contents kids) k \<noteq> Inr None) ms of
           None \<Rightarrow> \<not> it_valid it
         | Some k \<Rightarrow> it_valid it \<and> it_key it = k
             \<and> scan_result c mop rs now msk (map contents kids) k = Inr (Some (it_value it))))"
proof -
  let ?C = "map contents kids" and ?it0 = "with_merge_operator mop (it_new c kids rs now b msk)"
  have fresh_kids: "\<forall>x \<in> set kids. ok x \<and> cur x = None" and seqs: "\<forall>L \<in> set ?C. \<forall>e \<in> set L. 0 < e_seq e"
    using kids by auto
  note fresh = fresh_sim [OF fresh_kids msk, of mop rs now b]
  from run_sim [OF seqs fresh(1), where ms = ms] obtain it where
    run: "scan_run ops ms ?it0 = Some (Inr it)" and
    sim: "scan_sim ?C ?it0 (foldl (\<lambda>cur m. view ?C ?it0 m cur) None ms) it"
    by - (elim exE conjE, rule that)
  show ?thesis
    using sim unfolding scan_sim_def fresh(3,4) view_run_def
    by (intro exI [of _ it] conjI run) (elim conjE)
qed

end


section \<open>Scanning memtables\<close>

text \<open>A fresh iterator over a memtable is a child whose contents are the memtable's snapshot.\<close>

lemma fresh_memtable:
  assumes c: "user_key_order (compare (mt_cmp m))" and m: "mem_holds ops hash hist m" and k: "kinds_ok hist"
  shows "mem_ok ops (mt_cmp m) (mm_new m)" and "mem_current (mm_new m) = None"
    and "mem_contents ops (mt_cmp m) (mm_new m) = mem_snapshot ops m"
proof -
  note runs = holds_runs [OF c m] and order = key_order_ikey_cmp [OF c]
  have maps: "map sc_map (mm_shards (mm_new m)) = shards m" by (simp add: mm_new_def comp_def)
  have rows: "mem_rows ops (mt_cmp m) (shards m) = ordered_puts (ikey_cmp (mt_cmp m)) hist"
    by (rule key_order.sorted_on_unique [OF order, where f = fst])
      (use mem_rows_sorted [OF c runs(1)] ordered_puts_sorted [OF order] runs(2) in simp_all)
  have "flags_match x" if x: "x \<in> set (ordered_puts (ikey_cmp (mt_cmp m)) hist)" for x
  proof -
    obtain r where r: "r \<in> current hist" "x = (entry_ikey r, val_of r)"
      using x by (auto simp: set_ordered_puts [OF order])
    then have "entry_of x = r" using k by (auto simp: kinds_ok_def current_def intro!: entry_of_val)
    then show ?thesis using r(2) by (simp add: flags_match_def tombstone_flag)
  qed
  moreover have "mm_sim ops (mt_cmp m) (shards m) (mm_new m)"
    using maps by (simp add: mm_sim_def mm_new_def)
  ultimately show "mem_ok ops (mt_cmp m) (mm_new m)"
    using runs(1) by (simp add: mem_ok_def maps rows)
  show "mem_current (mm_new m) = None" by (simp add: mem_current_def mm_new_def mm_top_def)
  show "mem_contents ops (mt_cmp m) (mm_new m) = mem_snapshot ops m"
    by (simp add: mem_contents_def maps rows snapshot_puts [OF c m k])
qed

text \<open>Two memtables, a merge operand on key 2 and a range delete over key 3.\<close>

definition sample_late :: "mem_op list" where
  "sample_late =
     [MPut \<lparr>e_key = [2], e_value = [21], e_seq = 6, e_ttl = 0, e_kind = KIND_MERGE\<rparr>,
      MBatch [\<lparr>e_key = [3], e_value = [30], e_seq = 7, e_ttl = 0, e_kind = KIND_PUT\<rparr>,
              \<lparr>e_key = [4], e_value = [40], e_seq = 8, e_ttl = 0, e_kind = KIND_PUT\<rparr>]]"

definition sample_masks :: "frag_cursor list" where
  "sample_masks = [\<lparr>fc_frags = [\<lparr>fr_start = [3], fr_end = [4], fr_seqs = [9]\<rparr>],
     fc_idx = 0, fc_start = 0, fc_stop = 1, fc_prefix = None\<rparr>]"

definition append_operator :: merge_operator where
  "append_operator k base operands = Inr (concat ((case base of None \<Rightarrow> [] | Some v \<Rightarrow> v) # operands))"

abbreviation sample_memtable :: "mem_op list \<Rightarrow> (ikey \<times> val) list memtable" where
  "sample_memtable os \<equiv> mem_run list_ops (\<lambda>k. 0) Bytewise os"

lemma samples_ok:
  "kinds_ok (history sample_ops)" "kinds_ok (history sample_late)"
  "\<forall>r \<in> set (history sample_ops) \<union> set (history sample_late). 0 < e_seq r"
  "\<forall>s \<in> set sample_masks. source_ok (compare Bytewise) s"
  by (simp_all add: sample_ops_def sample_late_def history_def kinds_ok_def kind_defs sample_masks_def source_ok_def
      frags_wf_def frag_wf_def ord_cmp_def)

lemma sample_child:
  assumes "kinds_ok (history os)"
  shows "mem_ok list_ops Bytewise (mm_new (sample_memtable os))" "mem_current (mm_new (sample_memtable os)) = None"
    "mem_contents list_ops Bytewise (mm_new (sample_memtable os)) = map entry_of (ordered_puts (ikey_cmp Bytewise) (history os))"
    "mem_snapshot list_ops (sample_memtable os) = map entry_of (ordered_puts (ikey_cmp Bytewise) (history os))"
    "set (map entry_of (ordered_puts (ikey_cmp Bytewise) (history os))) \<subseteq> set (history os)"
  using mem_run_holds [OF bytewise.user_key_order_axioms list_map.skip_map_axioms, of "\<lambda>k. 0" os] assms
    fresh_memtable [of "sample_memtable os" list_ops "\<lambda>k. 0" "history os"]
    snapshot_puts [of "sample_memtable os" list_ops "\<lambda>k. 0" "history os"]
    entries_of_puts(2) [OF key_order_ikey_cmp [OF bytewise.user_key_order_axioms], of "history os"]
    bytewise.user_key_order_axioms
  by (auto simp: current_def)

definition sample_lists :: "entry list list" where
  "sample_lists = map (\<lambda>os. map entry_of (ordered_puts (ikey_cmp Bytewise) (history os))) [sample_late, sample_ops]"

lemma sample_view:
  "view_run Bytewise (Included [2], Unbounded) (keys_of Bytewise 1 sample_lists)
     (\<lambda>k. scan_result Bytewise (Some append_operator) 10 0 sample_masks sample_lists k \<noteq> Inr None)
     [MoveLast, MovePrev] = Some [2]"
  "scan_result Bytewise (Some append_operator) 10 0 sample_masks sample_lists [2] = Inr (Some [20, 21])"
  by code_simp+


end
