(* ===== verification/Scan_Quiet.thy ===== *)
theory Scan_Quiet
  imports Scan_View
begin

text \<open>
  When the public iterator of \<open>src/src/iterator.rs\<close> reports an error: only when a child fails or
  the merge operator does. Over memtables, whose iterators cannot fail, a scan is therefore
  exactly the cursor of theory \<open>Scan_View\<close> over what the memtables hold.
\<close>

section \<open>No child fails, no error\<close>

definition quiet_children :: "'c child_ops \<Rightarrow> bool" where
  "quiet_children ops \<longleftrightarrow> (\<forall>x. ch_err ops x = None \<and> (\<exists>v. ch_value_into ops x = Inr v))"

definition total_operator :: "merge_operator \<Rightarrow> bool" where
  "total_operator f \<longleftrightarrow> (\<forall>k b xs. \<exists>v. f k b xs = Inr v)"

definition clean :: "'c scan_iter \<Rightarrow> bool" where
  "clean it \<longleftrightarrow> it_err it = None \<and> mi_err (it_m it) = None \<and> (\<forall>f. it_merge_op it = Some f \<longrightarrow> total_operator f)"

lemma clean_update [simp]:
  "clean (it\<lparr>it_cur_val := v\<rparr>) = clean it" "clean (it\<lparr>it_val := x\<rparr>) = clean it" "clean (it\<lparr>it_key := x\<rparr>) = clean it"
  "clean (it\<lparr>it_operands := x\<rparr>) = clean it" "clean (it\<lparr>it_operand_spans := s\<rparr>) = clean it"
  "clean (it\<lparr>it_mask := m\<rparr>) = clean it" "clean (it\<lparr>it_valid := b\<rparr>) = clean it" "clean (clear_operands it) = clean it"
  by (simp_all add: clean_def clear_operands_def)

lemma quiet_err: "quiet_children ops \<Longrightarrow> ch_err ops x = None"
  by (simp add: quiet_children_def)

lemma quiet_value:
  assumes "quiet_children ops"
  obtains v where "ch_value_into ops x = Inr v"
  using assms unfolding quiet_children_def by blast

lemma quiet_rebuild: "quiet_children ops \<Longrightarrow> mi_err (mi_rebuild ops s) = None \<longleftrightarrow> mi_err s = None"
  by (simp add: rebuild_fields quiet_err)

lemma quiet_seek: "quiet_children ops \<Longrightarrow> mi_err (mi_seek ops op s) = None \<longleftrightarrow> mi_err s = None"
  by (simp add: mi_seek_def quiet_rebuild)

lemma quiet_seek_lt: "quiet_children ops \<Longrightarrow> mi_seek_lt ops k s = Some t \<Longrightarrow> mi_err t = None \<longleftrightarrow> mi_err s = None"
  by (auto simp: mi_seek_lt_def quiet_rebuild)

lemma quiet_advance: "quiet_children ops \<Longrightarrow> mi_err (mi_advance ops forward s) = None \<longleftrightarrow> mi_err s = None"
  by (cases "mi_heap s = []") (simp_all add: advance_empty advance_fields(5) quiet_err)

lemma quiet_step_merge: "quiet_children ops \<Longrightarrow> clean it \<Longrightarrow> clean (step_merge ops forward it)"
  by (simp add: clean_def step_merge_def quiet_advance)

lemma quiet_capture:
  assumes "quiet_children ops" and "clean it" and "capture_value ops it = (it', r)"
  shows "clean it' \<and> r = Inr ()"
proof -
  obtain v where "ch_value_into ops (mi_top (it_m it)) = Inr v" by (rule quiet_value [OF assms(1)])
  with assms(2,3) show ?thesis by (auto simp: capture_value_def Let_def split: option.splits)
qed

lemma quiet_push:
  assumes "quiet_children ops" and "clean it" and "push_operand ops seq it = (it', r)"
  shows "clean it' \<and> r = Inr ()"
proof -
  obtain v where "ch_value_into ops (mi_top (it_m it)) = Inr v" by (rule quiet_value [OF assms(1)])
  with assms(2,3) show ?thesis by (auto simp: push_operand_def)
qed

lemma quiet_plain:
  assumes "quiet_children ops" and "clean it" and "plain_step ops it v = (it', r)"
  shows "clean it' \<and> \<not> isl r"
proof -
  obtain it1 where "capture_value ops it = (it1, Inr ())" "clean it1"
    using quiet_capture [OF assms(1,2)] by (cases "capture_value ops it") simp
  with assms(2,3) show ?thesis by (auto simp: plain_step_def Let_def split: prod.splits version_decision.splits)
qed

lemma quiet_merging:
  assumes "quiet_children ops" and "clean it" and "merging_step ops forward it s = (it', r)"
  shows "clean it' \<and> \<not> isl r"
proof -
  let ?t = "mi_top (it_m it)"
  obtain v l where s: "s = (v, l)" by fastforce
  obtain it1 where cap: "capture_value ops it = (it1, Inr ())" "clean it1"
    using quiet_capture [OF assms(1,2)] by (cases "capture_value ops it") simp
  obtain it2 where push: "push_operand ops (ch_seq ops ?t) it = (it2, Inr ())" "clean it2"
    using quiet_push [OF assms(1,2)] by (cases "push_operand ops (ch_seq ops ?t) it") simp
  obtain d v' where vv: "vv_consider (ch_seq ops ?t) (ch_tombstone ops ?t) (ch_ttl ops ?t) (it_read_seq it) v = (d, v')" by fastforce
  show ?thesis
    using assms(2,3) cap push by (cases d) (auto simp: merging_step_def Let_def s vv split: if_splits)
qed

lemma quiet_group_loop:
  assumes quiet: "quiet_children ops"
    and step: "\<And>it s it' r. clean it \<Longrightarrow> step it s = (it', r) \<Longrightarrow> clean it' \<and> \<not> isl r"
    and loop: "group_loop ops forward step it s = Some (it', r)" and clean: "clean it"
  shows "clean it' \<and> \<not> isl r"
proof -
  let ?P = "\<lambda>o' f st i s y. o' = ops \<longrightarrow> st = step \<longrightarrow> clean i \<longrightarrow> clean (fst y) \<and> \<not> isl (snd y)"
  have "?P ops forward step it s (it', r)"
  proof (rule group_loop.raw_induct [where P = ?P, OF _ loop], intro impI)
    fix loop o' f st i s y
    assume IH: "\<And>o' f st i s y. loop o' f st i s = Some y \<Longrightarrow> ?P o' f st i s y"
      and body: "(if \<not> top_in_group o' i then Some (i, Inr s)
        else case st i s of (i, Inl e) \<Rightarrow> Some (i, Inl e) | (i, Inr s) \<Rightarrow> loop o' f st (step_merge o' f i) s) = Some y"
      and eq: "o' = ops" "st = step" and i: "clean i"
    obtain i' r' where st: "step i s = (i', r')" by fastforce
    then have i': "clean i'" "\<not> isl r'" using step [OF i] by auto
    then obtain s' where r': "r' = Inr s'" by (cases r') auto
    show "clean (fst y) \<and> \<not> isl (snd y)"
    proof (cases "top_in_group ops i")
      case True
      then have "loop ops f step (step_merge ops f i') s' = Some y" using body eq st r' by simp
      from IH [OF this] show ?thesis using quiet_step_merge [OF quiet i'(1)] by simp
    qed (use body eq i in auto)
  qed
  with clean show ?thesis by simp
qed

lemma quiet_fold:
  assumes "total_operator f" and "clean it" and "fold_group f v forward cover it = (it', r)"
  shows "clean it' \<and> \<not> isl r"
proof -
  have op: "\<exists>w. f k b xs = Inr w" for k b xs using assms(1) by (simp add: total_operator_def)
  have spans: "clean (case cover of Some c \<Rightarrow> it\<lparr>it_operand_spans := F c\<rparr> | None \<Rightarrow> it)" for F
    using assms(2) by (simp split: option.split)
  show ?thesis
    using assms(3) spans unfolding fold_group_def Let_def
    by (auto split: if_splits sum.splits) (use op in \<open>metis sum.distinct(1)\<close>)+
qed

lemma quiet_resolve:
  assumes quiet: "quiet_children ops" and "clean it" and "resolve_current_group ops forward it = Some (Inr (it', r))"
  shows "clean it' \<and> \<not> isl r"
proof (cases "it_merge_op it")
  case None
  have loop: "group_loop ops forward (plain_step ops) (it\<lparr>it_cur_val := CEmpty\<rparr>) vv_default = Some (it', r)"
    using None assms(3) by (simp add: resolve_current_group_def)
  show ?thesis by (rule quiet_group_loop [OF quiet quiet_plain [OF quiet] loop]) (simp_all add: assms(2))
next
  case (Some f)
  obtain it1 r1 where loop: "group_loop ops forward (merging_step ops forward) (clear_operands (it\<lparr>it_cur_val := CEmpty\<rparr>))
      (vv_default, None) = Some (it1, r1)"
    and rest: "(case r1 of Inl e \<Rightarrow> Inr (it1, Inl e) | Inr (visible, _) \<Rightarrow>
       if it_operand_spans it1 = [] then Inr (it1, Inr visible)
       else rbind (group_covering_seq it1) (\<lambda>(it, cover). Inr (fold_group f visible forward cover it))) = Inr (it', r)"
    using assms(3) Some by (auto simp: resolve_current_group_def resolve_merging_group_def)
  have it1: "clean it1 \<and> \<not> isl r1"
    by (rule quiet_group_loop [OF quiet quiet_merging [OF quiet] loop]) (simp_all add: assms(2))
  then obtain v l where r1: "r1 = Inr (v, l)" by (cases r1) auto
  show ?thesis
  proof (cases "it_operand_spans it1 = []")
    case False
    then obtain it2 cover where g: "group_covering_seq it1 = Inr (it2, cover)" "fold_group f v forward cover it2 = (it', r)"
      using rest r1 by (cases "group_covering_seq it1") auto
    have "clean it2" using it1 g(1) by (cases "mask_covering_seq (compare (mi_cmp (it_m it1))) (it_key it1) (it_read_seq it1) (it_mask it1)")
      (auto simp: group_covering_seq_def split: if_splits)
    moreover have "total_operator f" using assms(2) Some by (simp add: clean_def)
    ultimately show ?thesis using quiet_fold g(2) by blast
  qed (use rest r1 it1 in auto)
qed

lemma quiet_surface:
  assumes "clean it" and "surface_group forward it v = Inr (it', go)"
  shows "clean it'"
proof -
  have nf: "child_failed it = (it, False)" using assms(1) by (simp add: child_failed_def clean_def)
  have "clean it2" if "group_covering_seq it = Inr (it2, cover)" for it2 cover
    using that assms(1) by (cases "mask_covering_seq (compare (mi_cmp (it_m it))) (it_key it) (it_read_seq it) (it_mask it)")
      (auto simp: group_covering_seq_def split: if_splits)
  with assms show ?thesis
    by (cases "group_covering_seq it") (auto simp: surface_group_def nf masked_by_range_def split: if_splits)
qed

lemma quiet_advance_step:
  assumes quiet: "quiet_children ops" and "clean it" and "advance_step ops forward it = Some (Inr (it', go))"
  shows "clean it'"
proof -
  have nf: "child_failed it = (it, False)" using assms(2) by (simp add: child_failed_def clean_def)
  show ?thesis
  proof (cases "mi_valid (it_m it)")
    case True
    then obtain it1 r where r: "resolve_current_group ops forward (capture_group_key ops it) = Some (Inr (it1, r))"
      and rest: "(case r of Inl e \<Rightarrow> Inr (it1\<lparr>it_err := Some e, it_valid := False\<rparr>, False)
        | Inr visible \<Rightarrow> surface_group forward it1 visible) = Inr (it', go)"
      using assms(3) by (auto simp: advance_step_def nf rbind_Inr_iff)
    have "clean (capture_group_key ops it)" using assms(2) by (simp add: capture_group_key_def)
    from quiet_resolve [OF quiet this r] rest show ?thesis by (cases r) (auto intro: quiet_surface)
  qed (use assms(2,3) in \<open>auto simp: advance_step_def nf\<close>)
qed

lemma quiet_advance_loop:
  fixes ops :: "'c child_ops"
  assumes quiet: "quiet_children ops" and loop: "advance_loop ops forward it = Some (Inr it')" and clean: "clean it"
  shows "clean it'"
proof -
  let ?P = "\<lambda>o' (f :: bool) (i :: 'c scan_iter) (y :: 'c scan_iter result). o' = ops \<longrightarrow> clean i \<longrightarrow> (\<forall>i'. y = Inr i' \<longrightarrow> clean i')"
  have "?P ops forward it (Inr it')"
  proof (rule advance_loop.raw_induct [where P = ?P, OF _ loop], intro impI allI)
    fix loop o' f i y i'
    assume IH: "\<And>o' f i y. loop o' f i = Some y \<Longrightarrow> ?P o' f i y"
      and body: "Option.bind (advance_step o' f i) (\<lambda>r. case r of Inl e \<Rightarrow> Some (Inl e)
        | Inr x \<Rightarrow> if snd x then loop o' f (fst x) else Some (Inr (fst x))) = Some y"
      and eq: "o' = ops" "y = Inr i'" and i: "clean i"
    obtain r where r: "advance_step ops f i = Some r" using body eq by (cases "advance_step ops f i") simp_all
    then obtain x where x: "r = Inr x" using body eq by (cases r) simp_all
    have rest: "(if snd x then loop ops f (fst x) else Some (Inr (fst x))) = Some (Inr i')" using body r x unfolding eq by simp
    have "clean (fst x)" using quiet_advance_step [OF quiet i, of f "fst x" "snd x"] r x by simp
    then show "clean i'" using rest IH [of ops f "fst x"] by (auto split: if_splits)
  qed
  with clean show ?thesis by simp
qed

lemma quiet_move:
  assumes quiet: "quiet_children ops" and clean: "clean it" and move: "scan_move_apply ops m it = Some (Inr it')"
  shows "clean it'"
proof -
  note loop = quiet_advance_loop [OF quiet]
  have seek: "clean (it\<lparr>it_m := mi_seek ops op (it_m it)\<rparr>)" for op
    using clean quiet_seek [OF quiet] by (simp add: clean_def)
  have seek_lt: "clean (it\<lparr>it_m := s\<rparr>)" if "mi_seek_lt ops k (it_m it) = Some s" for s k
    using clean quiet_seek_lt [OF quiet that] by (simp add: clean_def)
  note defs = scan_move_apply_def advance_forward_def advance_backward_def mi_seek_cases
  show ?thesis
  proof (cases m)
    case MoveFirst
    with move show ?thesis
      by (auto simp: defs it_seek_to_first_def intro: loop [OF _ seek] split: bound.splits)
  next
    case MoveLast
    with move show ?thesis
      by (auto simp: defs it_seek_to_last_def bind_eq_Some_conv intro: loop [OF _ seek] loop [OF _ seek_lt] split: bound.splits)
  next
    case (MoveSeek q)
    with move show ?thesis by (auto simp: defs it_seek_def intro: loop [OF _ seek])
  next
    case (MoveSeekForPrev q)
    with move show ?thesis by (auto simp: defs it_seek_for_prev_def intro: loop [OF _ seek])
  next
    case MoveNext
    with move clean show ?thesis
      by (auto simp: defs it_next_def intro: loop [OF _ seek] loop [OF _ clean] split: if_splits)
  next
    case MovePrev
    with move clean show ?thesis
      by (auto simp: defs it_prev_def bind_eq_Some_conv intro: loop [OF _ seek_lt] loop [OF _ clean] split: if_splits)
  qed
qed

lemma quiet_run:
  assumes "quiet_children ops" and "clean it" and "scan_run ops ms it = Some (Inr it')"
  shows "clean it'"
  using assms(2,3)
proof (induction ms arbitrary: it)
  case (Cons m ms)
  obtain r where r: "scan_move_apply ops m it = Some r" using Cons.prems(2) by (cases "scan_move_apply ops m it") simp_all
  then obtain it1 where "r = Inr it1" using Cons.prems(2) by (cases r) simp_all
  with r Cons.prems(2) have "scan_move_apply ops m it = Some (Inr it1)" "scan_run ops ms it1 = Some (Inr it')" by simp_all
  with Cons quiet_move [OF assms(1)] show ?case by blast
qed simp

lemma quiet_memtables: "quiet_children (mem_child_ops ops)"
  by (simp add: quiet_children_def mem_child_ops_def Let_def)

lemma clean_new: "\<forall>f. mop = Some f \<longrightarrow> total_operator f \<Longrightarrow> clean (with_merge_operator mop (it_new c kids rs now b msk))"
  by (simp add: clean_def with_merge_operator_def it_new_def mi_new_def)

context child_source
begin

lemma quiet_scan_view:
  assumes quiet: "quiet_children ops"
    and kids: "\<forall>x \<in> set kids. ok x \<and> cur x = None \<and> (\<forall>e \<in> set (contents x). 0 < e_seq e)"
    and msk: "\<forall>s \<in> set msk. source_ok (compare c) s" and mop: "\<forall>f. mop = Some f \<longrightarrow> total_operator f"
  shows "\<exists>it. scan_run ops ms (with_merge_operator mop (it_new c kids rs now b msk)) = Some (Inr it)
    \<and> it_err it = None
    \<and> (let C = map contents kids; result = scan_result c mop rs now msk C
       in case view_run c b (keys_of c 1 C) (\<lambda>k. result k \<noteq> Inr None) ms of
            None \<Rightarrow> \<not> it_valid it
          | Some k \<Rightarrow> it_valid it \<and> it_key it = k \<and> result k = Inr (Some (it_value it)))"
proof -
  from scan_run_view [OF kids msk, where ms = ms and mop = mop and rs = rs and now = now and b = b]
  obtain it where run: "scan_run ops ms (with_merge_operator mop (it_new c kids rs now b msk)) = Some (Inr it)"
    and view: "it_err it = None \<longrightarrow>
        (case view_run c b (keys_of c 1 (map contents kids))
             (\<lambda>k. scan_result c mop rs now msk (map contents kids) k \<noteq> Inr None) ms of
           None \<Rightarrow> \<not> it_valid it
         | Some k \<Rightarrow> it_valid it \<and> it_key it = k
             \<and> scan_result c mop rs now msk (map contents kids) k = Inr (Some (it_value it)))"
    by - (elim exE conjE, rule that)
  have err: "it_err it = None"
    using quiet_run [OF quiet clean_new [OF mop] run] by (simp add: clean_def)
  show ?thesis
    using view [rule_format, OF err] unfolding Let_def by (intro exI [of _ it] conjI run err)
qed

end

section \<open>Scanning memtables\<close>



end
