(* ===== verification/Unified.thy ===== *)
theory Unified
  imports Scan_Quiet Format
begin

text \<open>
  The unified memtable of \<open>src/src/unified.rs\<close>: one bytewise memtable, with a list of sealed ones,
  shared by every column family. A key is stored behind the 8-byte big-endian id of its family.
  The lazy iterator over one family's slice is shown to keep the contract of a child of the
  merge (locale \<open>child_source\<close> of theory \<open>Merging_Iter\<close>), so a scan of a family in unified mode
  is covered by the theorems on the public iterator.
\<close>

section \<open>Keys and the store\<close>

definition cf_id :: "bytes \<Rightarrow> u64" where
  "cf_id name = fnv1a64 name"

definition prefixed :: "u64 \<Rightarrow> bytes \<Rightarrow> bytes" where
  "prefixed cid user_key = to_be_bytes cid @ user_key"

text \<open>The memtables of the store, without the log and the flush queue.\<close>

record 'm unified_store =
  us_mem :: "'m memtable"
  us_imm :: "'m memtable list"

definition us_get_from :: "'m skip_ops \<Rightarrow> (bytes \<Rightarrow> u64) \<Rightarrow> bytes \<Rightarrow> u64 \<Rightarrow> i64 \<Rightarrow> 'm memtable list \<Rightarrow> lookup" where
  "us_get_from ops hash pk read_seq now mems =
     (case find lk_found (map (mem_get ops hash pk read_seq now) mems) of Some r \<Rightarrow> r | None \<Rightarrow> lookup_default)"

definition us_get :: "'m skip_ops \<Rightarrow> (bytes \<Rightarrow> u64) \<Rightarrow> u64 \<Rightarrow> bytes \<Rightarrow> u64 \<Rightarrow> i64 \<Rightarrow> 'm unified_store \<Rightarrow> lookup" where
  "us_get ops hash cid user_key read_seq now s =
     us_get_from ops hash (prefixed cid user_key) read_seq now (us_mem s # rev (us_imm s))"

definition us_has_ranges :: "'m unified_store \<Rightarrow> bool" where
  "us_has_ranges s \<longleftrightarrow> \<not> rt_is_empty (mt_ranges (us_mem s)) \<or> (\<exists>m \<in> set (us_imm s). \<not> rt_is_empty (mt_ranges m))"

definition mem_covering_seq :: "bytes \<Rightarrow> u64 \<Rightarrow> 'm memtable \<Rightarrow> u64 option result" where
  "mem_covering_seq key read_seq m = rt_covering_seq (compare (mt_cmp m)) key read_seq (mt_ranges m)"

fun best_covering :: "bytes \<Rightarrow> u64 \<Rightarrow> u64 option \<Rightarrow> 'm memtable list \<Rightarrow> u64 option result" where
  "best_covering key read_seq best [] = Inr best"
| "best_covering key read_seq best (m # ms) = rbind (mem_covering_seq key read_seq m) (\<lambda>seq.
     best_covering key read_seq (newer_seq best seq) ms)"

definition us_covering_seq :: "u64 \<Rightarrow> bytes \<Rightarrow> u64 \<Rightarrow> 'm unified_store \<Rightarrow> u64 option result" where
  "us_covering_seq cid user_key read_seq s =
     (if rt_is_empty (mt_ranges (us_mem s)) \<and> (\<forall>m \<in> set (us_imm s). rt_is_empty (mt_ranges m)) then Inr None
      else
        let pk = prefixed cid user_key in
        rbind (mem_covering_seq pk read_seq (us_mem s)) (\<lambda>best. best_covering pk read_seq best (us_imm s)))"

text \<open>
  The walk over one key's versions goes on into the next sealed memtable unless the callback
  declined; the state of the callback is paired with that flag.
\<close>

definition us_chain_from :: "'m skip_ops \<Rightarrow> (bytes \<Rightarrow> u64) \<Rightarrow> bytes \<Rightarrow> u64 \<Rightarrow> i64
    \<Rightarrow> ('s \<Rightarrow> u64 \<Rightarrow> u64 \<Rightarrow> bytes option \<Rightarrow> 's \<times> bool) \<Rightarrow> 'm memtable list \<Rightarrow> 's \<times> bool \<Rightarrow> 's \<times> bool" where
  "us_chain_from ops hash pk read_seq now f mems st =
     foldl (\<lambda>st m. if snd st then st
       else mem_chain ops hash pk read_seq now
         (\<lambda>st seq kind value. case f (fst st) seq kind value of (s, go) \<Rightarrow> ((s, \<not> go), go)) m st) st mems"

definition us_chain :: "'m skip_ops \<Rightarrow> (bytes \<Rightarrow> u64) \<Rightarrow> u64 \<Rightarrow> bytes \<Rightarrow> u64 \<Rightarrow> i64
    \<Rightarrow> ('s \<Rightarrow> u64 \<Rightarrow> u64 \<Rightarrow> bytes option \<Rightarrow> 's \<times> bool) \<Rightarrow> 'm unified_store \<Rightarrow> 's \<Rightarrow> 's" where
  "us_chain ops hash cid user_key read_seq now f s st =
     fst (us_chain_from ops hash (prefixed cid user_key) read_seq now f (us_mem s # rev (us_imm s)) (st, False))"

definition us_entries_for_cf :: "'m skip_ops \<Rightarrow> u64 \<Rightarrow> 'm unified_store \<Rightarrow> entry list" where
  "us_entries_for_cf ops cid s =
     map (\<lambda>e. e\<lparr>e_key := drop 8 (e_key e)\<rparr>)
       (filter (\<lambda>e. 8 \<le> length (e_key e) \<and> take 8 (e_key e) = to_be_bytes cid)
         (concat (map (mem_snapshot ops) (us_mem s # us_imm s))))"

section \<open>The iterator over one family\<close>

record 'i unified_iter =
  ui_inner :: 'i
  ui_prefix :: bytes
  ui_valid :: bool

definition ui_new :: "'m memtable \<Rightarrow> u64 \<Rightarrow> 'm mem_merge unified_iter" where
  "ui_new m cid = \<lparr>ui_inner = mm_new m, ui_prefix = to_be_bytes cid, ui_valid = False\<rparr>"

definition starts_with :: "bytes \<Rightarrow> bytes \<Rightarrow> bool" where
  "starts_with p k \<longleftrightarrow> take (length p) k = p"

definition refresh_valid :: "'i child_ops \<Rightarrow> 'i unified_iter \<Rightarrow> 'i unified_iter" where
  "refresh_valid inner s = s\<lparr>ui_valid := ch_valid inner (ui_inner s)
     \<and> starts_with (ui_prefix s) (ch_user_key inner (ui_inner s))\<rparr>"

definition prefixed_key :: "bytes \<Rightarrow> bytes \<Rightarrow> bytes" where
  "prefixed_key p user_key = p @ user_key"

definition ui_move :: "'i child_ops \<Rightarrow> ('i \<Rightarrow> 'i) \<Rightarrow> 'i unified_iter \<Rightarrow> 'i unified_iter" where
  "ui_move inner f s = refresh_valid inner (s\<lparr>ui_inner := f (ui_inner s)\<rparr>)"

definition ui_seek_to_first :: "'i child_ops \<Rightarrow> 'i unified_iter \<Rightarrow> 'i unified_iter" where
  "ui_seek_to_first inner s = ui_move inner (ch_seek_ge inner (ui_prefix s) u64_max) s"

text \<open>\<open>checked_add\<close> of the id: the last family has no successor.\<close>

definition ui_seek_to_last :: "'i child_ops \<Rightarrow> 'i unified_iter \<Rightarrow> 'i unified_iter" where
  "ui_seek_to_last inner s =
     (let cid = from_be_bytes (ui_prefix s) in
      if cid = u64_max then ui_move inner (ch_seek_to_last inner) s
      else ui_move inner (ch_seek_le inner (to_be_bytes (cid + 1)) u64_max) s)"

definition uni_child_ops :: "'i child_ops \<Rightarrow> 'i unified_iter child_ops" where
  "uni_child_ops inner = \<lparr>
     ch_valid = ui_valid,
     ch_err = (\<lambda>_. None),
     ch_user_key = (\<lambda>s. drop 8 (ch_user_key inner (ui_inner s))),
     ch_seq = (\<lambda>s. ch_seq inner (ui_inner s)),
     ch_ttl = (\<lambda>s. ch_ttl inner (ui_inner s)),
     ch_tombstone = (\<lambda>s. ch_tombstone inner (ui_inner s)),
     ch_kind = (\<lambda>s. ch_kind inner (ui_inner s)),
     ch_value_into = (\<lambda>s. ch_value_into inner (ui_inner s)),
     ch_value_block = (\<lambda>_. None),
     ch_next = ui_move inner (ch_next inner),
     ch_prev = ui_move inner (ch_prev inner),
     ch_seek_to_first = ui_seek_to_first inner,
     ch_seek_to_last = ui_seek_to_last inner,
     ch_seek_ge = (\<lambda>k q s. ui_move inner (ch_seek_ge inner (prefixed_key (ui_prefix s) k) q) s),
     ch_seek_le = (\<lambda>k q s. ui_move inner (ch_seek_le inner (prefixed_key (ui_prefix s) k) q) s)\<rparr>"

definition us_iterators_for_cf :: "u64 \<Rightarrow> 'm unified_store \<Rightarrow> 'm mem_merge unified_iter list" where
  "us_iterators_for_cf cid s = ui_new (us_mem s) cid # map (\<lambda>m. ui_new m cid) (rev (us_imm s))"

section \<open>The slice of a family\<close>

definition in_slice :: "bytes \<Rightarrow> entry \<Rightarrow> bool" where
  "in_slice p e \<longleftrightarrow> starts_with p (e_key e)"

definition strip :: "entry \<Rightarrow> entry" where
  "strip e = e\<lparr>e_key := drop 8 (e_key e)\<rparr>"

lemma starts_with_append [simp]: "starts_with p (p @ k)"
  by (simp add: starts_with_def)

lemma starts_with_split: "starts_with p k \<Longrightarrow> k = p @ drop (length p) k"
  unfolding starts_with_def by (metis append_take_drop_id)

lemma strip_fields [simp]:
  "e_seq (strip e) = e_seq e" "e_value (strip e) = e_value e" "e_ttl (strip e) = e_ttl e" "e_kind (strip e) = e_kind e"
  "e_key (strip e) = drop 8 (e_key e)" "entry_tombstone (strip e) = entry_tombstone e"
  by (simp_all add: strip_def entry_tombstone_def)

text \<open>The keys behind one prefix are an interval of the bytewise order.\<close>

lemma slice_between:
  assumes "is_le (slice_cmp (p @ r) k)" and "is_le (slice_cmp k (p @ r'))"
  shows "starts_with p k"
  using assms
proof (induction p arbitrary: k)
  case (Cons x p)
  then obtain y k' where k: "k = y # k'" by (cases k) auto
  have "is_le (ord_cmp x y)" "is_le (ord_cmp y x)"
    using Cons.prems unfolding k by (auto simp: then_with_def ordering_tests split: ordering.splits)
  then have "y = x" by (auto simp: ord_cmp_def ordering_tests split: if_splits)
  with Cons k show ?case by (simp add: starts_with_def ord_cmp_def)
qed (simp add: starts_with_def)

lemma slice_next:
  assumes c: "cid \<noteq> u64_max" and k: "8 \<le> length k"
    and le: "is_le (slice_cmp (to_be_bytes cid @ r) k)" and lt: "is_lt (slice_cmp k (to_be_bytes (cid + 1)))"
  shows "starts_with (to_be_bytes cid) k"
proof -
  let ?q = "take 8 k" and ?s = "drop 8 k"
  have split: "k = ?q @ ?s" "length ?q = 8" using k by simp_all
  have "unat cid \<noteq> unat u64_max" using c by (simp add: word_unat_eq_iff)
  then have "unat cid + 1 < 2 ^ 64"
    using unsigned_less [of cid, where ?'a = nat] by (simp add: unsigned_minus_1_eq_mask mask_eq_exp_minus_1)
  then have nat: "unat (cid + 1) = unat cid + 1" by (simp add: unat_word_ariths)
  have "is_le (slice_cmp (to_be_bytes cid) ?q)"
    using le slice_cmp_append_eq_length [of "to_be_bytes cid" ?q r ?s] split
    by (auto simp: then_with_def ordering_tests split: ordering.splits)
  moreover have "is_lt (slice_cmp ?q (to_be_bytes (cid + 1)))"
    using lt slice_cmp_append_eq_length [of ?q "to_be_bytes (cid + 1)" ?s "[]"] split
    by (cases ?s) (auto simp: then_with_def ordering_tests split: ordering.splits)
  ultimately have "be_nat ?q = be_nat (to_be_bytes cid)"
    using be_nat_slice_cmp [of "to_be_bytes cid" ?q] be_nat_slice_cmp [of ?q "to_be_bytes (cid + 1)"] split(2) nat
    by (auto simp: be_nat_to_be_bytes ord_cmp_def split: if_splits)
  then have "slice_cmp ?q (to_be_bytes cid) = Equal"
    using be_nat_slice_cmp [of ?q "to_be_bytes cid"] split(2) by (simp add: ord_cmp_def)
  then show ?thesis by (simp add: slice_cmp_Equal starts_with_def)
qed

lemma slice_top:
  assumes k: "8 \<le> length k" and le: "is_le (slice_cmp (to_be_bytes u64_max @ r) k)"
  shows "starts_with (to_be_bytes u64_max) k"
proof -
  let ?q = "take 8 k"
  have split: "k = ?q @ drop 8 k" "length ?q = 8" using k by simp_all
  have "is_le (slice_cmp (to_be_bytes u64_max) ?q)"
    using le slice_cmp_append_eq_length [of "to_be_bytes u64_max" ?q r "drop 8 k"] split
    by (auto simp: then_with_def ordering_tests split: ordering.splits)
  moreover have "be_nat ?q \<le> be_nat (to_be_bytes u64_max)"
    using be_nat_less [of ?q] split(2) by (simp add: be_nat_to_be_bytes unsigned_minus_1_eq_mask mask_eq_exp_minus_1)
  ultimately have "be_nat ?q = be_nat (to_be_bytes u64_max)"
    using be_nat_slice_cmp [of "to_be_bytes u64_max" ?q] split(2) by (auto simp: ord_cmp_def split: if_splits)
  then have "slice_cmp ?q (to_be_bytes u64_max) = Equal"
    using be_nat_slice_cmp [of ?q "to_be_bytes u64_max"] split(2) by (simp add: ord_cmp_def)
  then show ?thesis by (simp add: slice_cmp_Equal starts_with_def)
qed

text \<open>A search in the slice is a search in the whole list that must land inside the slice.\<close>

lemma find_slice:
  assumes "sorted_wrt before L" and "\<And>e. e \<in> set L \<Longrightarrow> hp e \<Longrightarrow> Q e = Q' (g e)"
    and "\<And>e e'. e \<in> set L \<Longrightarrow> e' \<in> set L \<Longrightarrow> Q e \<Longrightarrow> before e e' \<Longrightarrow> hp e' \<Longrightarrow> hp e"
  shows "find Q' (map g (filter hp L)) = (case find Q L of None \<Rightarrow> None | Some e \<Rightarrow> if hp e then Some (g e) else None)"
  using assms
proof (induction L)
  case (Cons x L)
  show ?case
  proof (cases "Q x")
    case True
    show ?thesis
    proof (cases "hp x")
      case False
      have "\<not> hp e'" if "e' \<in> set L" for e'
        using Cons.prems(1) Cons.prems(3) [of x e'] True False that by auto
      then have "filter hp L = []" by (simp add: filter_empty_conv)
      with True False show ?thesis by simp
    qed (use True Cons.prems(2) in simp)
  next
    case False
    have "find Q' (map g (filter hp L)) = (case find Q L of None \<Rightarrow> None | Some e \<Rightarrow> if hp e then Some (g e) else None)"
    proof (rule Cons.IH)
      show "sorted_wrt before L" using Cons.prems(1) by simp
      show "Q e = Q' (g e)" if "e \<in> set L" "hp e" for e using Cons.prems(2) that by simp
      show "hp e" if "e \<in> set L" "e' \<in> set L" "Q e" "before e e'" "hp e'" for e e'
        using Cons.prems(3) [of e e'] that by simp
    qed
    with False Cons.prems(2) [of x] show ?thesis by simp
  qed
qed simp

lemma slice_below_next:
  assumes "cid \<noteq> u64_max"
  shows "is_lt (slice_cmp (to_be_bytes cid @ r) (to_be_bytes (cid + 1)))"
proof -
  have "unat cid \<noteq> unat u64_max" using assms by (simp add: word_unat_eq_iff)
  then have "unat cid + 1 < 2 ^ 64"
    using unsigned_less [of cid, where ?'a = nat] by (simp add: unsigned_minus_1_eq_mask mask_eq_exp_minus_1)
  then have "unat (cid + 1) = unat cid + 1" by (simp add: unat_word_ariths)
  then have "slice_cmp (to_be_bytes cid) (to_be_bytes (cid + 1)) = Less"
    using be_nat_slice_cmp [of "to_be_bytes cid" "to_be_bytes (cid + 1)"] by (simp add: be_nat_to_be_bytes ord_cmp_def)
  then show ?thesis
    using slice_cmp_append_eq_length [of "to_be_bytes cid" "to_be_bytes (cid + 1)" r "[]"] by (simp add: then_with_def)
qed

lemma bytewise_ikey: "ikey_cmp Bytewise a b = then_with (slice_cmp (fst a) (fst b)) (ord_cmp (snd b) (snd a))"
  by (simp add: ikey_cmp_eq)

lemma strip_cmp:
  assumes "in_slice p e" and "length p = 8"
  shows "ikey_cmp Bytewise (entry_ikey e) (p @ k, q) = ikey_cmp Bytewise (entry_ikey (strip e)) (k, q)"
proof -
  have "e_key e = p @ drop 8 (e_key e)" using starts_with_split [of p "e_key e"] assms by (simp add: in_slice_def)
  then have "slice_cmp (e_key e) (p @ k) = slice_cmp (drop 8 (e_key e)) k" by (metis slice_cmp_append_same)
  then show ?thesis by (simp add: bytewise_ikey entry_ikey_def)
qed

lemma ikey_le_key: "is_le (ikey_cmp Bytewise a b) \<Longrightarrow> is_le (slice_cmp (fst a) (fst b))"
  by (auto simp: bytewise_ikey then_with_def ordering_tests split: ordering.splits)

fun ui_op :: "u64 \<Rightarrow> cursor_op \<Rightarrow> cursor_op" where
  "ui_op cid SeekFirst = SeekGe (to_be_bytes cid) u64_max"
| "ui_op cid SeekLast = (if cid = u64_max then SeekLast else SeekLe (to_be_bytes (cid + 1)) u64_max)"
| "ui_op cid (SeekGe k q) = SeekGe (to_be_bytes cid @ k) q"
| "ui_op cid (SeekLe k q) = SeekLe (to_be_bytes cid @ k) q"
| "ui_op cid StepNext = StepNext"
| "ui_op cid StepPrev = StepPrev"

lemma ui_apply:
  assumes "ui_prefix s = to_be_bytes cid"
  shows "ch_apply (uni_child_ops inner) op s =
    refresh_valid inner (s\<lparr>ui_inner := ch_apply inner (ui_op cid op) (ui_inner s)\<rparr>)"
  using assms
  by (cases op) (simp_all add: uni_child_ops_def ui_move_def ui_seek_to_first_def ui_seek_to_last_def prefixed_key_def
      from_to_be_bytes)

abbreviation slice :: "u64 \<Rightarrow> entry list \<Rightarrow> entry list" where
  "slice cid L \<equiv> map strip (filter (in_slice (to_be_bytes cid)) L)"

abbreviation within :: "u64 \<Rightarrow> entry option \<Rightarrow> entry option" where
  "within cid x \<equiv> (case x of None \<Rightarrow> None | Some e \<Rightarrow> if in_slice (to_be_bytes cid) e then Some (strip e) else None)"

lemma find_forward:
  assumes L: "in_order Bytewise L"
    and Q: "\<And>e. e \<in> set L \<Longrightarrow> in_slice (to_be_bytes cid) e \<Longrightarrow> Q e = Q' (strip e)"
    and low: "\<And>e. e \<in> set L \<Longrightarrow> Q e \<Longrightarrow> \<exists>r. is_le (slice_cmp (to_be_bytes cid @ r) (e_key e))"
  shows "find Q' (slice cid L) = within cid (find Q L)"
proof (rule find_slice [OF L])
  show "Q e = Q' (strip e)" if "e \<in> set L" "in_slice (to_be_bytes cid) e" for e using Q that by simp
  fix e e'
  assume *: "e \<in> set L" "Q e" "is_lt (ikey_cmp Bytewise (entry_ikey e) (entry_ikey e'))" "in_slice (to_be_bytes cid) e'"
  have "is_le (slice_cmp (e_key e) (e_key e'))"
    using *(3) ikey_le_key [of "entry_ikey e" "entry_ikey e'"] by (auto simp: ordering_tests entry_ikey_def)
  moreover obtain r' where "e_key e' = to_be_bytes cid @ r'"
    using *(4) starts_with_split unfolding in_slice_def by blast
  ultimately show "in_slice (to_be_bytes cid) e"
    using low [OF *(1,2)] slice_between [of "to_be_bytes cid" _ "e_key e" r'] unfolding in_slice_def by auto
qed

lemma find_backward:
  assumes L: "in_order Bytewise L"
    and Q: "\<And>e. e \<in> set L \<Longrightarrow> in_slice (to_be_bytes cid) e \<Longrightarrow> Q e = Q' (strip e)"
    and high: "\<And>e r. e \<in> set L \<Longrightarrow> Q e \<Longrightarrow> is_le (slice_cmp (to_be_bytes cid @ r) (e_key e)) \<Longrightarrow> in_slice (to_be_bytes cid) e"
  shows "find Q' (rev (slice cid L)) = within cid (find Q (rev L))"
proof -
  have "sorted_wrt (\<lambda>a b. is_lt (ikey_cmp Bytewise (entry_ikey b) (entry_ikey a))) (rev L)"
    using L by (simp add: sorted_wrt_rev)
  then have "find Q' (map strip (filter (in_slice (to_be_bytes cid)) (rev L))) = within cid (find Q (rev L))"
  proof (rule find_slice)
    show "Q e = Q' (strip e)" if "e \<in> set (rev L)" "in_slice (to_be_bytes cid) e" for e using Q that by simp
    fix e e'
    assume *: "e \<in> set (rev L)" "Q e" "is_lt (ikey_cmp Bytewise (entry_ikey e') (entry_ikey e))" "in_slice (to_be_bytes cid) e'"
    have le: "is_le (slice_cmp (e_key e') (e_key e))"
      using *(3) ikey_le_key [of "entry_ikey e'" "entry_ikey e"] by (auto simp: ordering_tests entry_ikey_def)
    obtain r' where "e_key e' = to_be_bytes cid @ r'"
      using *(4) starts_with_split unfolding in_slice_def by blast
    with le show "in_slice (to_be_bytes cid) e" using high [of e r'] *(1,2) by simp
  qed
  then show ?thesis by (simp add: rev_map rev_filter)
qed

lemma slice_apply:
  assumes L: "in_order Bytewise L" and keys: "\<And>e. e \<in> set L \<Longrightarrow> 8 \<le> length (e_key e) \<and> e_seq e < u64_max"
    and cur: "op_moves op \<Longrightarrow> x = Some e0 \<and> in_slice (to_be_bytes cid) e0"
  shows "scan_apply Bytewise (slice cid L) op (map_option strip x) = within cid (scan_apply Bytewise L (ui_op cid op) x)"
proof -
  let ?p = "to_be_bytes cid"
  note order = key_order_ikey_cmp [OF bytewise.user_key_order_axioms]
  note flip = key_order.is_ge_iff [OF order] key_order.is_gt_iff [OF order]
  have len: "length ?p = 8" by simp
  note cmp = strip_cmp [OF _ len]
  have low: "\<exists>r. is_le (slice_cmp (?p @ r) (e_key e))" if "is_ge (ikey_cmp Bytewise (entry_ikey e) (?p @ k, q))" for e k q
    using ikey_le_key that unfolding flip by (fastforce simp: entry_ikey_def)
  have high: "in_slice ?p e" if "is_le (ikey_cmp Bytewise (entry_ikey e) (?p @ k, q))" "is_le (slice_cmp (?p @ r) (e_key e))" for e k q r
    using ikey_le_key [OF that(1)] slice_between [OF that(2)] by (simp add: in_slice_def entry_ikey_def)
  have sub: "is_le (ikey_cmp Bytewise a b)" if "is_lt (ikey_cmp Bytewise a b)" for a b
    using that by (rule key_order.lt_imp_le [OF order])
  have low': "\<exists>r. is_le (slice_cmp (?p @ r) (e_key e))" if "is_gt (ikey_cmp Bytewise (entry_ikey e) (?p @ k, q))" for e k q
    using low sub that unfolding flip by blast
  have high': "in_slice ?p e" if "is_lt (ikey_cmp Bytewise (entry_ikey e) (?p @ k, q))" "is_le (slice_cmp (?p @ r) (e_key e))" for e k q r
    using high sub that by blast
  show ?thesis
  proof (cases op)
    case SeekFirst
    have "is_ge (ikey_cmp Bytewise (entry_ikey (strip e)) ([], u64_max))" for e
      by (cases "drop 8 (e_key e)") (auto simp: bytewise_ikey entry_ikey_def ord_cmp_def ordering_tests dest: leD)
    then show ?thesis
      unfolding SeekFirst ui_op.simps scan_apply.simps
      using low [of _ "[]" u64_max] cmp [of _ "[]" u64_max] by (intro find_forward [OF L]) simp_all
  next
    case SeekLast
    show ?thesis
    proof (cases "cid = u64_max")
      case True
      have "in_slice ?p e" if "e \<in> set L" "is_le (slice_cmp (?p @ r) (e_key e))" for e r
        using slice_top keys that True by (simp add: in_slice_def)
      then show ?thesis
        unfolding SeekLast ui_op.simps if_P [OF True] scan_apply.simps by (intro find_backward [OF L]) blast+
    next
      case False
      let ?Q = "\<lambda>e. is_le (ikey_cmp Bytewise (entry_ikey e) (to_be_bytes (cid + 1), u64_max))"
      have lt: "is_lt (slice_cmp (e_key e) (to_be_bytes (cid + 1)))" if "e \<in> set L" "?Q e" for e
        using that(2) keys [OF that(1)]
        by (auto simp: bytewise_ikey entry_ikey_def ord_cmp_def then_with_def ordering_tests split: ordering.splits if_splits)
      have "?Q e" if "in_slice ?p e" for e
      proof -
        have "is_lt (slice_cmp (e_key e) (to_be_bytes (cid + 1)))"
          using slice_below_next [OF False, of "drop 8 (e_key e)"] starts_with_split [of ?p "e_key e"] that by (simp add: in_slice_def)
        then show ?thesis by (simp add: bytewise_ikey entry_ikey_def then_with_def ordering_tests)
      qed
      moreover have "in_slice ?p e" if "e \<in> set L" "?Q e" "is_le (slice_cmp (?p @ r) (e_key e))" for e r
        using slice_next [OF False] keys lt that by (simp add: in_slice_def)
      ultimately show ?thesis
        unfolding SeekLast ui_op.simps if_not_P [OF False] scan_apply.simps by (intro find_backward [OF L]) blast+
    qed
  next
    case (SeekGe k q)
    show ?thesis
      unfolding SeekGe ui_op.simps scan_apply.simps using cmp low by (intro find_forward [OF L]) simp_all
  next
    case (SeekLe k q)
    show ?thesis
      unfolding SeekLe ui_op.simps scan_apply.simps using cmp high by (intro find_backward [OF L]) simp_all
  next
    case StepNext
    then have x: "x = Some e0" "in_slice ?p e0" using cur by (simp_all add: op_moves_def)
    have k0: "entry_ikey e0 = (?p @ drop 8 (e_key e0), e_seq e0)" "entry_ikey (strip e0) = (drop 8 (e_key e0), e_seq e0)"
      using starts_with_split [of ?p "e_key e0"] x(2) by (simp_all add: entry_ikey_def in_slice_def)
    show ?thesis
      unfolding StepNext x ui_op.simps scan_apply.simps option.simps option.map k0
      using cmp low' by (intro find_forward [OF L]) simp_all
  next
    case StepPrev
    then have x: "x = Some e0" "in_slice ?p e0" using cur by (simp_all add: op_moves_def)
    have k0: "entry_ikey e0 = (?p @ drop 8 (e_key e0), e_seq e0)" "entry_ikey (strip e0) = (drop 8 (e_key e0), e_seq e0)"
      using starts_with_split [of ?p "e_key e0"] x(2) by (simp_all add: entry_ikey_def in_slice_def)
    show ?thesis
      unfolding StepPrev x ui_op.simps scan_apply.simps option.simps option.map k0
      using cmp high' by (intro find_backward [OF L]) simp_all
  qed
qed

section \<open>The iterator is a child of the merge\<close>

definition ui_ok :: "('i \<Rightarrow> bool) \<Rightarrow> ('i \<Rightarrow> entry option) \<Rightarrow> ('i \<Rightarrow> entry list) \<Rightarrow> 'i unified_iter \<Rightarrow> bool" where
  "ui_ok ok cur contents s \<longleftrightarrow> ok (ui_inner s) \<and> (\<exists>cid. ui_prefix s = to_be_bytes cid)
     \<and> ui_valid s = (case cur (ui_inner s) of None \<Rightarrow> False | Some e \<Rightarrow> in_slice (ui_prefix s) e)
     \<and> (\<forall>e \<in> set (contents (ui_inner s)). 8 \<le> length (e_key e) \<and> e_seq e < u64_max)"

definition ui_current :: "('i \<Rightarrow> entry option) \<Rightarrow> 'i unified_iter \<Rightarrow> entry option" where
  "ui_current cur s = (if ui_valid s then map_option strip (cur (ui_inner s)) else None)"

definition ui_contents :: "('i \<Rightarrow> entry list) \<Rightarrow> 'i unified_iter \<Rightarrow> entry list" where
  "ui_contents contents s = map strip (filter (in_slice (ui_prefix s)) (contents (ui_inner s)))"

lemma slice_in_order:
  assumes "in_order Bytewise L"
  shows "in_order Bytewise (slice cid L)"
proof -
  have "sorted_wrt (\<lambda>a b. in_slice (to_be_bytes cid) a \<and> in_slice (to_be_bytes cid) b
      \<and> is_lt (ikey_cmp Bytewise (entry_ikey a) (entry_ikey b))) (filter (in_slice (to_be_bytes cid)) L)"
    using sorted_wrt_filter [OF assms] by (rule sorted_wrt_mono_rel [rotated]) auto
  then show ?thesis
    unfolding sorted_wrt_map
  proof (rule sorted_wrt_mono_rel [rotated], elim conjE)
    fix a b
    assume *: "in_slice (to_be_bytes cid) a" "in_slice (to_be_bytes cid) b" "is_lt (ikey_cmp Bytewise (entry_ikey a) (entry_ikey b))"
    have "entry_ikey b = (to_be_bytes cid @ drop 8 (e_key b), e_seq b)"
      using starts_with_split [of "to_be_bytes cid" "e_key b"] *(2) by (simp add: entry_ikey_def in_slice_def)
    then show "is_lt (ikey_cmp Bytewise (entry_ikey (strip a)) (entry_ikey (strip b)))"
      using *(3) strip_cmp [OF *(1), of "drop 8 (e_key b)" "e_seq b"] by (simp add: entry_ikey_def [of "strip b"])
  qed
qed

lemma unified_child_source:
  assumes inner: "child_source inner Bytewise ok cur contents" and never: "\<And>x. ch_err inner x = None"
  shows "child_source (uni_child_ops inner) Bytewise (ui_ok ok cur contents) (ui_current cur) (ui_contents contents)"
proof (rule child_source.intro)
  fix s :: "'a unified_iter" and op e v
  show "user_key_order (compare Bytewise)" by (rule bytewise.user_key_order_axioms)
  assume s: "ui_ok ok cur contents s"
  then obtain cid where i: "ok (ui_inner s)" and p: "ui_prefix s = to_be_bytes cid"
    and keys: "\<And>e. e \<in> set (contents (ui_inner s)) \<Longrightarrow> 8 \<le> length (e_key e) \<and> e_seq e < u64_max"
    by (auto simp: ui_ok_def)
  have valid: "ui_valid s = (case cur (ui_inner s) of None \<Rightarrow> False | Some e \<Rightarrow> in_slice (to_be_bytes cid) e)"
    using s unfolding ui_ok_def p by blast
  have cur: "ui_current cur s = within cid (cur (ui_inner s))"
    using valid by (auto simp: ui_current_def split: option.splits)
  have con: "ui_contents contents s = slice cid (contents (ui_inner s))" by (simp add: ui_contents_def p)
  note L = child_source.contents_sorted [OF inner i]
  show "in_order Bytewise (ui_contents contents s)" unfolding con by (rule slice_in_order [OF L])
  show "ch_valid (uni_child_ops inner) s = (ui_current cur s \<noteq> None)"
    using valid by (auto simp: uni_child_ops_def ui_current_def split: option.splits)
  have reads: "\<exists>e'. cur (ui_inner s) = Some e' \<and> e = strip e' \<and> in_slice (to_be_bytes cid) e'" if "ui_current cur s = Some e"
    using that unfolding cur by (auto split: option.splits if_splits)
  show "e \<in> set (ui_contents contents s)" if "ui_current cur s = Some e"
    using reads [OF that] child_source.current_in [OF inner i] by (auto simp: con)
  show "ch_user_key (uni_child_ops inner) s = e_key e \<and> ch_seq (uni_child_ops inner) s = e_seq e \<and>
      ch_ttl (uni_child_ops inner) s = e_ttl e \<and> ch_tombstone (uni_child_ops inner) s = entry_tombstone e \<and>
      ch_kind (uni_child_ops inner) s = e_kind e" if "ui_current cur s = Some e"
    using reads [OF that] child_source.reads [OF inner i] by (auto simp: uni_child_ops_def)
  show "ui_current cur s = Some e \<Longrightarrow> ch_value_into (uni_child_ops inner) s = Inr v \<Longrightarrow> v = e_value e"
    using reads child_source.reads_value [OF inner i] by (fastforce simp: uni_child_ops_def)
  show "ui_current cur s = Some e \<Longrightarrow> ch_value_block (uni_child_ops inner) s = Some v \<Longrightarrow> v = e_value e"
    by (simp add: uni_child_ops_def)
  assume moves: "op_moves op \<Longrightarrow> ui_current cur s \<noteq> None"
  have um: "op_moves (ui_op cid op) = op_moves op" by (cases op) (simp_all add: op_moves_def)
  have im: "op_moves (ui_op cid op) \<Longrightarrow> cur (ui_inner s) \<noteq> None"
    using moves unfolding um cur by (auto split: option.splits)
  let ?i = "ch_apply inner (ui_op cid op) (ui_inner s)"
  have iok: "ok ?i" "contents ?i = contents (ui_inner s)" and icur: "cur ?i = scan_apply Bytewise (contents (ui_inner s)) (ui_op cid op) (cur (ui_inner s))"
    using child_source.apply_ok [OF inner i im] child_source.apply_current [OF inner i im] never by simp_all
  let ?s = "ch_apply (uni_child_ops inner) op s"
  have t: "ui_inner ?s = ?i" "ui_prefix ?s = to_be_bytes cid"
    "ui_valid ?s = (case cur ?i of None \<Rightarrow> False | Some e \<Rightarrow> in_slice (to_be_bytes cid) e)"
    using child_source.valid_iff [OF inner iok(1)] child_source.reads [OF inner iok(1)] p
    by (auto simp: ui_apply [OF p] refresh_valid_def in_slice_def split: option.splits)
  show "ui_ok ok cur contents ?s \<and> ui_contents contents ?s = ui_contents contents s"
    using iok keys unfolding ui_ok_def ui_contents_def t p by auto
  have "ui_current cur ?s = within cid (cur ?i)"
    by (auto simp: ui_current_def t split: option.splits)
  also have "\<dots> = scan_apply Bytewise (slice cid (contents (ui_inner s))) op (map_option strip (cur (ui_inner s)))"
    unfolding icur
  proof (rule slice_apply [OF L keys, symmetric])
    assume "op_moves op"
    then obtain e0 where "cur (ui_inner s) = Some e0" "in_slice (to_be_bytes cid) e0"
      using moves unfolding cur by (auto split: option.splits if_splits)
    then show "cur (ui_inner s) = Some (the (cur (ui_inner s))) \<and> in_slice (to_be_bytes cid) (the (cur (ui_inner s)))" by simp
  qed
  also have "\<dots> = scan_apply Bytewise (ui_contents contents s) op (ui_current cur s)"
    unfolding con using moves by (cases op) (auto simp: cur op_moves_def split: option.splits if_splits)
  finally show "if ch_err (uni_child_ops inner) ?s = None
      then ui_current cur ?s = scan_apply Bytewise (ui_contents contents s) op (ui_current cur s) else ui_current cur ?s = None"
    by (simp add: uni_child_ops_def)
qed

interpretation uni_child: child_source "uni_child_ops (mem_child_ops list_ops)" Bytewise
  "ui_ok (mem_ok list_ops Bytewise) mem_current (mem_contents list_ops Bytewise)" "ui_current mem_current"
  "ui_contents (mem_contents list_ops Bytewise)"
  by (rule unified_child_source [OF mem_child.child_source_axioms]) (simp add: mem_child_ops_def Let_def)

section \<open>Scanning a family of the unified store\<close>

abbreviation sealed :: "'m memtable \<Rightarrow> 'm unified_store" where
  "sealed m \<equiv> \<lparr>us_mem = m, us_imm = []\<rparr>"

lemma entries_slice: "us_entries_for_cf ops cid (sealed m) = slice cid (mem_snapshot ops m)"
proof -
  have "in_slice (to_be_bytes cid) = (\<lambda>e. 8 \<le> length (e_key e) \<and> take 8 (e_key e) = to_be_bytes cid)"
    by (auto simp: fun_eq_iff in_slice_def starts_with_def dest: arg_cong [where f = length])
  then show ?thesis by (simp add: us_entries_for_cf_def strip_def [abs_def])
qed

lemma quiet_unified: "quiet_children (uni_child_ops (mem_child_ops ops))"
  by (simp add: quiet_children_def uni_child_ops_def mem_child_ops_def Let_def)

lemma fresh_unified:
  assumes m: "mem_holds ops hash hist m" "mt_cmp m = Bytewise" and k: "kinds_ok hist"
    and keys: "\<forall>r \<in> set hist. 8 \<le> length (e_key r) \<and> e_seq r < u64_max"
  shows "ui_ok (mem_ok ops Bytewise) mem_current (mem_contents ops Bytewise) (ui_new m cid)"
    and "ui_current mem_current (ui_new m cid) = None"
    and "ui_contents (mem_contents ops Bytewise) (ui_new m cid) = us_entries_for_cf ops cid (sealed m)"
proof -
  have c: "user_key_order (compare (mt_cmp m))" by (simp add: m(2) bytewise.user_key_order_axioms)
  note fresh = fresh_memtable [OF c m(1) k, unfolded m(2)]
  have "set (mem_snapshot ops m) \<subseteq> set hist" using snapshot_holds(2) [OF c m(1) k] by (auto simp: current_def)
  with fresh keys show "ui_ok (mem_ok ops Bytewise) mem_current (mem_contents ops Bytewise) (ui_new m cid)"
    by (auto simp: ui_ok_def ui_new_def)
  show "ui_current mem_current (ui_new m cid) = None" by (simp add: ui_current_def ui_new_def)
  show "ui_contents (mem_contents ops Bytewise) (ui_new m cid) = us_entries_for_cf ops cid (sealed m)"
    unfolding entries_slice by (simp add: ui_contents_def ui_new_def fresh(3))
qed


definition family_ops :: "mem_op list" where
  "family_ops = [MBatch
     [\<lparr>e_key = prefixed 7 [5], e_value = [50], e_seq = 3, e_ttl = 0, e_kind = KIND_PUT\<rparr>,
      \<lparr>e_key = prefixed 8 [1], e_value = [80], e_seq = 4, e_ttl = 0, e_kind = KIND_PUT\<rparr>,
      \<lparr>e_key = prefixed 6 [9], e_value = [60], e_seq = 5, e_ttl = 0, e_kind = KIND_PUT\<rparr>]]"

definition family_old_ops :: "mem_op list" where
  "family_old_ops = [MPut \<lparr>e_key = prefixed 7 [4], e_value = [40], e_seq = 1, e_ttl = 0, e_kind = KIND_PUT\<rparr>,
     MPut \<lparr>e_key = prefixed 7 [5], e_value = [49], e_seq = 2, e_ttl = 0, e_kind = KIND_PUT\<rparr>]"

lemma family_ok:
  "\<forall>os \<in> set [family_ops, family_old_ops]. kinds_ok (history os)
    \<and> (\<forall>r \<in> set (history os). 0 < e_seq r \<and> e_seq r < u64_max \<and> 8 \<le> length (e_key r))"
  by (simp add: family_ops_def family_old_ops_def history_def kinds_ok_def kind_defs prefixed_def word_less_nat_alt
      unsigned_minus_1_eq_mask mask_eq_exp_minus_1)

definition family_lists :: "entry list list" where
  "family_lists = map (\<lambda>os. slice 7 (map entry_of (ordered_puts (ikey_cmp Bytewise) (history os)))) [family_ops, family_old_ops]"

lemma family_view:
  "view_run Bytewise (Unbounded, Unbounded) (keys_of Bytewise 1 family_lists)
     (\<lambda>k. scan_result Bytewise None 10 0 [] family_lists k \<noteq> Inr None) [MoveLast, MovePrev] = Some [4]"
  "scan_result Bytewise None 10 0 [] family_lists [4] = Inr (Some [40])"
  by code_simp+


end
