(* ===== verification/Point_Read.thy ===== *)
theory Point_Read
  imports Unified
begin

text \<open>
  Point reads of one column family (\<open>src/src/column_family.rs\<close>): the choice of the sources that
  may hold a key, the candidate pass over them with range coverage and the \<open>max_seq\<close> early exit,
  the fold of a merge chain gathered from every source, and the variant that appends to the
  caller's buffer.

  SSTables are reached through \<open>table_ops\<close>: a handle with its catalog entry, a reader that may fail
  to open, and the reader's filter, lookup, range coverage and iterator. The clock and the read
  sequence are arguments; counters and profiling are left out.
\<close>

section \<open>Tables\<close>

record sst_meta =
  sm_id :: u64
  sm_level :: u32
  sm_num_entries :: u64
  sm_num_tombstones :: u64
  sm_max_seq :: u64
  sm_klog_size :: u64
  sm_vlog_size :: u64
  sm_min_key :: bytes
  sm_max_key :: bytes
  sm_partition :: "string option"
  sm_tier :: "string option"
  sm_max_entry_time :: "i64 option"
  sm_object :: "string option"
  sm_last_compaction_time :: "i64 option"
  sm_range_count :: u64
  sm_range_min_seq :: u64
  sm_range_max_seq :: u64
  sm_range_min_key :: "bytes option"
  sm_range_max_key :: "bytes option"
  sm_table_caps :: "u64 option"

definition sm_has_ranges :: "sst_meta \<Rightarrow> bool" where
  "sm_has_ranges m \<longleftrightarrow> sm_range_count m > 0"

definition span_min :: "comparator \<Rightarrow> sst_meta \<Rightarrow> bytes" where
  "span_min c m = (case sm_range_min_key m of
     Some k \<Rightarrow> if is_lt (compare c k (sm_min_key m)) then k else sm_min_key m | None \<Rightarrow> sm_min_key m)"

definition span_max :: "comparator \<Rightarrow> sst_meta \<Rightarrow> bytes" where
  "span_max c m = (case sm_range_max_key m of
     Some k \<Rightarrow> if is_gt (compare c k (sm_max_key m)) then k else sm_max_key m | None \<Rightarrow> sm_max_key m)"

definition span_contains :: "comparator \<Rightarrow> bytes \<Rightarrow> sst_meta \<Rightarrow> bool" where
  "span_contains c key m \<longleftrightarrow> is_ge (compare c key (span_min c m)) \<and> is_le (compare c key (span_max c m))"

type_synonym point_result = "bytes option \<times> u64 \<times> bool \<times> bool \<times> u64"

record ('t, 'r, 'c) table_ops =
  t_meta :: "'t \<Rightarrow> sst_meta"
  t_reader :: "'t \<Rightarrow> 'r result"
  r_bloom_hash :: "'r \<Rightarrow> bytes \<Rightarrow> u64"
  r_bloom_may_contain_hash :: "'r \<Rightarrow> u64 \<Rightarrow> bool"
  r_get_unfiltered :: "'r \<Rightarrow> bytes \<Rightarrow> u64 \<Rightarrow> i64 \<Rightarrow> point_result result"
  r_get_unfiltered_into :: "'r \<Rightarrow> bytes \<Rightarrow> u64 \<Rightarrow> i64 \<Rightarrow> bytes \<Rightarrow> bytes \<times> (u64 \<times> bool \<times> bool \<times> u64) result"
  r_covering_seq :: "'r \<Rightarrow> bytes \<Rightarrow> u64 \<Rightarrow> u64 option"
  r_iter :: "'r \<Rightarrow> 'c"

section \<open>Candidates\<close>

record point_candidate =
  pc_value :: "bytes option"
  pc_seq :: u64
  pc_found :: bool
  pc_deleted :: bool
  pc_kind :: u64
  pc_range_floor :: "u64 option"

definition pc_default :: point_candidate where
  "pc_default = \<lparr>pc_value = None, pc_seq = 0, pc_found = False, pc_deleted = False, pc_kind = KIND_PUT, pc_range_floor = None\<rparr>"

definition pc_consider :: "bytes option \<Rightarrow> u64 \<Rightarrow> bool \<Rightarrow> bool \<Rightarrow> u64 \<Rightarrow> point_candidate \<Rightarrow> point_candidate" where
  "pc_consider value seq found deleted kind p =
     (if found \<and> (\<not> pc_found p \<or> seq > pc_seq p)
      then p\<lparr>pc_value := value, pc_seq := seq, pc_found := True, pc_deleted := deleted, pc_kind := kind\<rparr> else p)"

definition pc_consider_memtable :: "lookup \<Rightarrow> point_candidate \<Rightarrow> point_candidate" where
  "pc_consider_memtable l p = pc_consider (if lk_deleted l then None else Some (lk_value l))
     (lk_seq l) (lk_found l) (lk_deleted l) (lk_kind l) p"

definition pc_mask :: "u64 option \<Rightarrow> point_candidate \<Rightarrow> point_candidate" where
  "pc_mask covering p = (case covering of
     None \<Rightarrow> p
   | Some seq \<Rightarrow>
       let p = p\<lparr>pc_range_floor := Some seq\<rparr> in
       if \<not> pc_found p \<or> seq > pc_seq p
       then p\<lparr>pc_value := None, pc_seq := seq, pc_found := True, pc_deleted := True, pc_kind := KIND_DELETE\<rparr> else p)"

definition pc_finish :: "point_candidate \<Rightarrow> bytes result" where
  "pc_finish p = (if pc_found p \<and> \<not> pc_deleted p then Inr (case pc_value p of Some v \<Rightarrow> v | None \<Rightarrow> []) else Inl NotFound)"

text \<open>The caller's buffer; the candidate's value lies from \<open>bc_start\<close> on.\<close>

record buf_candidate =
  bc_out :: bytes
  bc_start :: nat
  bc_found :: bool
  bc_seq :: u64
  bc_deleted :: bool
  bc_kind :: u64
  bc_range_floor :: "u64 option"

definition bc_new :: "bytes \<Rightarrow> buf_candidate" where
  "bc_new out = \<lparr>bc_out = out, bc_start = length out, bc_found = False, bc_seq = 0, bc_deleted = False,
     bc_kind = KIND_PUT, bc_range_floor = None\<rparr>"

definition bc_offer :: "u64 \<Rightarrow> u64 \<Rightarrow> bytes option \<Rightarrow> buf_candidate \<Rightarrow> buf_candidate" where
  "bc_offer seq kind value b =
     (if bc_found b \<and> seq \<le> bc_seq b then b
      else b\<lparr>bc_out := take (bc_start b) (bc_out b) @ (case value of Some v \<Rightarrow> v | None \<Rightarrow> []),
        bc_found := True, bc_seq := seq, bc_deleted := (value = None), bc_kind := kind\<rparr>)"

definition bc_finish :: "buf_candidate \<Rightarrow> bytes \<times> nat result" where
  "bc_finish b =
     (if bc_found b \<and> \<not> bc_deleted b then (bc_out b, Inr (length (bc_out b) - bc_start b))
      else (take (bc_start b) (bc_out b), Inl NotFound))"

section \<open>The two sinks of the candidate pass\<close>

record ('s, 'm, 'r) point_sink =
  ps_found :: "'s \<Rightarrow> bool"
  ps_seq :: "'s \<Rightarrow> u64"
  ps_probe_unified :: "'m unified_store \<Rightarrow> u64 \<Rightarrow> bytes \<Rightarrow> u64 \<Rightarrow> i64 \<Rightarrow> 's \<Rightarrow> 's"
  ps_probe_mem :: "'m memtable \<Rightarrow> bytes \<Rightarrow> u64 \<Rightarrow> i64 \<Rightarrow> 's \<Rightarrow> 's"
  ps_probe_table :: "'r \<Rightarrow> bytes \<Rightarrow> u64 \<Rightarrow> i64 \<Rightarrow> 's \<Rightarrow> 's \<times> unit result"
  ps_apply_mask :: "u64 option \<Rightarrow> 's \<Rightarrow> 's"

definition candidate_sink :: "('t, 'r, 'c) table_ops \<Rightarrow> 'm skip_ops \<Rightarrow> (bytes \<Rightarrow> u64) \<Rightarrow> (point_candidate, 'm, 'r) point_sink" where
  "candidate_sink tops ops hash = \<lparr>
     ps_found = pc_found,
     ps_seq = pc_seq,
     ps_probe_unified = (\<lambda>u cid key read_seq now. pc_consider_memtable (us_get ops hash cid key read_seq now u)),
     ps_probe_mem = (\<lambda>mem key read_seq now. pc_consider_memtable (mem_get ops hash key read_seq now mem)),
     ps_probe_table = (\<lambda>rd key read_seq now p. case r_get_unfiltered tops rd key read_seq now of
        Inl e \<Rightarrow> (p, Inl e)
      | Inr (value, seq, found, deleted, kind) \<Rightarrow> (pc_consider value seq found deleted kind p, Inr ())),
     ps_apply_mask = pc_mask\<rparr>"

definition bc_probe_table :: "('t, 'r, 'c) table_ops \<Rightarrow> 'r \<Rightarrow> bytes \<Rightarrow> u64 \<Rightarrow> i64 \<Rightarrow> buf_candidate \<Rightarrow> buf_candidate \<times> unit result" where
  "bc_probe_table tops rd key read_seq now b =
     (let tail = length (bc_out b) in
      case r_get_unfiltered_into tops rd key read_seq now (bc_out b) of
        (out, Inl e) \<Rightarrow> (b\<lparr>bc_out := take tail out\<rparr>, Inl e)
      | (out, Inr (seq, found, deleted, kind)) \<Rightarrow>
          if found \<and> (\<not> bc_found b \<or> seq > bc_seq b)
          then (b\<lparr>bc_out := take (bc_start b) out @ drop tail out, bc_found := True, bc_seq := seq,
            bc_deleted := deleted, bc_kind := kind\<rparr>, Inr ())
          else (b\<lparr>bc_out := take tail out\<rparr>, Inr ()))"

definition bc_apply_mask :: "u64 option \<Rightarrow> buf_candidate \<Rightarrow> buf_candidate" where
  "bc_apply_mask covering b = (case covering of
     None \<Rightarrow> b
   | Some seq \<Rightarrow>
       let b = b\<lparr>bc_range_floor := Some seq\<rparr> in
       if \<not> bc_found b \<or> seq > bc_seq b
       then b\<lparr>bc_out := take (bc_start b) (bc_out b), bc_found := True, bc_seq := seq, bc_deleted := True,
         bc_kind := KIND_DELETE\<rparr> else b)"

definition buf_sink :: "('t, 'r, 'c) table_ops \<Rightarrow> 'm skip_ops \<Rightarrow> (bytes \<Rightarrow> u64) \<Rightarrow> (buf_candidate, 'm, 'r) point_sink" where
  "buf_sink tops ops hash = \<lparr>
     ps_found = bc_found,
     ps_seq = bc_seq,
     ps_probe_unified = (\<lambda>u cid key read_seq now.
        us_chain ops hash cid key read_seq now (\<lambda>b seq kind value. (bc_offer seq kind value b, False)) u),
     ps_probe_mem = (\<lambda>mem key read_seq now.
        mem_chain ops hash key read_seq now (\<lambda>b seq kind value. (bc_offer seq kind value b, False)) mem),
     ps_probe_table = bc_probe_table tops,
     ps_apply_mask = bc_apply_mask\<rparr>"

section \<open>Choosing the sources\<close>

text \<open>Of \<open>CfState\<close> the parts a read takes, and of \<open>ColumnFamily\<close> its comparator, id, shared store and operator.\<close>

record ('m, 't) cf_state =
  cs_mem :: "'m memtable"
  cs_imm :: "'m memtable list"
  cs_levels :: "'t list list"

record 'm family =
  cf_cmp :: comparator
  cf_cid :: u64
  cf_unified :: "'m unified_store option"
  cf_merge_op :: "merge_operator option"

record ('m, 't) point_sources =
  src_mem :: "'m memtable"
  src_imms :: "'m memtable list"
  src_tables :: "'t list"
  src_range_tables :: "'t list"

definition src_has_ranges :: "('t, 'r, 'c) table_ops \<Rightarrow> ('m, 't) point_sources \<Rightarrow> bool" where
  "src_has_ranges tops s \<longleftrightarrow> src_range_tables s \<noteq> [] \<or> \<not> rt_is_empty (mt_ranges (src_mem s))
     \<or> (\<exists>m \<in> set (src_imms s). \<not> rt_is_empty (mt_ranges m))
     \<or> (\<exists>t \<in> set (src_tables s). sm_has_ranges (t_meta tops t))"

definition key_in_range :: "comparator \<Rightarrow> bytes \<Rightarrow> sst_meta \<Rightarrow> bool" where
  "key_in_range c key m \<longleftrightarrow> is_ge (compare c key (sm_min_key m)) \<and> is_le (compare c key (sm_max_key m))"

function overlap_search :: "comparator \<Rightarrow> bytes \<Rightarrow> sst_meta list \<Rightarrow> nat \<Rightarrow> nat \<Rightarrow> nat" where
  "overlap_search c key level lo hi =
     (if lo < hi then
        let mid = (lo + hi) div 2 in
        if is_lt (compare c (sm_max_key (level ! mid)) key) then overlap_search c key level (mid + 1) hi
        else overlap_search c key level lo mid
      else lo)"
  by auto
termination by (relation "measure (\<lambda>(_, _, _, lo, hi). hi - lo)") auto

declare overlap_search.simps [simp del]

definition find_overlapping_at :: "comparator \<Rightarrow> bytes \<Rightarrow> sst_meta list \<Rightarrow> nat option \<times> nat" where
  "find_overlapping_at c key level =
     (let lo = overlap_search c key level 0 (length level) in
      (if lo < length level \<and> is_ge (compare c key (sm_min_key (level ! lo))) then Some lo else None, lo))"

definition gap_owner :: "comparator \<Rightarrow> bytes \<Rightarrow> sst_meta list \<Rightarrow> nat option \<Rightarrow> nat \<Rightarrow> nat option" where
  "gap_owner c key level point lo =
     (let i = (case point of Some i \<Rightarrow> i | None \<Rightarrow> lo) in
      if i = 0 then None
      else
        let candidate = i - 1; meta = level ! candidate in
        if \<not> sm_has_ranges meta then None
        else case sm_range_max_key meta of
          None \<Rightarrow> None
        | Some end' \<Rightarrow> if is_lt (compare c key end') then Some candidate else None)"

definition level_sources :: "('t, 'r, 'c) table_ops \<Rightarrow> comparator \<Rightarrow> bytes \<Rightarrow> 't list \<Rightarrow> 't list \<times> 't list" where
  "level_sources tops c key lvl =
     (let metas = map (t_meta tops) lvl; (hit, lo) = find_overlapping_at c key metas in
      (case hit of Some i \<Rightarrow> [lvl ! i] | None \<Rightarrow> [],
       case gap_owner c key metas hit lo of Some g \<Rightarrow> [lvl ! g] | None \<Rightarrow> []))"

definition l0_range_only :: "('t, 'r, 'c) table_ops \<Rightarrow> comparator \<Rightarrow> bytes \<Rightarrow> 't \<Rightarrow> bool" where
  "l0_range_only tops c key t \<longleftrightarrow> \<not> key_in_range c key (t_meta tops t) \<and> sm_has_ranges (t_meta tops t)
     \<and> span_contains c key (t_meta tops t)"

text \<open>\<open>s.levels[0]\<close> panics on a family without levels.\<close>

definition point_read_sources :: "('t, 'r, 'c) table_ops \<Rightarrow> comparator \<Rightarrow> bytes \<Rightarrow> ('m, 't) cf_state
    \<Rightarrow> ('m, 't) point_sources result" where
  "point_read_sources tops c key s = (case cs_levels s of
     [] \<Rightarrow> Inl Panic
   | l0 # rest \<Rightarrow>
       let hits = map (level_sources tops c key) rest in
       Inr \<lparr>src_mem = cs_mem s, src_imms = cs_imm s,
         src_tables = filter (\<lambda>t. key_in_range c key (t_meta tops t)) l0 @ concat (map fst hits),
         src_range_tables = filter (l0_range_only tops c key) l0 @ concat (map snd hits)\<rparr>)"

section \<open>Range coverage and the candidate pass\<close>

definition unified_has_ranges :: "'m family \<Rightarrow> bool" where
  "unified_has_ranges cf \<longleftrightarrow> (case cf_unified cf of None \<Rightarrow> False | Some u \<Rightarrow> us_has_ranges u)"

fun tables_covering :: "('t, 'r, 'c) table_ops \<Rightarrow> bytes \<Rightarrow> u64 \<Rightarrow> u64 option \<Rightarrow> 't list \<Rightarrow> u64 option result" where
  "tables_covering tops key read_seq best [] = Inr best"
| "tables_covering tops key read_seq best (t # ts) =
     (if \<not> sm_has_ranges (t_meta tops t) then tables_covering tops key read_seq best ts
      else rbind (t_reader tops t) (\<lambda>rd.
        tables_covering tops key read_seq (newer_seq best (r_covering_seq tops rd key read_seq)) ts))"

definition covering_range_seq :: "('t, 'r, 'c) table_ops \<Rightarrow> 'm family \<Rightarrow> ('m, 't) point_sources \<Rightarrow> bytes \<Rightarrow> u64
    \<Rightarrow> u64 option result" where
  "covering_range_seq tops cf s key read_seq =
     (if \<not> src_has_ranges tops s \<and> \<not> unified_has_ranges cf then Inr None
      else
        rbind (case cf_unified cf of None \<Rightarrow> Inr None | Some u \<Rightarrow> us_covering_seq (cf_cid cf) key read_seq u) (\<lambda>best.
        rbind (best_covering key read_seq best (src_mem s # src_imms s)) (\<lambda>best.
        tables_covering tops key read_seq best (src_tables s @ src_range_tables s))))"

fun consider_sstables :: "('s, 'm, 'r) point_sink \<Rightarrow> ('t, 'r, 'c) table_ops \<Rightarrow> bytes \<Rightarrow> u64 \<Rightarrow> i64 \<Rightarrow> bool \<Rightarrow> 't list
    \<Rightarrow> 's \<Rightarrow> 's \<times> unit result" where
  "consider_sstables sink tops key read_seq now early_exit [] st = (st, Inr ())"
| "consider_sstables sink tops key read_seq now early_exit (t # ts) st =
     (if early_exit \<and> ps_found sink st \<and> sm_max_seq (t_meta tops t) \<le> ps_seq sink st
      then consider_sstables sink tops key read_seq now early_exit ts st
      else case t_reader tops t of
        Inl e \<Rightarrow> (st, Inl e)
      | Inr rd \<Rightarrow>
          if \<not> r_bloom_may_contain_hash tops rd (r_bloom_hash tops rd key)
          then consider_sstables sink tops key read_seq now early_exit ts st
          else case ps_probe_table sink rd key read_seq now st of
            (st, Inl e) \<Rightarrow> (st, Inl e)
          | (st, Inr _) \<Rightarrow> consider_sstables sink tops key read_seq now early_exit ts st)"

definition resolve_point :: "('s, 'm, 'r) point_sink \<Rightarrow> ('t, 'r, 'c) table_ops \<Rightarrow> 'm family \<Rightarrow> ('m, 't) point_sources
    \<Rightarrow> bytes \<Rightarrow> u64 \<Rightarrow> i64 \<Rightarrow> bool \<Rightarrow> 's \<Rightarrow> 's \<times> unit result" where
  "resolve_point sink tops cf s key read_seq now early_exit st =
     (let st = (case cf_unified cf of None \<Rightarrow> st | Some u \<Rightarrow> ps_probe_unified sink u (cf_cid cf) key read_seq now st);
          st = ps_probe_mem sink (src_mem s) key read_seq now st;
          st = foldl (\<lambda>st m. ps_probe_mem sink m key read_seq now st) st (rev (src_imms s))
      in case covering_range_seq tops cf s key read_seq of
           Inl e \<Rightarrow> (st, Inl e)
         | Inr covering \<Rightarrow>
             consider_sstables sink tops key read_seq now early_exit (src_tables s) (ps_apply_mask sink covering st))"

section \<open>Merge chains\<close>

record chain_version =
  cv_seq :: u64
  cv_merge :: bool
  cv_value :: "bytes option"

definition collect_chain :: "chain_version list \<Rightarrow> u64 \<Rightarrow> u64 \<Rightarrow> bytes option \<Rightarrow> chain_version list \<times> bool" where
  "collect_chain out seq kind value =
     (let merge = (kind = KIND_MERGE) in (out @ [\<lparr>cv_seq = seq, cv_merge = merge, cv_value = value\<rparr>], merge))"

fun gather_operands :: "u64 option \<Rightarrow> bytes list \<Rightarrow> chain_version list \<Rightarrow> bytes list \<times> bytes option" where
  "gather_operands last_seq operands [] = (operands, None)"
| "gather_operands last_seq operands (v # vs) =
     (if last_seq = Some (cv_seq v) then gather_operands (Some (cv_seq v)) operands vs
      else if cv_merge v
      then gather_operands (Some (cv_seq v)) (operands @ [case cv_value v of Some b \<Rightarrow> b | None \<Rightarrow> []]) vs
      else (operands, cv_value v))"

definition fold_chain :: "merge_operator \<Rightarrow> bytes \<Rightarrow> chain_version list \<Rightarrow> bytes result" where
  "fold_chain op user_key vs =
     (case gather_operands None [] (sort_by (\<lambda>a b. ord_cmp (cv_seq b) (cv_seq a)) vs) of (operands, existing) \<Rightarrow>
        if operands = [] then (case existing of Some v \<Rightarrow> Inr v | None \<Rightarrow> Inl NotFound)
        else case op user_key existing (rev operands) of
          Inl e \<Rightarrow> Inl (Corruption ''merge operator failed'')
        | Inr v \<Rightarrow> Inr v)"

text \<open>\<open>None\<close> where the table's iterator never leaves the key's operands.\<close>

partial_function (option) table_chain_loop :: "'c child_ops \<Rightarrow> comparator \<Rightarrow> bytes \<Rightarrow> i64 \<Rightarrow> 'c \<Rightarrow> chain_version list
    \<Rightarrow> ('c \<times> chain_version list result) option" where
  "table_chain_loop cops c user_key now it out =
     (if \<not> ch_valid cops it then Some (it, Inr out)
      else if compare c (ch_user_key cops it) user_key \<noteq> Equal then Some (it, Inr out)
      else if ch_kind cops it = KIND_MERGE then
        (case ch_value_into cops it of
           Inl e \<Rightarrow> Some (it, Inl e)
         | Inr v \<Rightarrow> table_chain_loop cops c user_key now (ch_next cops it)
             (out @ [\<lparr>cv_seq = ch_seq cops it, cv_merge = True, cv_value = Some v\<rparr>]))
      else if ch_tombstone cops it \<or> (ch_ttl cops it \<noteq> 0 \<and> sint (ch_ttl cops it) \<le> sint now)
      then Some (it, Inr (out @ [\<lparr>cv_seq = ch_seq cops it, cv_merge = False, cv_value = None\<rparr>]))
      else case ch_value_into cops it of
        Inl e \<Rightarrow> Some (it, Inl e)
      | Inr v \<Rightarrow> Some (it, Inr (out @ [\<lparr>cv_seq = ch_seq cops it, cv_merge = False, cv_value = Some v\<rparr>])))"

declare table_chain_loop.simps [code]

definition collect_table_chain :: "('t, 'r, 'c) table_ops \<Rightarrow> 'c child_ops \<Rightarrow> comparator \<Rightarrow> bytes \<Rightarrow> u64 \<Rightarrow> i64 \<Rightarrow> 't
    \<Rightarrow> chain_version list \<Rightarrow> chain_version list result option" where
  "collect_table_chain tops cops c user_key read_seq now t out = (case t_reader tops t of
     Inl e \<Rightarrow> Some (Inl e)
   | Inr rd \<Rightarrow>
       if \<not> r_bloom_may_contain_hash tops rd (r_bloom_hash tops rd user_key) then Some (Inr out)
       else map_option (\<lambda>(it, r). rbind r (\<lambda>out. case ch_err cops it of Some e \<Rightarrow> Inl (duplicate e) | None \<Rightarrow> Inr out))
         (table_chain_loop cops c user_key now (ch_seek_ge cops user_key read_seq (r_iter tops rd)) out))"

fun collect_tables :: "('t, 'r, 'c) table_ops \<Rightarrow> 'c child_ops \<Rightarrow> comparator \<Rightarrow> bytes \<Rightarrow> u64 \<Rightarrow> i64 \<Rightarrow> 't list
    \<Rightarrow> chain_version list \<Rightarrow> chain_version list result option" where
  "collect_tables tops cops c user_key read_seq now [] out = Some (Inr out)"
| "collect_tables tops cops c user_key read_seq now (t # ts) out =
     Option.bind (collect_table_chain tops cops c user_key read_seq now t out) (\<lambda>r. case r of
       Inl e \<Rightarrow> Some (Inl e) | Inr out \<Rightarrow> collect_tables tops cops c user_key read_seq now ts out)"

definition fold_point_chain :: "('t, 'r, 'c) table_ops \<Rightarrow> 'c child_ops \<Rightarrow> 'm skip_ops \<Rightarrow> (bytes \<Rightarrow> u64) \<Rightarrow> 'm family
    \<Rightarrow> merge_operator \<Rightarrow> ('m, 't) point_sources \<Rightarrow> bytes \<Rightarrow> u64 \<Rightarrow> i64 \<Rightarrow> u64 option \<Rightarrow> bytes result option" where
  "fold_point_chain tops cops ops hash cf op s user_key read_seq now range_floor =
     (let vs = (case range_floor of Some seq \<Rightarrow> [\<lparr>cv_seq = seq, cv_merge = False, cv_value = None\<rparr>] | None \<Rightarrow> []);
          vs = (case cf_unified cf of None \<Rightarrow> vs
            | Some u \<Rightarrow> us_chain ops hash (cf_cid cf) user_key read_seq now collect_chain u vs);
          vs = foldl (\<lambda>vs m. mem_chain ops hash user_key read_seq now collect_chain m vs) vs (src_mem s # rev (src_imms s))
      in map_option (\<lambda>r. rbind r (fold_chain op user_key))
           (collect_tables tops cops (cf_cmp cf) user_key read_seq now (src_tables s) vs))"

definition fold_winning_operand :: "('t, 'r, 'c) table_ops \<Rightarrow> 'c child_ops \<Rightarrow> 'm skip_ops \<Rightarrow> (bytes \<Rightarrow> u64) \<Rightarrow> 'm family
    \<Rightarrow> ('m, 't) point_sources \<Rightarrow> bytes \<Rightarrow> u64 \<Rightarrow> i64 \<Rightarrow> u64 option \<Rightarrow> bytes result option" where
  "fold_winning_operand tops cops ops hash cf s user_key read_seq now range_floor = (case cf_merge_op cf of
     Some op \<Rightarrow> fold_point_chain tops cops ops hash cf op s user_key read_seq now range_floor
   | None \<Rightarrow> Some (Inl (Corruption ''merge operand without a merge operator'')))"

section \<open>Reads\<close>

definition get_impl :: "('t, 'r, 'c) table_ops \<Rightarrow> 'c child_ops \<Rightarrow> 'm skip_ops \<Rightarrow> (bytes \<Rightarrow> u64) \<Rightarrow> 'm family
    \<Rightarrow> ('m, 't) cf_state \<Rightarrow> bytes \<Rightarrow> u64 \<Rightarrow> i64 \<Rightarrow> bool \<Rightarrow> bytes result option" where
  "get_impl tops cops ops hash cf st user_key read_seq now early_exit =
     (case point_read_sources tops (cf_cmp cf) user_key st of
        Inl e \<Rightarrow> Some (Inl e)
      | Inr s \<Rightarrow>
          case resolve_point (candidate_sink tops ops hash) tops cf s user_key read_seq now early_exit pc_default of
            (_, Inl e) \<Rightarrow> Some (Inl e)
          | (candidate, Inr _) \<Rightarrow>
              if pc_kind candidate = KIND_MERGE
              then fold_winning_operand tops cops ops hash cf s user_key read_seq now (pc_range_floor candidate)
              else Some (pc_finish candidate))"

text \<open>The result pairs the caller's buffer with the length of the value appended to it.\<close>

definition get_into :: "('t, 'r, 'c) table_ops \<Rightarrow> 'c child_ops \<Rightarrow> 'm skip_ops \<Rightarrow> (bytes \<Rightarrow> u64) \<Rightarrow> 'm family
    \<Rightarrow> ('m, 't) cf_state \<Rightarrow> bytes \<Rightarrow> u64 \<Rightarrow> i64 \<Rightarrow> bytes \<Rightarrow> (bytes \<times> nat result) option" where
  "get_into tops cops ops hash cf st user_key read_seq now out =
     (case point_read_sources tops (cf_cmp cf) user_key st of
        Inl e \<Rightarrow> Some (out, Inl e)
      | Inr s \<Rightarrow>
          let start = length out in
          case resolve_point (buf_sink tops ops hash) tops cf s user_key read_seq now True (bc_new out) of
            (candidate, Inl e) \<Rightarrow> Some (take start (bc_out candidate), Inl e)
          | (candidate, Inr _) \<Rightarrow>
              if bc_kind candidate = KIND_MERGE
              then map_option (\<lambda>r. case r of
                     Inl e \<Rightarrow> (take start (bc_out candidate), Inl e)
                   | Inr value \<Rightarrow> (take start (bc_out candidate) @ value, Inr (length value)))
                 (fold_winning_operand tops cops ops hash cf s user_key read_seq now (bc_range_floor candidate))
              else Some (bc_finish candidate))"

end
