(* ===== verification/Point_Into.thy ===== *)
theory Point_Into
  imports Point_Read
begin

text \<open>
  The buffer read \<open>get_into\<close> of \<open>src/src/column_family.rs\<close> is \<open>get\<close> followed by an append: the
  simulation \<open>buf_image\<close> carries every step of the candidate pass from one sink to the other.
\<close>

section \<open>The first version of a chain\<close>

lemma feed_first:
  "mem_chain ops hash k rs now (\<lambda>st seq kind v. (g st seq kind v, False)) m st =
    (let l = mem_get ops hash k rs now m in
     if lk_found l then g st (lk_seq l) (lk_kind l) (if lk_deleted l then None else Some (lk_value l)) else st)"
proof -
  have loop: "chain_loop ops c shard k now (\<lambda>st seq kind v. (g st seq kind v, False)) (Suc n) cursor st =
      (case cursor of None \<Rightarrow> st | Some ((uk, seq), v) \<Rightarrow>
         if compare c uk k \<noteq> Equal then st
         else g st seq (ucast (v_kind v)) (if v_flags v AND TOMBSTONE \<noteq> 0 \<or> (v_ttl v \<noteq> 0 \<and> sint (v_ttl v) \<le> sint now)
           then None else Some (v_value v)))" for c shard n cursor
    by (cases cursor) (auto simp: Let_def)
  show ?thesis
    by (simp add: mem_chain_def mem_get_def Let_def loop lookup_default_def split: option.splits prod.splits)
qed

lemma us_feed_first:
  "us_chain ops hash cid k rs now (\<lambda>st seq kind v. (g st seq kind v, False)) u st =
    (let l = us_get ops hash cid k rs now u in
     if lk_found l then g st (lk_seq l) (lk_kind l) (if lk_deleted l then None else Some (lk_value l)) else st)"
proof -
  let ?F = "\<lambda>pk. us_chain_from ops hash pk rs now (\<lambda>st seq kind v. (g st seq kind v, False))"
  have stop: "?F pk ms (s, True) = (s, True)" for pk ms s
    by (induction ms) (simp_all add: us_chain_from_def)
  have one: "?F pk (m # ms) (st, False) = ?F pk ms
      (let l = mem_get ops hash pk rs now m in
       if lk_found l then (g st (lk_seq l) (lk_kind l) (if lk_deleted l then None else Some (lk_value l)), True) else (st, False))" for pk m ms
    using feed_first [of ops hash pk rs now "\<lambda>st seq kind v. (g (fst st) seq kind v, True)" m "(st, False)"]
    by (simp add: us_chain_from_def Let_def)
  have "fst (us_chain_from ops hash pk rs now (\<lambda>st seq kind v. (g st seq kind v, False)) ms (st, False)) =
      (let l = us_get_from ops hash pk rs now ms in
       if lk_found l then g st (lk_seq l) (lk_kind l) (if lk_deleted l then None else Some (lk_value l)) else st)" for pk ms
  proof (induction ms)
    case Nil
    show ?case by (simp add: us_chain_from_def us_get_from_def lookup_default_def)
  next
    case (Cons m ms)
    show ?case
    proof (cases "lk_found (mem_get ops hash pk rs now m)")
      case True
      then show ?thesis by (simp add: one stop us_get_from_def Let_def)
    next
      case False
      with Cons show ?thesis by (simp add: one us_get_from_def Let_def)
    qed
  qed
  then show ?thesis by (simp add: us_chain_def us_get_def)
qed

section \<open>The buffer follows the candidate\<close>

definition buf_image :: "bytes \<Rightarrow> point_candidate \<Rightarrow> buf_candidate" where
  "buf_image out p = \<lparr>bc_out = out @ (case pc_value p of Some v \<Rightarrow> v | None \<Rightarrow> []), bc_start = length out,
     bc_found = pc_found p, bc_seq = pc_seq p, bc_deleted = pc_deleted p, bc_kind = pc_kind p, bc_range_floor = pc_range_floor p\<rparr>"

definition values_agree :: "point_candidate \<Rightarrow> bool" where
  "values_agree p \<longleftrightarrow> (pc_found p \<longrightarrow> pc_deleted p = (pc_value p = None))"

text \<open>What \<open>get_unfiltered_into\<close> documents: the answer of \<open>get_unfiltered\<close>, a live value appended.\<close>

definition into_law :: "('t, 'r, 'c) table_ops \<Rightarrow> bool" where
  "into_law tops \<longleftrightarrow> (\<forall>rd k rs now out. case r_get_unfiltered tops rd k rs now of
     Inl e \<Rightarrow> (\<exists>x. r_get_unfiltered_into tops rd k rs now out = (out @ x, Inl e))
   | Inr (value, seq, found, deleted, kind) \<Rightarrow> (value \<noteq> None \<longleftrightarrow> found \<and> \<not> deleted)
       \<and> r_get_unfiltered_into tops rd k rs now out =
           (out @ (case value of Some v \<Rightarrow> v | None \<Rightarrow> []), Inr (seq, found, deleted, kind)))"

lemma image_start: "take (length out) (bc_out (buf_image out p)) = out"
  by (simp add: buf_image_def)

lemma image_new: "buf_image out pc_default = bc_new out" "values_agree pc_default"
  by (simp_all add: buf_image_def pc_default_def bc_new_def values_agree_def)

lemma image_offer:
  assumes "values_agree p"
  shows "buf_image out (pc_consider_memtable l p) = (if lk_found l
      then bc_offer (lk_seq l) (lk_kind l) (if lk_deleted l then None else Some (lk_value l)) (buf_image out p) else buf_image out p)"
    and "values_agree (pc_consider_memtable l p)"
  using assms by (auto simp: buf_image_def pc_consider_memtable_def pc_consider_def bc_offer_def values_agree_def not_le)

lemma image_mask:
  assumes "values_agree p"
  shows "buf_image out (pc_mask cover p) = bc_apply_mask cover (buf_image out p)" and "values_agree (pc_mask cover p)"
  using assms by (auto simp: buf_image_def pc_mask_def bc_apply_mask_def values_agree_def Let_def split: option.splits)

lemma into_error:
  assumes "into_law tops" "r_get_unfiltered tops rd k rs now = Inl e"
  shows "\<exists>x. r_get_unfiltered_into tops rd k rs now out = (out @ x, Inl e)"
  using assms(1) [unfolded into_law_def, rule_format, of rd k rs now out] assms(2) by simp

lemma into_value:
  assumes "into_law tops" "r_get_unfiltered tops rd k rs now = Inr (v, s, f, d, kd)"
  shows "v \<noteq> None \<longleftrightarrow> f \<and> \<not> d"
    and "r_get_unfiltered_into tops rd k rs now out = (out @ (case v of Some v \<Rightarrow> v | None \<Rightarrow> []), Inr (s, f, d, kd))"
  using assms(1) [unfolded into_law_def, rule_format, of rd k rs now out] assms(2) by simp_all

lemma image_table:
  assumes law: "into_law tops" and p: "values_agree p"
    and probe: "ps_probe_table (candidate_sink tops ops hash) rd k rs now p = (p', r)"
  shows "\<exists>b'. ps_probe_table (buf_sink tops ops hash) rd k rs now (buf_image out p) = (b', r)
    \<and> (r = Inr () \<longrightarrow> b' = buf_image out p') \<and> values_agree p' \<and> take (length out) (bc_out b') = out"
proof (cases "r_get_unfiltered tops rd k rs now")
  case (Inl e)
  obtain x where "r_get_unfiltered_into tops rd k rs now (bc_out (buf_image out p)) = (bc_out (buf_image out p) @ x, Inl e)"
    using into_error [OF law Inl] by blast
  with probe p Inl show ?thesis by (simp add: candidate_sink_def buf_sink_def bc_probe_table_def buf_image_def)
next
  case (Inr a)
  obtain v s f d kd where a: "a = (v, s, f, d, kd)" by (cases a)
  note get = Inr [unfolded a]
  note live = into_value(1) [OF law get]
  have p': "p' = pc_consider v s f d kd p" and r: "r = Inr ()" using probe get by (simp_all add: candidate_sink_def)
  have "values_agree p'" using p live by (cases v) (simp_all add: p' pc_consider_def values_agree_def)
  moreover have "bc_probe_table tops rd k rs now (buf_image out p) = (buf_image out p', Inr ())"
    by (cases "f \<and> (\<not> pc_found p \<or> s > pc_seq p)")
      (auto simp: bc_probe_table_def into_value(2) [OF law get] p' pc_consider_def Let_def buf_image_def)
  ultimately show ?thesis by (simp add: buf_sink_def r image_start)
qed

lemma sinks:
  "ps_found (buf_sink tops ops hash) (buf_image out p) = ps_found (candidate_sink tops ops hash) p"
  "ps_seq (buf_sink tops ops hash) (buf_image out p) = ps_seq (candidate_sink tops ops hash) p"
  by (simp_all add: candidate_sink_def buf_sink_def buf_image_def)

lemma image_tables:
  assumes law: "into_law tops" and p: "values_agree p"
    and tables: "consider_sstables (candidate_sink tops ops hash) tops k rs now early ts p = (p', r)"
  shows "\<exists>b'. consider_sstables (buf_sink tops ops hash) tops k rs now early ts (buf_image out p) = (b', r)
    \<and> (r = Inr () \<longrightarrow> b' = buf_image out p') \<and> values_agree p' \<and> take (length out) (bc_out b') = out"
  using p tables
proof (induction ts arbitrary: p)
  case Nil
  then show ?case by (auto simp: buf_image_def)
next
  case (Cons t ts)
  let ?c = "candidate_sink tops ops hash" and ?b = "buf_sink tops ops hash"
  show ?case
  proof (cases "early \<and> ps_found ?c p \<and> sm_max_seq (t_meta tops t) \<le> ps_seq ?c p")
    case True
    with Cons show ?thesis by (simp add: sinks)
  next
    case skip: False
    show ?thesis
    proof (cases "t_reader tops t")
      case (Inl e)
      with Cons.prems skip show ?thesis by (auto simp: sinks image_start)
    next
      case (Inr rd)
      show ?thesis
      proof (cases "r_bloom_may_contain_hash tops rd (r_bloom_hash tops rd k)")
        case False
        with Cons.prems Cons.IH [of p] skip Inr show ?thesis by (auto simp: sinks)
      next
        case bloom: True
        obtain p1 r1 where one: "ps_probe_table ?c rd k rs now p = (p1, r1)" by fastforce
        obtain b1 where b1: "ps_probe_table ?b rd k rs now (buf_image out p) = (b1, r1)"
            "r1 = Inr () \<longrightarrow> b1 = buf_image out p1" "values_agree p1" "take (length out) (bc_out b1) = out"
          using image_table [OF law Cons.prems(1) one, of out] by blast
        show ?thesis
        proof (cases r1)
          case (Inl e)
          with Cons.prems skip \<open>t_reader tops t = Inr rd\<close> bloom one b1 show ?thesis by (auto simp: sinks)
        next
          case (Inr u)
          with Cons.prems skip \<open>t_reader tops t = Inr rd\<close> bloom one b1 Cons.IH [of p1] show ?thesis by (auto simp: sinks)
        qed
      qed
    qed
  qed
qed

lemma image_mem:
  assumes "values_agree p"
  shows "ps_probe_mem (buf_sink tops ops hash) m k rs now (buf_image out p)
      = buf_image out (ps_probe_mem (candidate_sink tops ops hash) m k rs now p)"
    and "values_agree (ps_probe_mem (candidate_sink tops ops hash) m k rs now p)"
  using image_offer(1) [OF assms, of out "mem_get ops hash k rs now m"] image_offer(2) [OF assms, of "mem_get ops hash k rs now m"]
    feed_first [of ops hash k rs now "\<lambda>b seq kind v. bc_offer seq kind v b" m "buf_image out p"]
  by (simp_all add: candidate_sink_def buf_sink_def Let_def)

lemma image_unified:
  assumes "values_agree p"
  shows "ps_probe_unified (buf_sink tops ops hash) u cid k rs now (buf_image out p)
      = buf_image out (ps_probe_unified (candidate_sink tops ops hash) u cid k rs now p)"
    and "values_agree (ps_probe_unified (candidate_sink tops ops hash) u cid k rs now p)"
  using image_offer(1) [OF assms, of out "us_get ops hash cid k rs now u"] image_offer(2) [OF assms, of "us_get ops hash cid k rs now u"]
    us_feed_first [of ops hash cid k rs now "\<lambda>b seq kind v. bc_offer seq kind v b" u "buf_image out p"]
  by (simp_all add: candidate_sink_def buf_sink_def Let_def)

lemma image_mems:
  assumes "values_agree p"
  shows "foldl (\<lambda>st m. ps_probe_mem (buf_sink tops ops hash) m k rs now st) (buf_image out p) ms
      = buf_image out (foldl (\<lambda>st m. ps_probe_mem (candidate_sink tops ops hash) m k rs now st) p ms)"
    and "values_agree (foldl (\<lambda>st m. ps_probe_mem (candidate_sink tops ops hash) m k rs now st) p ms)"
  using assms by (induction ms arbitrary: p) (simp_all add: image_mem)

lemma image_resolve:
  assumes law: "into_law tops" and p: "values_agree p"
    and res: "resolve_point (candidate_sink tops ops hash) tops cf s k rs now early p = (p', r)"
  shows "\<exists>b'. resolve_point (buf_sink tops ops hash) tops cf s k rs now early (buf_image out p) = (b', r)
    \<and> (r = Inr () \<longrightarrow> b' = buf_image out p') \<and> values_agree p' \<and> take (length out) (bc_out b') = out"
proof -
  let ?c = "candidate_sink tops ops hash" and ?b = "buf_sink tops ops hash"
  define p1 where "p1 = (case cf_unified cf of None \<Rightarrow> p | Some u \<Rightarrow> ps_probe_unified ?c u (cf_cid cf) k rs now p)"
  have p1: "(case cf_unified cf of None \<Rightarrow> buf_image out p | Some u \<Rightarrow> ps_probe_unified ?b u (cf_cid cf) k rs now (buf_image out p))
      = buf_image out p1" "values_agree p1"
    using p by (simp_all add: p1_def image_unified split: option.splits)
  define p2 where "p2 = foldl (\<lambda>st m. ps_probe_mem ?c m k rs now st) (ps_probe_mem ?c (src_mem s) k rs now p1) (rev (src_imms s))"
  have p2: "foldl (\<lambda>st m. ps_probe_mem ?b m k rs now st) (ps_probe_mem ?b (src_mem s) k rs now (buf_image out p1)) (rev (src_imms s))
      = buf_image out p2" "values_agree p2"
    using p1(2) unfolding p2_def by (simp_all only: image_mem image_mems)
  show ?thesis
  proof (cases "covering_range_seq tops cf s k rs")
    case (Inl e)
    with res p2(2) show ?thesis by (auto simp: resolve_point_def Let_def p1(1) p2(1) image_start simp flip: p1_def p2_def)
  next
    case (Inr cover)
    have mask: "ps_apply_mask ?b cover (buf_image out p2) = buf_image out (ps_apply_mask ?c cover p2)" "values_agree (ps_apply_mask ?c cover p2)"
      using image_mask [OF p2(2)] by (simp_all add: candidate_sink_def buf_sink_def)
    have "consider_sstables ?c tops k rs now early (src_tables s) (ps_apply_mask ?c cover p2) = (p', r)"
      using res Inr by (simp add: resolve_point_def Let_def flip: p1_def p2_def)
    from image_tables [OF law mask(2) this, of out] show ?thesis
      using Inr by (simp add: resolve_point_def Let_def p1(1) p2(1) mask(1))
  qed
qed

text \<open>C6. \<open>get_into\<close> is \<open>get\<close> followed by an append: whenever \<open>get\<close> returns a value the buffer read returns its
  length and leaves the caller's bytes with exactly that value behind them, and whenever \<open>get\<close> fails the buffer
  read fails with the same error and the caller's bytes are untouched, whatever the memtables, the unified
  store, the tables, their errors and the merge operator. The readers only have to keep what
  \<open>get_unfiltered_into\<close> documents.\<close>

theorem get_into_appends_get:
  assumes "into_law tops"
  shows "get_into tops cops ops hash cf st k rs now out =
    map_option (\<lambda>r. case r of Inl e \<Rightarrow> (out, Inl e) | Inr v \<Rightarrow> (out @ v, Inr (length v)))
      (get_impl tops cops ops hash cf st k rs now True)"
proof (cases "point_read_sources tops (cf_cmp cf) k st")
  case (Inl e)
  then show ?thesis by (simp add: get_into_def get_impl_def)
next
  case (Inr s)
  obtain p r where p: "resolve_point (candidate_sink tops ops hash) tops cf s k rs now True pc_default = (p, r)"
    by fastforce
  obtain b where b: "resolve_point (buf_sink tops ops hash) tops cf s k rs now True (bc_new out) = (b, r)"
      "r = Inr () \<longrightarrow> b = buf_image out p" "values_agree p" "take (length out) (bc_out b) = out"
    using image_resolve [OF assms image_new(2) p, of out] by (auto simp: image_new(1))
  show ?thesis
  proof (cases r)
    case (Inl e)
    with Inr p b show ?thesis by (simp add: get_into_def get_impl_def)
  next
    case (Inr u)
    then have b': "b = buf_image out p" using b(2) by simp
    have kind: "bc_kind b = pc_kind p" "bc_range_floor b = pc_range_floor p" by (simp_all add: b' buf_image_def)
    have finish: "bc_finish b = (case pc_finish p of Inl e \<Rightarrow> (out, Inl e) | Inr v \<Rightarrow> (out @ v, Inr (length v)))"
      using b(3) by (auto simp: b' buf_image_def bc_finish_def pc_finish_def values_agree_def)
    have "take (length out) (bc_out b) = out" by (fact b(4))
    then show ?thesis
      using \<open>point_read_sources tops (cf_cmp cf) k st = Inr s\<close> p b(1) Inr
      by (simp add: get_into_def get_impl_def kind finish Let_def)
  qed
qed

text \<open>Tables whose rows are those of a memtable, behind the interface of the readers.\<close>

definition row_point :: "lookup \<Rightarrow> point_result" where
  "row_point l = (if lk_found l \<and> \<not> lk_deleted l then Some (lk_value l) else None, lk_seq l, lk_found l, lk_deleted l, lk_kind l)"

definition memtable_tables :: "'m skip_ops \<Rightarrow> (bytes \<Rightarrow> u64) \<Rightarrow> (sst_meta \<times> 'm memtable, 'm memtable, 'm mem_merge) table_ops" where
  "memtable_tables ops hash = \<lparr>t_meta = fst, t_reader = (\<lambda>t. Inr (snd t)), r_bloom_hash = (\<lambda>rd k. 0),
     r_bloom_may_contain_hash = (\<lambda>rd h. True),
     r_get_unfiltered = (\<lambda>rd k rs now. Inr (row_point (mem_get ops hash k rs now rd))),
     r_get_unfiltered_into = (\<lambda>rd k rs now out. case row_point (mem_get ops hash k rs now rd) of
        (value, rest) \<Rightarrow> (out @ (case value of Some v \<Rightarrow> v | None \<Rightarrow> []), Inr rest)),
     r_covering_seq = (\<lambda>rd k rs. case mem_covering_seq k rs rd of Inr s \<Rightarrow> s | Inl e \<Rightarrow> None),
     r_iter = mm_new\<rparr>"

definition table_meta :: "u64 \<Rightarrow> bytes \<Rightarrow> bytes \<Rightarrow> span option \<Rightarrow> sst_meta" where
  "table_meta newest lo hi rng = \<lparr>sm_id = 1, sm_level = 1, sm_num_entries = 1, sm_num_tombstones = 0, sm_max_seq = newest,
     sm_klog_size = 0, sm_vlog_size = 0, sm_min_key = lo, sm_max_key = hi, sm_partition = None, sm_tier = None,
     sm_max_entry_time = None, sm_object = None, sm_last_compaction_time = None,
     sm_range_count = (case rng of None \<Rightarrow> 0 | Some _ \<Rightarrow> 1), sm_range_min_seq = (case rng of None \<Rightarrow> 0 | Some s \<Rightarrow> sp_seq s),
     sm_range_max_seq = (case rng of None \<Rightarrow> 0 | Some s \<Rightarrow> sp_seq s), sm_range_min_key = map_option sp_start rng,
     sm_range_max_key = map_option sp_end rng, sm_table_caps = None\<rparr>"

text \<open>A memtable with an operand on key 2 over an \<open>L0\<close> table with its base, and a table at level 1.\<close>

definition low_ops :: "mem_op list" where
  "low_ops = [MPut \<lparr>e_key = [4], e_value = [44], e_seq = 1, e_ttl = 0, e_kind = KIND_PUT\<rparr>]"

definition sample_state :: "((ikey \<times> val) list, sst_meta \<times> (ikey \<times> val) list memtable) cf_state" where
  "sample_state = \<lparr>cs_mem = sample_memtable sample_late, cs_imm = [],
     cs_levels = [[(table_meta 6 [1] [2] (Some \<lparr>sp_start = [7], sp_end = [9], sp_seq = 6\<rparr>), sample_memtable sample_ops)],
       [(table_meta 1 [4] [4] None, sample_memtable low_ops)]]\<rparr>"

definition sample_family :: "(ikey \<times> val) list family" where
  "sample_family = \<lparr>cf_cmp = Bytewise, cf_cid = 1, cf_unified = None, cf_merge_op = Some append_operator\<rparr>"

abbreviation sample_tables :: "(sst_meta \<times> (ikey \<times> val) list memtable, (ikey \<times> val) list memtable, (ikey \<times> val) list mem_merge) table_ops" where
  "sample_tables \<equiv> memtable_tables list_ops (\<lambda>k. 0)"

lemma memtable_into_law: "into_law (memtable_tables ops hash)"
  by (auto simp: into_law_def memtable_tables_def row_point_def)

theorem get_into_appends_get_witness:
  "into_law sample_tables
   \<and> get_into sample_tables (mem_child_ops list_ops) list_ops (\<lambda>k. 0) sample_family sample_state [2] 10 0 [7, 7] =
       map_option (\<lambda>r. case r of Inl e \<Rightarrow> ([7, 7], Inl e) | Inr v \<Rightarrow> ([7, 7] @ v, Inr (length v)))
         (get_impl sample_tables (mem_child_ops list_ops) list_ops (\<lambda>k. 0) sample_family sample_state [2] 10 0 True)"
  using get_into_appends_get [OF memtable_into_law] memtable_into_law by blast

section \<open>The early exit\<close>

text \<open>
  What the gate relies on: the tables can be read, and no reader returns a version above the
  \<open>max_seq\<close> its catalog entry declares.
\<close>

definition seqs_bounded :: "('t, 'r, 'c) table_ops \<Rightarrow> 't \<Rightarrow> bool" where
  "seqs_bounded tops t \<longleftrightarrow> (\<exists>rd. t_reader tops t = Inr rd \<and> (\<forall>k rs now. \<exists>v q f d kd.
     r_get_unfiltered tops rd k rs now = Inr (v, q, f, d, kd) \<and> (f \<longrightarrow> q \<le> sm_max_seq (t_meta tops t))))"

lemma early_tables:
  assumes "\<forall>t \<in> set ts. seqs_bounded tops t"
  shows "consider_sstables (candidate_sink tops ops hash) tops k rs now True ts p
    = consider_sstables (candidate_sink tops ops hash) tops k rs now False ts p"
  using assms
proof (induction ts arbitrary: p)
  case (Cons t ts)
  let ?c = "candidate_sink tops ops hash"
  obtain rd v q f d kd where rd: "t_reader tops t = Inr rd" "r_get_unfiltered tops rd k rs now = Inr (v, q, f, d, kd)"
      "f \<longrightarrow> q \<le> sm_max_seq (t_meta tops t)"
    using Cons.prems unfolding seqs_bounded_def by (metis list.set_intros(1))
  show ?case
  proof (cases "ps_found ?c p \<and> sm_max_seq (t_meta tops t) \<le> ps_seq ?c p")
    case True
    then have "pc_consider v q f d kd p = p" using rd(3) by (auto simp: pc_consider_def candidate_sink_def)
    with True Cons rd show ?thesis by (simp add: candidate_sink_def)
  next
    case False
    with Cons show ?thesis by (auto split: sum.splits prod.splits)
  qed
qed simp

lemma search_le: "lo \<le> hi \<Longrightarrow> overlap_search c k level lo hi \<le> hi"
proof (induction c k level lo hi rule: overlap_search.induct)
  case (1 c k level lo hi)
  show ?case
  proof (cases "lo < hi")
    case True
    let ?mid = "(lo + hi) div 2"
    have "overlap_search c k level (?mid + 1) hi \<le> hi" if "is_lt (compare c (sm_max_key (level ! ?mid)) k)"
      by (rule 1(1) [OF True refl that]) (use True in simp)
    moreover have "overlap_search c k level lo ?mid \<le> hi" if "\<not> is_lt (compare c (sm_max_key (level ! ?mid)) k)"
      by (rule order.trans [OF 1(2) [OF True refl that]]) (use True in simp_all)
    ultimately show ?thesis using True by (subst overlap_search.simps) (simp add: Let_def)
  qed (use 1(3) in \<open>subst overlap_search.simps, simp\<close>)
qed

lemma overlapping_bounds:
  assumes "find_overlapping_at c k level = (hit, lo)"
  shows "lo \<le> length level" and "hit = Some i \<Longrightarrow> i = lo \<and> i < length level"
  using assms search_le [of 0 "length level" c k level]
  by (auto simp: find_overlapping_at_def Let_def split: if_splits)

lemma gap_owner_bound:
  assumes "find_overlapping_at c k level = (hit, lo)" and "gap_owner c k level hit lo = Some g"
  shows "Suc g = lo" and "g < length level"
proof -
  have i: "(case hit of Some i \<Rightarrow> i | None \<Rightarrow> lo) = lo"
    using overlapping_bounds(2) [OF assms(1)] by (cases hit) auto
  show g: "Suc g = lo"
    using assms(2) unfolding gap_owner_def i by (auto simp: Let_def split: if_splits option.splits)
  show "g < length level" using overlapping_bounds(1) [OF assms(1)] g by simp
qed

lemma level_sources_in:
  "set (fst (level_sources tops c k lvl)) \<subseteq> set lvl" "set (snd (level_sources tops c k lvl)) \<subseteq> set lvl"
proof -
  obtain hit lo where f: "find_overlapping_at c k (map (t_meta tops) lvl) = (hit, lo)" by fastforce
  show "set (fst (level_sources tops c k lvl)) \<subseteq> set lvl"
    using overlapping_bounds(2) [OF f] by (auto simp: level_sources_def f Let_def split: option.splits)
  show "set (snd (level_sources tops c k lvl)) \<subseteq> set lvl"
    using gap_owner_bound(2) [OF f] by (auto simp: level_sources_def f Let_def split: option.splits)
qed

lemma sources_in:
  assumes "point_read_sources tops c k st = Inr s"
  shows "set (src_tables s) \<union> set (src_range_tables s) \<subseteq> set (concat (cs_levels st))"
  using assms unfolding point_read_sources_def
  by (auto simp: Let_def split: list.splits dest!: subsetD [OF level_sources_in(1)] subsetD [OF level_sources_in(2)])


lemma row_bound:
  assumes "kinds_ok (history os)" "length (history os) < 2 ^ 64" "\<forall>r \<in> set (history os). e_seq r \<le> sm_max_seq m"
  shows "seqs_bounded sample_tables (m, sample_memtable os)"
proof -
  have "mem_get list_ops (\<lambda>k. 0) k rs now (sample_memtable os) = lookup_of (newest_visible (history os) k rs) now" for k rs now
    using mem_run_holds [OF bytewise.user_key_order_axioms list_map.skip_map_axioms, of "\<lambda>k. 0" os] assms(1,2)
    by (intro mem_get_holds) (simp_all add: bytewise.user_key_order_axioms list_map.skip_map_axioms)
  moreover have "newest_visible (history os) k rs = Some r \<Longrightarrow> e_seq r \<le> sm_max_seq m" for k rs r
    using newest_visible_key [of "history os" k rs r] assms(3) by blast
  ultimately show ?thesis
    by (auto simp: seqs_bounded_def memtable_tables_def row_point_def lookup_of_def lookup_default_def split: option.splits)
qed


end
