(* ===== verification/Point_Exact.thy ===== *)
theory Point_Exact
  imports Point_Into
begin

text \<open>
  Point reads are exact: the candidate pass finds the newest visible version, the gathered chain
  folds like the whole list of versions, and the answer is the one the scan's resolution gives for
  the key over every memtable and every table of the family.
\<close>

section \<open>The newest of several sources\<close>

definition newer :: "entry option \<Rightarrow> entry option \<Rightarrow> entry option" where
  "newer best x = (case x of None \<Rightarrow> best
     | Some e \<Rightarrow> (case best of None \<Rightarrow> Some e | Some b \<Rightarrow> if e_seq e > e_seq b then Some e else best))"

definition is_newest :: "entry set \<Rightarrow> entry option \<Rightarrow> bool" where
  "is_newest S x \<longleftrightarrow> (case x of None \<Rightarrow> S = {} | Some e \<Rightarrow> e \<in> S \<and> (\<forall>y \<in> S. e_seq y \<le> e_seq e))"

lemma newest_join: "is_newest A x \<Longrightarrow> is_newest B y \<Longrightarrow> is_newest (A \<union> B) (newer x y)"
  by (fastforce simp: is_newest_def newer_def split: option.splits)

lemma newest_head: "newest_first V \<Longrightarrow> is_newest (set V) (first_of V)"
  by (cases V) (auto simp: is_newest_def)

lemma newest_unique:
  assumes "is_newest S x" and "is_newest S y" and "inj_on e_seq S"
  shows "x = y"
  using assms by (cases x; cases y) (auto simp: is_newest_def intro!: inj_onD [of e_seq S] order.antisym [of "e_seq _"])

lemma newest_of_sources:
  assumes "\<forall>V \<in> set W. newest_first V" and "newest_first D" and "set D = set (concat W)" and "inj_on e_seq (set D)"
  shows "foldl newer None (map first_of W) = first_of D"
proof -
  have "is_newest (set (concat W)) (foldl newer None (map first_of W))"
    using assms(1)
  proof (induction W rule: rev_induct)
    case Nil
    show ?case by (simp add: is_newest_def)
  next
    case (snoc V W)
    then show ?case using newest_join [OF _ newest_head [of V]] by simp
  qed
  then show ?thesis using newest_unique [OF _ newest_head [OF assms(2)]] assms(3,4) by simp
qed

section \<open>The candidate pass\<close>

definition point_of :: "i64 \<Rightarrow> entry option \<Rightarrow> point_result" where
  "point_of now x = (case x of None \<Rightarrow> (None, 0, False, False, KIND_PUT)
     | Some e \<Rightarrow> if entry_dead now e then (None, e_seq e, True, True, e_kind e)
         else (Some (e_value e), e_seq e, True, False, e_kind e))"

definition consider_point :: "point_result \<Rightarrow> point_candidate \<Rightarrow> point_candidate" where
  "consider_point r p = (case r of (value, seq, found, deleted, kind) \<Rightarrow> pc_consider value seq found deleted kind p)"

definition cand_of :: "i64 \<Rightarrow> entry option \<Rightarrow> point_candidate" where
  "cand_of now best = (case point_of now best of (value, seq, found, deleted, kind) \<Rightarrow>
     \<lparr>pc_value = value, pc_seq = seq, pc_found = found, pc_deleted = deleted, pc_kind = kind, pc_range_floor = None\<rparr>)"

definition masked :: "i64 \<Rightarrow> u64 option \<Rightarrow> entry option \<Rightarrow> point_candidate" where
  "masked now cover best = pc_mask cover (cand_of now best)"

definition no_tie :: "u64 option \<Rightarrow> entry option \<Rightarrow> bool" where
  "no_tie cover x \<longleftrightarrow> (\<forall>e. x = Some e \<longrightarrow> cover \<noteq> Some (e_seq e))"

lemmas candidate_defs = consider_point_def point_of_def pc_consider_def cand_of_def newer_def

lemma cand_default: "cand_of now None = pc_default"
  by (simp add: cand_of_def point_of_def pc_default_def)

lemma consider_newer: "consider_point (point_of now x) (cand_of now best) = cand_of now (newer best x)"
  by (auto simp: candidate_defs split: option.splits)

lemma consider_lookup: "pc_consider_memtable (lookup_of x now) p = consider_point (point_of now x) p"
  by (auto simp: candidate_defs pc_consider_memtable_def lookup_of_def lookup_default_def entry_dead_def expired_def split: option.splits)

lemma consider_masked:
  assumes "no_tie cover x" "no_tie cover best"
  shows "consider_point (point_of now x) (masked now cover best) = masked now cover (newer best x)"
proof (cases cover)
  case None
  then show ?thesis by (simp add: masked_def pc_mask_def consider_newer)
next
  case (Some s)
  have 1: "x = Some e \<Longrightarrow> s \<noteq> e_seq e" "best = Some e \<Longrightarrow> s \<noteq> e_seq e" for e using assms Some by (auto simp: no_tie_def)
  show ?thesis
    using 1 unfolding masked_def Some by (cases x; cases best) (auto simp: candidate_defs pc_mask_def Let_def not_less)
qed

section \<open>The gathered chain\<close>

definition cv_of :: "i64 \<Rightarrow> entry \<Rightarrow> chain_version" where
  "cv_of now e = \<lparr>cv_seq = e_seq e, cv_merge = entry_is_merge e, cv_value = if entry_dead now e then None else Some (e_value e)\<rparr>"

text \<open>What one source contributes: its visible versions down to and including the first that is no operand.\<close>

definition upto_base :: "entry list \<Rightarrow> entry list" where
  "upto_base V = takeWhile entry_is_merge V @ (case dropWhile entry_is_merge V of [] \<Rightarrow> [] | b # _ \<Rightarrow> [b])"

definition plain_chain :: "chain_version list \<Rightarrow> bytes list \<times> bytes option" where
  "plain_chain F = (map (\<lambda>v. case cv_value v of Some b \<Rightarrow> b | None \<Rightarrow> []) (takeWhile cv_merge F),
     case dropWhile cv_merge F of [] \<Rightarrow> None | b # _ \<Rightarrow> cv_value b)"

abbreviation same_cv :: "chain_version \<Rightarrow> chain_version \<Rightarrow> bool" where
  "same_cv a b \<equiv> cv_seq a = cv_seq b"

abbreviation falling :: "chain_version list \<Rightarrow> bool" where
  "falling F \<equiv> sorted_wrt (\<lambda>a b. cv_seq b < cv_seq a) F"

lemma gather_dedup: "gather_operands q ops (dedup_by same_cv F) = gather_operands q ops F"
proof (induction same_cv F arbitrary: q ops rule: dedup_by.induct)
  case (3 x y ys)
  then show ?case by (cases "cv_seq y = cv_seq x") simp_all
qed simp_all

lemma gather_falling:
  assumes "falling F" and "\<forall>v \<in> set F. q \<noteq> Some (cv_seq v)"
  shows "gather_operands q ops F = (ops @ fst (plain_chain F), snd (plain_chain F))"
  using assms
proof (induction F arbitrary: q ops)
  case (Cons v F)
  have "falling F" "\<forall>w \<in> set F. Some (cv_seq v) \<noteq> Some (cv_seq w)" "q \<noteq> Some (cv_seq v)" using Cons.prems by auto
  then show ?case using Cons.IH [of "Some (cv_seq v)" "ops @ [case cv_value v of Some b \<Rightarrow> b | None \<Rightarrow> []]"]
    by (cases "cv_merge v") (simp_all add: plain_chain_def)
qed (simp add: plain_chain_def)

lemma gather_sorted:
  assumes "falling F" and "set vs = set F"
  shows "gather_operands None [] (sort_by (\<lambda>a b. ord_cmp (cv_seq b) (cv_seq a)) vs) = plain_chain F"
proof -
  let ?Z = "sort_by (\<lambda>a b. ord_cmp (cv_seq b) (cv_seq a)) vs"
  have inj: "inj_on cv_seq (set F)"
    using assms(1) by (induction F) auto
  have "sorted_wrt (\<lambda>a b. is_le (ord_cmp b a)) (map cv_seq ?Z)"
    unfolding map_sort_by [of cv_seq "\<lambda>a b. ord_cmp b a"] by (rule key_order.sorted_sort_by [OF key_order_reverse [OF key_order_ord_cmp]])
  then have Z: "sorted_wrt (\<lambda>a b. cv_seq b \<le> cv_seq a) ?Z"
    by (simp add: sorted_wrt_map) (erule sorted_wrt_mono_rel [rotated], auto simp: ord_cmp_def ordering_tests split: if_splits)
  have setZ: "set ?Z = set F" using assms(2) mset_sort_by set_mset_mset by metis
  note d = dedup_first [of "\<lambda>a b. b \<le> a" cv_seq, OF Z]
  have "dedup_by same_cv ?Z = F"
  proof (rule key_order.sorted_on_unique [OF key_order_reverse [OF key_order_ord_cmp], where f = cv_seq])
    have lt: "is_lt (ord_cmp b a) \<longleftrightarrow> b < a" for a b :: u64 by (simp add: ord_cmp_def is_lt_def)
    show "sorted_wrt (\<lambda>a b. is_lt (ord_cmp (cv_seq b) (cv_seq a))) F" using assms(1) by (simp add: lt)
    show "sorted_wrt (\<lambda>a b. is_lt (ord_cmp (cv_seq b) (cv_seq a))) (dedup_by same_cv ?Z)"
      using d(1) unfolding lt by (rule sorted_wrt_mono_rel [rotated]) auto
    have "(find (\<lambda>y. cv_seq y = cv_seq x) ?Z = Some x) = (x \<in> set F)" for x
    proof
      show "find (\<lambda>y. cv_seq y = cv_seq x) ?Z = Some x \<Longrightarrow> x \<in> set F" using find_Some_in setZ by metis
      assume x: "x \<in> set F"
      then obtain y where y: "find (\<lambda>y. cv_seq y = cv_seq x) ?Z = Some y" using setZ by (metis (mono_tags, lifting) find_None_iff not_None_eq)
      then have "y \<in> set F" "cv_seq y = cv_seq x" using find_Some_in setZ by (metis (mono_tags, lifting))+
      with x inj y show "find (\<lambda>y. cv_seq y = cv_seq x) ?Z = Some x" by (auto dest: inj_onD)
    qed
    then show "set (dedup_by same_cv ?Z) = set F" using d(2) by auto
  qed
  then show ?thesis using gather_dedup [of None "[]" ?Z] gather_falling [OF assms(1), of None "[]"] by simp
qed

lemma drop_below_base:
  assumes "falling F" and "\<forall>x \<in> set F. \<not> P x \<longrightarrow> (\<exists>b \<in> set F. P b \<and> \<not> cv_merge b \<and> cv_seq x < cv_seq b)"
  shows "plain_chain (filter P F) = plain_chain F"
  using assms
proof (induction F)
  case (Cons x F)
  have "P x" using Cons.prems by fastforce
  show ?case
  proof (cases "cv_merge x")
    case True
    have "plain_chain (filter P F) = plain_chain F" using Cons True by (auto intro!: Cons.IH)
    with True \<open>P x\<close> show ?thesis by (simp add: plain_chain_def)
  qed (use \<open>P x\<close> in \<open>simp add: plain_chain_def\<close>)
qed simp

definition range_marker :: "u64 \<Rightarrow> chain_version" where
  "range_marker s = \<lparr>cv_seq = s, cv_merge = False, cv_value = None\<rparr>"

text \<open>Every visible version and the covering range delete, newest first.\<close>

definition full_chain :: "i64 \<Rightarrow> u64 option \<Rightarrow> entry list \<Rightarrow> chain_version list" where
  "full_chain now cover D = map (cv_of now) (filter (\<lambda>e. \<not> cut_by cover e) D) @
     (case cover of None \<Rightarrow> [] | Some s \<Rightarrow> range_marker s # map (cv_of now) (filter (cut_by cover) D))"

definition operands_alive :: "i64 \<Rightarrow> entry set \<Rightarrow> bool" where
  "operands_alive now S \<longleftrightarrow> (\<forall>e \<in> S. entry_is_merge e \<longrightarrow> \<not> entry_dead now e)"

lemma cut_down: "cut_by cover a \<Longrightarrow> e_seq b < e_seq a \<Longrightarrow> cut_by cover b"
  by (auto simp: cut_by_def split: option.splits)

lemma full_chain_set:
  "set (full_chain now cover D) = cv_of now ` set D \<union> range_marker ` set_option cover"
  by (cases cover) (auto simp: full_chain_def cut_by_def)

lemma full_chain_falling:
  assumes "newest_first D" and "\<forall>e \<in> set D. cover \<noteq> Some (e_seq e)"
  shows "falling (full_chain now cover D)"
proof (cases cover)
  case None
  with assms show ?thesis by (simp add: full_chain_def cut_by_def sorted_wrt_map cv_of_def)
next
  case (Some s)
  have "s < e_seq e" if "e \<in> set D" "\<not> cut_by cover e" for e using that Some by (simp add: cut_by_def)
  moreover have "e_seq e < s" if "e \<in> set D" "cut_by cover e" for e
    using that assms(2) Some by (auto simp: cut_by_def order.strict_iff_order)
  moreover have "e_seq b < e_seq a" if "a \<in> set D" "\<not> cut_by cover a" "b \<in> set D" "cut_by cover b" for a b
    using calculation that by (meson order.strict_trans)
  ultimately show ?thesis
    using assms(1) Some by (auto simp: full_chain_def sorted_wrt_append sorted_wrt_map cv_of_def range_marker_def sorted_wrt_filter)
qed

lemma full_chain_folds:
  assumes "newest_first D" and "operands_alive now (set D)"
  shows "plain_chain (full_chain now cover D) =
    (map e_value (filter (\<lambda>e. \<not> cut_by cover e) (takeWhile entry_is_merge D)), live_base now cover (dropWhile entry_is_merge D))"
  using assms
proof (induction D)
  case Nil
  show ?case by (cases cover) (simp_all add: full_chain_def plain_chain_def range_marker_def live_base_def)
next
  case (Cons e D)
  show ?case
  proof (cases "cut_by cover e")
    case True
    then have all: "\<forall>x \<in> set (e # D). cut_by cover x" using Cons.prems(1) cut_down by auto
    then have "full_chain now cover (e # D) = range_marker (the cover) # map (cv_of now) (e # D)"
      by (cases cover) (auto simp: full_chain_def cut_by_def)
    moreover have "live_base now cover (dropWhile entry_is_merge (e # D)) = None"
    proof (cases "dropWhile entry_is_merge (e # D)")
      case (Cons b B)
      then have "b \<in> set (e # D)" using set_dropWhileD by (metis list.set_intros(1))
      with all have "cut_by cover b" by blast
      with Cons show ?thesis by (simp add: live_base_def)
    qed (simp add: live_base_def)
    moreover have "filter (\<lambda>e. \<not> cut_by cover e) (takeWhile entry_is_merge (e # D)) = []"
      using all set_takeWhileD by (fastforce simp: filter_empty_conv)
    ultimately show ?thesis by (simp add: plain_chain_def range_marker_def)
  next
    case False
    then have "full_chain now cover (e # D) = cv_of now e # full_chain now cover D"
      by (cases cover) (simp_all add: full_chain_def)
    moreover have "plain_chain (full_chain now cover D) =
        (map e_value (filter (\<lambda>e. \<not> cut_by cover e) (takeWhile entry_is_merge D)), live_base now cover (dropWhile entry_is_merge D))"
      using Cons by (simp add: operands_alive_def)
    ultimately show ?thesis
      using False Cons.prems(2) by (auto simp: plain_chain_def cv_of_def live_base_def operands_alive_def)
  qed
qed

lemma upto_base_simps:
  "upto_base [] = []" "upto_base (e # V) = e # (if entry_is_merge e then upto_base V else [])"
  by (simp_all add: upto_base_def)

lemma upto_base_in: "set (upto_base V) \<subseteq> set V"
  by (induction V) (auto simp: upto_base_simps)

lemma upto_base_above:
  "newest_first V \<Longrightarrow> e \<in> set V \<Longrightarrow> e \<notin> set (upto_base V)
   \<Longrightarrow> \<exists>b \<in> set (upto_base V). \<not> entry_is_merge b \<and> e_seq e < e_seq b"
  by (induction V) (auto simp: upto_base_simps split: if_splits)

lemma fold_gathered:
  assumes D: "newest_first D" "\<forall>e \<in> set D. cover \<noteq> Some (e_seq e)" "operands_alive now (set D)"
    and W: "\<forall>V \<in> set W. newest_first V" "set (concat W) = set D"
    and vs: "set vs = range_marker ` set_option cover \<union> cv_of now ` set (concat (map upto_base W))"
  shows "gather_operands None [] (sort_by (\<lambda>a b. ord_cmp (cv_seq b) (cv_seq a)) vs) =
    (map e_value (filter (\<lambda>e. \<not> cut_by cover e) (takeWhile entry_is_merge D)), live_base now cover (dropWhile entry_is_merge D))"
proof -
  let ?F = "full_chain now cover D" and ?P = "\<lambda>v. v \<in> set vs"
  have F: "falling ?F" by (rule full_chain_falling [OF D(1,2)])
  have "set vs \<subseteq> set ?F" using vs W(2) upto_base_in by (fastforce simp: full_chain_set)
  then have "set vs = set (filter ?P ?F)" by auto
  then have "gather_operands None [] (sort_by (\<lambda>a b. ord_cmp (cv_seq b) (cv_seq a)) vs) = plain_chain (filter ?P ?F)"
    by (rule gather_sorted [OF sorted_wrt_filter [OF F]])
  also have "\<dots> = plain_chain ?F"
  proof (rule drop_below_base [OF F], intro ballI impI)
    fix x assume "x \<in> set ?F" "x \<notin> set vs"
    then obtain e where e: "x = cv_of now e" "e \<in> set D" using vs by (auto simp: full_chain_set)
    obtain V where V: "V \<in> set W" "e \<in> set V" using e(2) W(2) by auto
    have "e \<notin> set (upto_base V)" using \<open>x \<notin> set vs\<close> V(1) unfolding vs e(1) by auto
    then obtain b where b: "b \<in> set (upto_base V)" "\<not> entry_is_merge b" "e_seq e < e_seq b"
      using upto_base_above W(1) V by blast
    have "cv_of now b \<in> set vs" using b(1) V(1) unfolding vs by auto
    moreover have "b \<in> set D" using b(1) V(1) W(2) upto_base_in by fastforce
    ultimately show "\<exists>b \<in> set ?F. b \<in> set vs \<and> \<not> cv_merge b \<and> cv_seq x < cv_seq b"
      using b by (intro bexI [of _ "cv_of now b"]) (auto simp: full_chain_set cv_of_def e(1))
  qed
  finally show ?thesis by (simp add: full_chain_folds [OF D(1,3)])
qed

section \<open>What each source contributes\<close>

definition seen_at :: "bytes \<Rightarrow> u64 \<Rightarrow> entry list \<Rightarrow> entry list" where
  "seen_at k rs L = filter (\<lambda>e. e_key e = k \<and> e_seq e \<le> rs) L"

abbreviation mem_list :: "comparator \<Rightarrow> mem_op list \<Rightarrow> entry list" where
  "mem_list c os \<equiv> map entry_of (ordered_puts (ikey_cmp c) (history os))"

lemma seen_at_newest:
  assumes "user_key_order (compare c)" and "in_order c L"
  shows "newest_first (seen_at k rs L)"
proof -
  have eq: "compare c k k = Equal" for k by (simp add: key_order.cmp_Equal [OF user_key_order.axioms [OF assms(1)]])
  have "sorted_wrt (\<lambda>a b. is_lt (ikey_cmp c (entry_ikey a) (entry_ikey b))) (seen_at k rs L)"
    unfolding seen_at_def by (rule sorted_wrt_filter [OF assms(2)])
  then show ?thesis
    by (rule sorted_wrt_mono_rel [rotated])
      (auto simp: seen_at_def ikey_cmp_eq entry_ikey_def eq then_with_def ord_cmp_def ordering_tests split: if_splits)
qed

lemma feed_collect:
  "feed_versions collect_chain now V vs = vs @ map (cv_of now) (upto_base V)"
  by (induction V arbitrary: vs)
    (auto simp: collect_chain_def Let_def upto_base_simps cv_of_def entry_is_merge_def entry_dead_def expired_def)

lemma mem_source:
  assumes "user_key_order (compare c)" and "skip_map ops (ikey_cmp c)"
    and "kinds_ok (history os)" "length (history os) < 2 ^ 64"
  shows "mem_chain ops hash k rs now f (mem_run ops hash c os) st = feed_versions f now (seen_at k rs (mem_list c os)) st"
    and "in_order c (mem_list c os)"
proof -
  have h: "mem_holds ops hash (history os) (mem_run ops hash c os)" "mt_cmp (mem_run ops hash c os) = c"
    using mem_run_holds [OF assms(1,2)] by blast+
  show "mem_chain ops hash k rs now f (mem_run ops hash c os) st = feed_versions f now (seen_at k rs (mem_list c os)) st"
    using mem_chain_holds [of "mem_run ops hash c os" ops hash "history os" k rs now f st] h assms
    by (simp add: visible_chain_def seen_at_def)
  note order = key_order_ikey_cmp [OF assms(1)]
  have "in_key_order (ikey_cmp c) (map (\<lambda>r. (entry_ikey r, val_of r)) (mem_list c os))"
    unfolding entries_of_puts(1) [OF order assms(3)] by (rule ordered_puts_sorted [OF order])
  then show "in_order c (mem_list c os)" by (simp add: sorted_wrt_map)
qed

lemma mem_probe:
  assumes "user_key_order (compare c)" and "skip_map ops (ikey_cmp c)"
    and "kinds_ok (history os)" "length (history os) < 2 ^ 64"
  shows "pc_consider_memtable (mem_get ops hash k rs now (mem_run ops hash c os)) p =
    consider_point (point_of now (first_of (seen_at k rs (mem_list c os)))) p"
proof -
  let ?V = "seen_at k rs (mem_list c os)"
  define l where "l = mem_get ops hash k rs now (mem_run ops hash c os)"
  have "feed_versions (\<lambda>st seq kind v. (Some (seq, kind, v), False)) now ?V None =
      (if lk_found l then Some (lk_seq l, lk_kind l, if lk_deleted l then None else Some (lk_value l)) else None)"
    using feed_first [of ops hash k rs now "\<lambda>st seq kind v. Some (seq, kind, v)" "mem_run ops hash c os" None]
    unfolding mem_source(1) [OF assms] Let_def l_def .
  then have "pc_consider_memtable l p = consider_point (point_of now (first_of ?V)) p"
    by (cases ?V) (auto simp: candidate_defs pc_consider_memtable_def entry_dead_def expired_def Let_def split: if_splits)
  then show ?thesis by (simp add: l_def)
qed

lemma find_next_sorted:
  assumes "user_key_order (compare c)" and "in_order c (P @ e # R)"
  shows "find (\<lambda>z. is_gt (ikey_cmp c (entry_ikey z) (entry_ikey e))) (P @ e # R) = first_of R"
proof -
  note ord = key_order_ikey_cmp [OF assms(1)]
  have "\<not> is_gt (ikey_cmp c (entry_ikey z) (entry_ikey e))" if "z \<in> set (P @ [e])" for z
    using that assms(2)
    by (auto simp: key_order.is_gt_iff [OF ord] key_order.not_lt_iff [OF ord] sorted_wrt_append
        intro: key_order.lt_imp_le [OF ord] key_order.le_refl [OF ord])
  then have "find (\<lambda>z. is_gt (ikey_cmp c (entry_ikey z) (entry_ikey e))) (P @ e # R)
      = find (\<lambda>z. is_gt (ikey_cmp c (entry_ikey z) (entry_ikey e))) R"
    by (induction P) auto
  also have "\<dots> = first_of R"
    using assms(2) by (cases R) (auto simp: key_order.is_gt_iff [OF ord] sorted_wrt_append)
  finally show ?thesis .
qed

context child_source
begin

lemma table_walk:
  assumes quiet: "quiet_children ops" and "operands_alive now (set R)"
    and "ok x" "contents x = P @ R" "cur x = first_of R"
  shows "\<exists>it. table_chain_loop ops c k now x vs =
    Some (it, Inr (vs @ map (cv_of now) (upto_base (takeWhile (\<lambda>e. e_key e = k) R))))"
  using assms(2-)
proof (induction R arbitrary: x P vs)
  case Nil
  then have "\<not> ch_valid ops x" using valid_iff by simp
  then show ?case by (subst table_chain_loop.simps) (simp add: upto_base_simps)
next
  case (Cons e R)
  then have cur: "cur x = Some e" by simp
  then have valid: "ch_valid ops x" using Cons.prems(2) valid_iff by simp
  note r = reads [OF Cons.prems(2) cur]
  have eq: "compare c a b = Equal \<longleftrightarrow> a = b" for a b by (rule key_order.cmp_Equal [OF user_key_order.axioms [OF order]])
  obtain v where v: "ch_value_into ops x = Inr v" by (rule quiet_value [OF quiet])
  then have "v = e_value e" using reads_value [OF Cons.prems(2) cur] by simp
  note step = table_chain_loop.simps [of ops c k now x vs]
  show ?case
  proof (cases "e_key e = k \<and> entry_is_merge e")
    case True
    let ?y = "ch_next ops x" and ?vs = "vs @ [cv_of now e]"
    have live: "\<not> entry_dead now e" using Cons.prems(1) True by (simp add: operands_alive_def)
    have y: "ok ?y" "contents ?y = (P @ [e]) @ R"
      using apply_ok [OF Cons.prems(2), of StepNext] cur Cons.prems(3) by (simp_all add: op_moves_def)
    have "find (\<lambda>z. is_gt (ikey_cmp c (entry_ikey z) (entry_ikey e))) (P @ e # R) = first_of R"
      by (rule find_next_sorted [OF order]) (use contents_sorted [OF Cons.prems(2)] Cons.prems(3) in simp)
    then have "cur ?y = first_of R"
      using apply_current [OF Cons.prems(2), of StepNext] cur quiet_err [OF quiet] Cons.prems(3) by (simp add: op_moves_def)
    with Cons.IH [OF _ y, of ?vs] Cons.prems(1) obtain it where
      "table_chain_loop ops c k now ?y ?vs = Some (it, Inr (?vs @ map (cv_of now) (upto_base (takeWhile (\<lambda>e. e_key e = k) R))))"
      by (auto simp: operands_alive_def)
    with True live valid r v \<open>v = e_value e\<close> show ?thesis
      by (subst step) (simp add: eq upto_base_simps cv_of_def entry_is_merge_def)
  next
    case False
    then show ?thesis using valid r v \<open>v = e_value e\<close>
      by (subst step) (auto simp: eq upto_base_simps cv_of_def entry_is_merge_def entry_dead_def expired_def)
  qed
qed

end

section \<open>Tables\<close>

text \<open>
  A table with the rows \<open>L\<close> and the range deletes \<open>R\<close>: its reader opens, its filter has no false
  negative, its lookup and its iterator read \<open>L\<close>, its catalog entry bounds the keys and sequences,
  and its fragments answer like \<open>R\<close> and lie inside the range bounds of the catalog entry.
\<close>

definition table_rows :: "('t, 'r, 'c) table_ops \<Rightarrow> comparator \<Rightarrow> ('c \<Rightarrow> bool) \<Rightarrow> ('c \<Rightarrow> entry list)
    \<Rightarrow> entry list \<Rightarrow> 't \<Rightarrow> bool" where
  "table_rows tops c ok contents L t \<longleftrightarrow> in_order c L \<and> (\<exists>rd. t_reader tops t = Inr rd
     \<and> (\<forall>e \<in> set L. e_seq e \<le> sm_max_seq (t_meta tops t) \<and> key_in_range c (e_key e) (t_meta tops t)
          \<and> r_bloom_may_contain_hash tops rd (r_bloom_hash tops rd (e_key e)))
     \<and> (\<forall>k rs now. r_get_unfiltered tops rd k rs now = Inr (point_of now (first_of (seen_at k rs L))))
     \<and> ok (r_iter tops rd) \<and> contents (r_iter tops rd) = L)"

definition table_ranges :: "('t, 'r, 'c) table_ops \<Rightarrow> comparator \<Rightarrow> span list \<Rightarrow> 't \<Rightarrow> bool" where
  "table_ranges tops c R t \<longleftrightarrow>
     (\<exists>rd. t_reader tops t = Inr rd \<and> (\<forall>k rs. r_covering_seq tops rd k rs = max_covering (compare c) R k rs))
     \<and> (R \<noteq> [] \<longrightarrow> sm_has_ranges (t_meta tops t) \<and> (\<exists>lo hi.
          sm_range_min_key (t_meta tops t) = Some lo \<and> sm_range_max_key (t_meta tops t) = Some hi
          \<and> (\<forall>s \<in> set R. is_le (compare c lo (sp_start s)) \<and> is_le (compare c (sp_end s) hi))))"

lemma find_first_of: "find P L = first_of (dropWhile (\<lambda>x. \<not> P x) L)"
  by (induction L) auto

context child_source
begin

lemma collect_table:
  assumes quiet: "quiet_children ops" and rows: "table_rows tops c ok contents L t" and alive: "operands_alive now (set L)"
  shows "collect_table_chain tops ops c k rs now t vs = Some (Inr (vs @ map (cv_of now) (upto_base (seen_at k rs L))))"
proof -
  obtain rd where rd: "t_reader tops t = Inr rd" "ok (r_iter tops rd)" "contents (r_iter tops rd) = L"
      "\<forall>e \<in> set L. r_bloom_may_contain_hash tops rd (r_bloom_hash tops rd (e_key e))" and L: "in_order c L"
    using rows unfolding table_rows_def by blast
  show ?thesis
  proof (cases "r_bloom_may_contain_hash tops rd (r_bloom_hash tops rd k)")
    case False
    then have "seen_at k rs L = []" using rd(4) by (auto simp: seen_at_def filter_empty_conv)
    with False rd(1) show ?thesis by (simp add: collect_table_chain_def upto_base_simps)
  next
    case True
    let ?x = "ch_seek_ge ops k rs (r_iter tops rd)" and ?P = "\<lambda>r. above_bound (ikey_cmp c) (Included (k, rs)) (entry_ikey r)"
    have x: "ok ?x" "contents ?x = takeWhile (\<lambda>r. \<not> ?P r) L @ dropWhile (\<lambda>r. \<not> ?P r) L"
      using apply_ok [OF rd(2), of "SeekGe k rs"] rd(3) by (simp_all add: op_moves_def)
    have "cur ?x = first_of (dropWhile (\<lambda>r. \<not> ?P r) L)"
      using apply_current [OF rd(2), of "SeekGe k rs"] quiet_err [OF quiet] rd(3)
      by (simp add: op_moves_def find_first_of above_bound_def key_order.is_ge_iff [OF key_order_ikey_cmp [OF order]])
    moreover have "operands_alive now (set (dropWhile (\<lambda>r. \<not> ?P r) L))"
      using alive set_dropWhileD unfolding operands_alive_def by fast
    ultimately obtain it where "table_chain_loop ops c k now ?x vs = Some (it, Inr (vs @ map (cv_of now)
        (upto_base (takeWhile (\<lambda>e. e_key e = k) (dropWhile (\<lambda>r. \<not> ?P r) L)))))"
      using table_walk [OF quiet _ x] by blast
    then show ?thesis
      using True rd(1) quiet_err [OF quiet] walk_versions [OF order L]
      by (simp add: collect_table_chain_def seen_at_def)
  qed
qed

lemma collect_all:
  assumes quiet: "quiet_children ops"
    and "\<forall>t \<in> set ts. table_rows tops c ok contents (tab t) t \<and> operands_alive now (set (tab t))"
  shows "collect_tables tops ops c k rs now ts vs =
    Some (Inr (vs @ map (cv_of now) (concat (map (\<lambda>t. upto_base (seen_at k rs (tab t))) ts))))"
  using assms(2)
proof (induction ts arbitrary: vs)
  case (Cons t ts)
  then show ?case using collect_table [OF quiet, of tops "tab t" t now k rs vs] by simp
qed simp

end

lemma table_probes:
  assumes "\<forall>t \<in> set ts. table_rows tops c ok contents (tab t) t"
    and "\<forall>t \<in> set ts. no_tie cover (first_of (seen_at k rs (tab t)))" and "no_tie cover best"
  shows "consider_sstables (candidate_sink tops ops hash) tops k rs now early ts (masked now cover best) =
    (masked now cover (foldl newer best (map (\<lambda>t. first_of (seen_at k rs (tab t))) ts)), Inr ())"
  using assms
proof (induction ts arbitrary: best)
  case (Cons t ts)
  let ?x = "first_of (seen_at k rs (tab t))" and ?p = "masked now cover best"
  obtain rd where rd: "t_reader tops t = Inr rd" "r_get_unfiltered tops rd k rs now = Inr (point_of now ?x)"
      "\<forall>e \<in> set (tab t). e_seq e \<le> sm_max_seq (t_meta tops t) \<and> r_bloom_may_contain_hash tops rd (r_bloom_hash tops rd (e_key e))"
    using Cons.prems(1) unfolding table_rows_def by (metis list.set_intros(1))
  have x: "e \<in> set (tab t) \<and> e_key e = k" if "?x = Some e" for e
    using first_of_in [OF that] by (simp add: seen_at_def)
  have next': "consider_point (point_of now ?x) ?p = masked now cover (newer best ?x)"
    using Cons.prems(2,3) by (simp add: consider_masked)
  have "no_tie cover (newer best ?x)" using Cons.prems(2,3) by (auto simp: newer_def no_tie_def split: option.splits)
  then have IH: "consider_sstables (candidate_sink tops ops hash) tops k rs now early ts (masked now cover (newer best ?x)) =
      (masked now cover (foldl newer best (map (\<lambda>t. first_of (seen_at k rs (tab t))) (t # ts))), Inr ())"
    using Cons by simp
  have skip: "masked now cover (newer best ?x) = ?p"
    if "pc_found ?p \<and> sm_max_seq (t_meta tops t) \<le> pc_seq ?p \<or> \<not> r_bloom_may_contain_hash tops rd (r_bloom_hash tops rd k)"
  proof (cases ?x)
    case None
    then show ?thesis by (simp add: newer_def)
  next
    case (Some e)
    with that x rd(3) have "pc_found ?p" "e_seq e \<le> pc_seq ?p" by (auto intro: order.trans)
    then have "consider_point (point_of now ?x) ?p = ?p"
      unfolding Some by (auto simp: consider_point_def point_of_def pc_consider_def)
    then show ?thesis using next' by simp
  qed
  let ?c = "candidate_sink tops ops hash"
  have sink: "ps_found ?c ?p = pc_found ?p" "ps_seq ?c ?p = pc_seq ?p"
      "ps_probe_table ?c rd k rs now ?p = (masked now cover (newer best ?x), Inr ())"
    using next' rd(2) by (simp_all add: candidate_sink_def consider_point_def split: prod.splits)
  have "consider_sstables ?c tops k rs now early (t # ts) ?p = consider_sstables ?c tops k rs now early ts (masked now cover (newer best ?x))"
    using skip rd(1) by (auto simp: sink)
  with IH show ?case by simp
qed simp

section \<open>Levels\<close>

text \<open>
  A level at or below the first: disjoint tables in key order, each owning the range deletes of
  \<open>[min_key, next min_key)\<close>, the rule \<open>gap_owner\<close> states.
\<close>

definition level_ok :: "comparator \<Rightarrow> sst_meta list \<Rightarrow> bool" where
  "level_ok c ms \<longleftrightarrow>
     sorted_wrt (\<lambda>a b. is_lt (compare c (sm_max_key a) (sm_min_key b))
       \<and> (case sm_range_max_key a of None \<Rightarrow> True | Some hi \<Rightarrow> is_le (compare c hi (sm_min_key b)))) ms
     \<and> list_all (\<lambda>m. is_le (compare c (sm_min_key m) (sm_max_key m))
       \<and> (case sm_range_min_key m of None \<Rightarrow> True | Some lo \<Rightarrow> is_le (compare c (sm_min_key m) lo))) ms"

lemma search_splits:
  assumes "\<forall>i j. i < j \<longrightarrow> j < n \<longrightarrow> is_lt (compare c (sm_max_key (ms ! j)) k) \<longrightarrow> is_lt (compare c (sm_max_key (ms ! i)) k)"
    and "lo \<le> hi" "hi \<le> n" "\<forall>j < lo. is_lt (compare c (sm_max_key (ms ! j)) k)"
      "\<forall>j. hi \<le> j \<longrightarrow> j < n \<longrightarrow> \<not> is_lt (compare c (sm_max_key (ms ! j)) k)" and "j < n"
  shows "is_lt (compare c (sm_max_key (ms ! j)) k) \<longleftrightarrow> j < overlap_search c k ms lo hi"
  using assms
proof (induction c k ms lo hi rule: overlap_search.induct)
  case (1 c k ms lo hi)
  let ?P = "\<lambda>j. is_lt (compare c (sm_max_key (ms ! j)) k)" and ?mid = "(lo + hi) div 2"
  show ?case
  proof (cases "lo < hi")
    case True
    show ?thesis
    proof (cases "?P ?mid")
      case mid: True
      have "?mid < n" using True 1(5) by simp
      have "\<forall>i < ?mid + 1. ?P i"
      proof (intro allI impI)
        fix i assume "i < ?mid + 1"
        then have "i = ?mid \<or> i < ?mid" by linarith
        then show "?P i" using mid 1(3) \<open>?mid < n\<close> by blast
      qed
      then have "?P j \<longleftrightarrow> j < overlap_search c k ms (?mid + 1) hi"
        by (intro 1(1) [OF True refl mid 1(3) _ 1(5) _ 1(7,8)]) (use True in simp_all)
      then show ?thesis using True mid by (subst overlap_search.simps) (simp add: Let_def)
    next
      case mid: False
      have "\<forall>i. ?mid \<le> i \<longrightarrow> i < n \<longrightarrow> \<not> ?P i" using mid 1(3) le_neq_implies_less by blast
      then have "?P j \<longleftrightarrow> j < overlap_search c k ms lo ?mid"
        by (intro 1(2) [OF True refl mid 1(3) _ _ 1(6) _ 1(8)]) (use True 1(5) in simp_all)
      then show ?thesis using True mid by (subst overlap_search.simps) (simp add: Let_def)
    qed
  next
    case False
    with 1(4) have "lo = hi" by simp
    then have "overlap_search c k ms lo hi = lo" by (subst overlap_search.simps) simp
    with \<open>lo = hi\<close> 1(6-8) show ?thesis by (metis not_le)
  qed
qed

lemma level_pairs:
  assumes "level_ok c ms" and "i < j" "j < length ms"
  shows "is_lt (compare c (sm_max_key (ms ! i)) (sm_min_key (ms ! j)))"
    and "sm_range_max_key (ms ! i) = Some hi \<Longrightarrow> is_le (compare c hi (sm_min_key (ms ! j)))"
  using assms unfolding level_ok_def by (auto dest: sorted_wrt_nth_less)

lemma level_one:
  assumes "level_ok c ms" and "m \<in> set ms"
  shows "is_le (compare c (sm_min_key m) (sm_max_key m))"
    and "sm_range_min_key m = Some lo \<Longrightarrow> is_le (compare c (sm_min_key m) lo)"
  using assms by (auto simp: level_ok_def list_all_iff)

lemma level_search:
  assumes c: "user_key_order (compare c)" and l: "level_ok c ms" and "j < length ms"
  shows "is_lt (compare c (sm_max_key (ms ! j)) k) \<longleftrightarrow> j < overlap_search c k ms 0 (length ms)"
proof (rule search_splits [OF _ _ order.refl])
  note o = user_key_order.axioms [OF c]
  show "\<forall>i j. i < j \<longrightarrow> j < length ms \<longrightarrow> is_lt (compare c (sm_max_key (ms ! j)) k) \<longrightarrow> is_lt (compare c (sm_max_key (ms ! i)) k)"
    using level_pairs(1) [OF l] level_one(1) [OF l] nth_mem key_order.lt_le_trans [OF o] key_order.le_lt_trans [OF o]
      key_order.lt_imp_le [OF o] by meson
qed (use assms(3) in simp_all)

lemma level_hit:
  assumes c: "user_key_order (compare c)" and l: "level_ok c ms" and j: "j < length ms" and "key_in_range c k (ms ! j)"
  shows "find_overlapping_at c k ms = (Some j, j)"
proof -
  note o = user_key_order.axioms [OF c] and s = level_search [OF c l]
  let ?r = "overlap_search c k ms 0 (length ms)"
  have k: "is_le (compare c (sm_min_key (ms ! j)) k)" "\<not> is_lt (compare c (sm_max_key (ms ! j)) k)"
    using assms(4) by (simp_all add: key_in_range_def key_order.is_ge_iff [OF o] key_order.not_lt_iff [OF o])
  have "?r \<le> j" using k(2) s [OF j] by simp
  moreover have "\<not> ?r < j"
  proof
    assume "?r < j"
    then have "is_lt (compare c (sm_max_key (ms ! ?r)) k)"
      using key_order.lt_le_trans [OF o level_pairs(1) [OF l _ j] k(1)] by blast
    with s [of ?r] \<open>?r < j\<close> j show False by simp
  qed
  ultimately have "?r = j" by simp
  with k(1) j show ?thesis by (simp add: find_overlapping_at_def key_order.is_ge_iff [OF o])
qed

lemma level_gap:
  assumes c: "user_key_order (compare c)" and l: "level_ok c ms" and j: "j < length ms"
    and "sm_has_ranges (ms ! j)" "sm_range_max_key (ms ! j) = Some hi" "is_lt (compare c k hi)"
    and past: "is_lt (compare c (sm_max_key (ms ! j)) k)"
  shows "find_overlapping_at c k ms = (None, Suc j)" and "gap_owner c k ms None (Suc j) = Some j"
proof -
  note o = user_key_order.axioms [OF c] and s = level_search [OF c l]
  let ?r = "overlap_search c k ms 0 (length ms)"
  have after: "is_lt (compare c k (sm_min_key (ms ! i)))" if "j < i" "i < length ms" for i
    using key_order.lt_le_trans [OF o assms(6) level_pairs(2) [OF l that assms(5)]] .
  have "j < ?r" using s [OF j] past by simp
  moreover have "\<not> Suc j < ?r"
  proof
    assume r: "Suc j < ?r"
    then have i: "Suc j < length ms" using search_le [of 0 "length ms" c k ms] by simp
    have "is_lt (compare c k (sm_max_key (ms ! Suc j)))"
      using key_order.lt_le_trans [OF o after [OF _ i] level_one(1) [OF l nth_mem [OF i]]] by simp
    with s [OF i] r show False using key_order.not_lt_iff [OF o] key_order.lt_imp_le [OF o] by blast
  qed
  ultimately have r: "?r = Suc j" by simp
  have "\<not> is_ge (compare c k (sm_min_key (ms ! Suc j)))" if "Suc j < length ms"
    using after [OF _ that] key_order.not_lt_iff [OF o] by (auto simp: key_order.is_ge_iff [OF o])
  with r show "find_overlapping_at c k ms = (None, Suc j)" by (auto simp: find_overlapping_at_def)
  show "gap_owner c k ms None (Suc j) = Some j" using assms(4-6) by (simp add: gap_owner_def)
qed

lemma level_sources_complete:
  assumes c: "user_key_order (compare c)" and l: "level_ok c (map (t_meta tops) lvl)" and t: "t \<in> set lvl"
  shows "key_in_range c k (t_meta tops t) \<Longrightarrow> t \<in> set (fst (level_sources tops c k lvl))"
    and "sm_has_ranges (t_meta tops t) \<Longrightarrow> sm_range_min_key (t_meta tops t) = Some lo
      \<Longrightarrow> sm_range_max_key (t_meta tops t) = Some hi \<Longrightarrow> is_le (compare c lo k) \<Longrightarrow> is_lt (compare c k hi)
      \<Longrightarrow> t \<in> set (fst (level_sources tops c k lvl)) \<union> set (snd (level_sources tops c k lvl))"
proof -
  note o = user_key_order.axioms [OF c]
  obtain j where j: "j < length lvl" "lvl ! j = t" using t by (auto simp: in_set_conv_nth)
  have hit: "t \<in> set (fst (level_sources tops c k lvl))" if "key_in_range c k (t_meta tops t)"
    using level_hit [OF c l, of j k] j that by (simp add: level_sources_def)
  then show "key_in_range c k (t_meta tops t) \<Longrightarrow> t \<in> set (fst (level_sources tops c k lvl))" .
  assume r: "sm_has_ranges (t_meta tops t)" "sm_range_min_key (t_meta tops t) = Some lo"
    "sm_range_max_key (t_meta tops t) = Some hi" "is_le (compare c lo k)" "is_lt (compare c k hi)"
  have low: "is_le (compare c (sm_min_key (t_meta tops t)) k)"
    using key_order.cmp_trans [OF o level_one(2) [OF l _ r(2)] r(4)] t by simp
  show "t \<in> set (fst (level_sources tops c k lvl)) \<union> set (snd (level_sources tops c k lvl))"
  proof (cases "is_lt (compare c (sm_max_key (t_meta tops t)) k)")
    case True
    then show ?thesis using level_gap [OF c l, of j hi k] j r by (simp add: level_sources_def)
  next
    case False
    then show ?thesis
      using low hit by (simp add: key_in_range_def key_order.is_ge_iff [OF o] key_order.not_lt_iff [OF o])
  qed
qed

section \<open>Range coverage\<close>

fun op_spans :: "mem_op \<Rightarrow> span list" where
  "op_spans (MRange start end' seq) = [\<lparr>sp_start = start, sp_end = end', sp_seq = seq\<rparr>]"
| "op_spans _ = []"

definition range_history :: "mem_op list \<Rightarrow> span list" where
  "range_history os = concat (map op_spans os)"

lemma mem_run_ranges:
  assumes "user_key_order (compare c)" and "skip_map ops (ikey_cmp c)"
  shows "mt_ranges (mem_run ops hash c os) = rt_build (compare c) (range_history os)"
proof (induction os rule: rev_induct)
  case Nil
  show ?case by (simp add: mem_run_def mem_new_def rt_build_def range_history_def)
next
  case (snoc op os)
  have step: "mem_run ops hash c (os @ [op]) = mem_apply ops hash (mem_run ops hash c os) op"
    by (simp add: mem_run_def)
  have m: "mt_cmp (mem_run ops hash c os) = c" "length (shards (mem_run ops hash c os)) = NUM_SHARDS"
    using mem_run_holds [OF assms, of hash os] by (simp_all add: mem_holds_def)
  have puts: "mt_ranges (put_refs ops hash rs m) = mt_ranges m" for rs m
    by (induction rs arbitrary: m) (simp_all add: put_ref_eq)
  show ?case
    using snoc m puts [where rs = "[r]" for r] puts unfolding step
    by (cases op) (simp_all add: range_history_def put_ref_def [symmetric] put_batch_eq add_range_def rt_build_def)
qed

lemma covering_append:
  "max_covering cmp (xs @ ys) k rs = newer_seq (max_covering cmp xs k rs) (max_covering cmp ys k rs)"
  by (auto simp: max_covering_def max_opt_append newer_seq_def split: option.splits)

lemma covering_Nil: "max_covering cmp [] k rs = None"
  by (simp add: max_covering_def)

lemma covering_cong:
  assumes "\<And>s. span_covers cmp s k \<Longrightarrow> s \<in> set xs \<longleftrightarrow> s \<in> set ys"
  shows "max_covering cmp xs k rs = max_covering cmp ys k rs"
  unfolding max_covering_def using assms by (intro max_opt_cong) auto

lemma mem_covering_run:
  assumes "user_key_order (compare c)" and "skip_map ops (ikey_cmp c)"
  shows "mem_covering_seq k rs (mem_run ops hash c os) = Inr (max_covering (compare c) (range_history os) k rs)"
    and "rt_is_empty (mt_ranges (mem_run ops hash c os)) \<longleftrightarrow> range_history os = []"
proof -
  let ?r = "rt_build (compare c) (range_history os)"
  have b: "rt_inv (compare c) ?r" "set (rt_spans ?r) = set (range_history os)"
    using user_key_order.rt_build_inv [OF assms(1), of "range_history os"] by blast+
  have "max_covering (compare c) (rt_spans ?r) k rs = max_covering (compare c) (range_history os) k rs"
    by (rule covering_cong) (simp add: b(2))
  then show "mem_covering_seq k rs (mem_run ops hash c os) = Inr (max_covering (compare c) (range_history os) k rs)"
    using mem_run_ranges [OF assms] mem_run_holds [OF assms] user_key_order.rt_covering_seq_correct [OF assms(1) b(1)]
    by (simp add: mem_covering_seq_def)
  have "rt_len ?r = length (rt_spans ?r)" using b(1) by (simp add: rt_inv_def)
  then show "rt_is_empty (mt_ranges (mem_run ops hash c os)) \<longleftrightarrow> range_history os = []"
    using mem_run_ranges [OF assms] b(2) by (auto simp: rt_is_empty_def)
qed

lemma best_covering_run:
  assumes "user_key_order (compare c)" and "skip_map ops (ikey_cmp c)"
  shows "best_covering k rs (max_covering (compare c) X k rs) (map (mem_run ops hash c) oss) =
    Inr (max_covering (compare c) (X @ concat (map range_history oss)) k rs)"
proof (induction oss arbitrary: X)
  case (Cons os oss)
  show ?case
    using Cons [of "X @ range_history os"] by (simp add: mem_covering_run(1) [OF assms] covering_append [symmetric])
qed simp

lemma tables_covering_all:
  assumes "\<forall>t \<in> set ts. table_ranges tops c (rng t) t"
  shows "tables_covering tops k rs (max_covering (compare c) X k rs) ts =
    Inr (max_covering (compare c) (X @ concat (map rng ts)) k rs)"
  using assms
proof (induction ts arbitrary: X)
  case (Cons t ts)
  then obtain rd where "t_reader tops t = Inr rd" "\<And>k rs. r_covering_seq tops rd k rs = max_covering (compare c) (rng t) k rs"
      "\<not> sm_has_ranges (t_meta tops t) \<Longrightarrow> rng t = []"
    by (auto simp: table_ranges_def)
  with Cons.IH [of "X @ rng t"] Cons.prems show ?case
    by (cases "sm_has_ranges (t_meta tops t)") (simp_all add: covering_append [symmetric])
qed simp

text \<open>The sources a read picks hold every row of the key and every range delete over it.\<close>

lemma sources_complete:
  assumes c: "user_key_order (compare c)" and s: "point_read_sources tops c k st = Inr s"
    and lv: "cs_levels st = l0 # rest" "\<forall>lvl \<in> set rest. level_ok c (map (t_meta tops) lvl)"
    and t: "t \<in> set (concat (cs_levels st))"
  shows "key_in_range c k (t_meta tops t) \<Longrightarrow> t \<in> set (src_tables s)"
    and "table_ranges tops c R t \<Longrightarrow> sp \<in> set R \<Longrightarrow> span_covers (compare c) sp k
      \<Longrightarrow> t \<in> set (src_tables s) \<union> set (src_range_tables s)"
proof -
  note o = user_key_order.axioms [OF c]
  have src: "set (src_tables s) = {t \<in> set l0. key_in_range c k (t_meta tops t)} \<union> (\<Union>lvl \<in> set rest. set (fst (level_sources tops c k lvl)))"
    "set (src_range_tables s) = {t \<in> set l0. l0_range_only tops c k t} \<union> (\<Union>lvl \<in> set rest. set (snd (level_sources tops c k lvl)))"
    using s lv(1) by (auto simp: point_read_sources_def Let_def)
  have in': "\<exists>lvl. lvl \<in> set rest \<and> level_ok c (map (t_meta tops) lvl) \<and> t \<in> set lvl" if "t \<notin> set l0"
    using t lv that by auto
  show "t \<in> set (src_tables s)" if r: "key_in_range c k (t_meta tops t)"
  proof (cases "t \<in> set l0")
    case False
    then obtain lvl where lvl: "lvl \<in> set rest" "level_ok c (map (t_meta tops) lvl)" "t \<in> set lvl" using in' by blast
    show ?thesis using level_sources_complete(1) [OF c lvl(2,3) r] lvl(1) unfolding src by blast
  qed (use r in \<open>simp add: src\<close>)
  assume R: "table_ranges tops c R t" "sp \<in> set R" "span_covers (compare c) sp k"
  then obtain lo hi where m: "sm_has_ranges (t_meta tops t)" "sm_range_min_key (t_meta tops t) = Some lo"
      "sm_range_max_key (t_meta tops t) = Some hi" "is_le (compare c lo (sp_start sp))" "is_le (compare c (sp_end sp) hi)"
    unfolding table_ranges_def by (metis empty_iff list.set(1))
  have k: "is_le (compare c lo k)" "is_lt (compare c k hi)"
    using R(3) m(4,5) key_order.cmp_trans [OF o] key_order.lt_le_trans [OF o] unfolding span_covers_def by blast+
  show "t \<in> set (src_tables s) \<union> set (src_range_tables s)"
  proof (cases "t \<in> set l0")
    case True
    have "is_le (compare c (span_min c (t_meta tops t)) k)"
      using k(1) m(2) key_order.cmp_trans [OF o] key_order.not_lt_iff [OF o] by (auto simp: span_min_def)
    moreover have "is_le (compare c k (span_max c (t_meta tops t)))"
      using key_order.lt_imp_le [OF o k(2)] m(3) key_order.cmp_trans [OF o] key_order.not_lt_iff [OF o]
      by (auto simp: span_max_def key_order.is_gt_iff [OF o])
    ultimately show ?thesis
      using True m(1) unfolding src by (auto simp: l0_range_only_def span_contains_def key_order.is_ge_iff [OF o])
  next
    case False
    then obtain lvl where lvl: "lvl \<in> set rest" "level_ok c (map (t_meta tops) lvl)" "t \<in> set lvl" using in' by blast
    show ?thesis using level_sources_complete(2) [OF c lvl(2,3) m(1-3) k] lvl(1) unfolding src by blast
  qed
qed

lemma covering_complete:
  assumes c: "user_key_order (compare c)" and ops: "skip_map ops (ikey_cmp c)"
    and s: "point_read_sources tops c k st = Inr s" and cf: "cf_unified cf = None"
    and mems: "cs_mem st = mem_run ops hash c os" "cs_imm st = map (mem_run ops hash c) oss"
    and lv: "cs_levels st = l0 # rest" "\<forall>lvl \<in> set rest. level_ok c (map (t_meta tops) lvl)"
    and tabs: "\<forall>t \<in> set (concat (cs_levels st)). table_ranges tops c (rng t) t"
  shows "covering_range_seq tops cf s k rs = Inr (max_covering (compare c)
    (concat (map range_history (os # oss)) @ concat (map rng (concat (cs_levels st)))) k rs)"
proof -
  let ?M = "concat (map range_history (os # oss))" and ?ts = "src_tables s @ src_range_tables s"
  have sub: "set ?ts \<subseteq> set (concat (cs_levels st))" using sources_in [OF s] by simp
  then have ts: "\<forall>t \<in> set ?ts. table_ranges tops c (rng t) t" using tabs by blast
  have mem: "src_mem s = mem_run ops hash c os" "src_imms s = map (mem_run ops hash c) oss"
    using s lv(1) mems by (auto simp: point_read_sources_def Let_def)
  have "covering_range_seq tops cf s k rs = Inr (max_covering (compare c) (?M @ concat (map rng ?ts)) k rs)"
  proof (cases "src_has_ranges tops s")
    case True
    have "best_covering k rs None (src_mem s # src_imms s) = Inr (max_covering (compare c) ?M k rs)"
      using best_covering_run [OF c ops, of k rs "[]" hash "os # oss"] by (simp add: mem covering_Nil)
    with True show ?thesis
      using tables_covering_all [OF ts, of k rs ?M] by (simp add: covering_range_seq_def cf)
  next
    case False
    then have "\<forall>t \<in> set ?ts. \<not> sm_has_ranges (t_meta tops t)" by (auto simp: src_has_ranges_def)
    then have "\<forall>t \<in> set ?ts. rng t = []" using ts by (auto simp: table_ranges_def)
    moreover have "\<forall>h \<in> set (os # oss). range_history h = []"
      using False mem_covering_run(2) [OF c ops] by (auto simp: src_has_ranges_def mem)
    ultimately have "concat (map rng ?ts) = []" "?M = []" by (simp_all add: concat_eq_Nil_conv)
    with False show ?thesis by (simp only: append_Nil covering_Nil) (simp add: covering_range_seq_def unified_has_ranges_def cf)
  qed
  moreover have "max_covering (compare c) (?M @ concat (map rng ?ts)) k rs
      = max_covering (compare c) (?M @ concat (map rng (concat (cs_levels st)))) k rs"
  proof (rule covering_cong)
    fix sp assume sp: "span_covers (compare c) sp k"
    let ?all = "concat (cs_levels st)"
    have picked: "t \<in> set ?ts" if "t \<in> set ?all" "sp \<in> set (rng t)" for t
    proof -
      have "table_ranges tops c (rng t) t" using tabs that(1) by (rule bspec)
      from sources_complete(2) [OF c s lv that(1) this that(2) sp] show ?thesis by simp
    qed
    have "(\<exists>t \<in> set ?ts. sp \<in> set (rng t)) \<longleftrightarrow> (\<exists>t \<in> set ?all. sp \<in> set (rng t))"
      using sub picked by (meson subsetD)
    then have "sp \<in> set (concat (map rng ?ts)) \<longleftrightarrow> sp \<in> set (concat (map rng ?all))"
      by (simp only: set_concat set_map UN_iff image_iff bex_simps)
    then show "sp \<in> set (?M @ concat (map rng ?ts)) \<longleftrightarrow> sp \<in> set (?M @ concat (map rng ?all))"
      by (simp only: set_append Un_iff)
  qed
  ultimately show ?thesis by simp
qed

section \<open>The answer\<close>

definition family_rows :: "'m skip_ops \<Rightarrow> ('t \<Rightarrow> entry list) \<Rightarrow> ('m, 't) cf_state \<Rightarrow> entry list list" where
  "family_rows ops tab st = map (mem_snapshot ops) (cs_mem st # cs_imm st) @ map tab (concat (cs_levels st))"

definition family_cover :: "comparator \<Rightarrow> mem_op list list \<Rightarrow> ('t \<Rightarrow> span list) \<Rightarrow> ('m, 't) cf_state \<Rightarrow> bytes \<Rightarrow> u64 \<Rightarrow> u64 option" where
  "family_cover c oss rng st k rs =
     max_covering (compare c) (concat (map range_history oss) @ concat (map rng (concat (cs_levels st)))) k rs"

definition answer :: "bytes option result \<Rightarrow> bytes result" where
  "answer r = (case r of Inl e \<Rightarrow> Inl e | Inr None \<Rightarrow> Inl NotFound | Inr (Some v) \<Rightarrow> Inr v)"

lemma versions_seen:
  fixes k :: bytes and rs :: u64
  assumes c: "user_key_order (compare c)" and C: "\<forall>L \<in> set C. in_order c L" and inj: "inj_on entry_ikey (set (concat C))"
  defines "D \<equiv> filter (\<lambda>e. e_seq e \<le> rs) (versions c C k)"
  shows "newest_first D" and "set D = set (concat (map (seen_at k rs) C))"
proof -
  show "newest_first D" unfolding D_def by (rule sorted_wrt_filter [OF versions_sorted(1) [OF c C]])
  have group: "set (group_of c 1 C k) = {e \<in> set (concat C). e_key e = k}"
    by (force simp: group_of_def set_merged in_set_conv_nth)
  have same: "same_seq = (\<lambda>a b. e_seq a = e_seq b)" by (simp add: same_seq_def fun_eq_iff)
  note d = dedup_first(2) [of "\<lambda>a b. b \<le> a" e_seq, OF group_sorted(1) [OF c C], folded same]
  have "find (\<lambda>y. e_seq y = e_seq x) (group_of c 1 C k) = Some x \<longleftrightarrow> x \<in> set (group_of c 1 C k)" for x
  proof
    assume x: "x \<in> set (group_of c 1 C k)"
    then obtain y where y: "find (\<lambda>y. e_seq y = e_seq x) (group_of c 1 C k) = Some y"
      by (metis (mono_tags, lifting) find_None_iff not_None_eq)
    then have "e_seq y = e_seq x" "y \<in> set (group_of c 1 C k)" using find_Some_in by (metis (mono_tags, lifting))+
    with x have "y = x" unfolding group by (intro inj_onD [OF inj]) (auto simp: entry_ikey_def)
    with y show "find (\<lambda>y. e_seq y = e_seq x) (group_of c 1 C k) = Some x" by simp
  qed (use find_Some_in in \<open>metis\<close>)
  then have "set (versions c C k) = {e \<in> set (concat C). e_key e = k}"
    unfolding versions_def using d group by auto
  then show "set D = set (concat (map (seen_at k rs) C))" by (auto simp: D_def seen_at_def)
qed

lemma resolve_candidate:
  assumes mem: "src_mem s = mem_run ops hash c os" "src_imms s = map (mem_run ops hash c) oss"
    and c: "user_key_order (compare c)" and ops: "skip_map ops (ikey_cmp c)" and cf: "cf_unified cf = None"
    and ok: "\<forall>h \<in> set (os # oss). kinds_ok (history h) \<and> length (history h) < 2 ^ 64"
    and cover: "covering_range_seq tops cf s k rs = Inr cover"
    and rows: "\<forall>t \<in> set (src_tables s). table_rows tops c okc contents (tab t) t"
    and tie: "\<forall>V \<in> set (map (seen_at k rs) (map (mem_list c) (os # rev oss) @ map tab (src_tables s))). \<forall>e \<in> set V. cover \<noteq> Some (e_seq e)"
  shows "resolve_point (candidate_sink tops ops hash) tops cf s k rs now early pc_default =
    (masked now cover (foldl newer None (map first_of (map (seen_at k rs) (map (mem_list c) (os # rev oss) @ map tab (src_tables s))))), Inr ())"
proof -
  let ?c = "candidate_sink tops ops hash" and ?x = "\<lambda>L. first_of (seen_at k rs L)"
  have one: "ps_probe_mem ?c (mem_run ops hash c h) k rs now (cand_of now best) = cand_of now (newer best (?x (mem_list c h)))"
    if "h \<in> set (os # oss)" for h best
    using mem_probe [OF c ops conjunct1 [OF bspec [OF ok that]] conjunct2 [OF bspec [OF ok that]], of hash k rs now]
    by (simp add: candidate_sink_def consider_newer)
  have many: "foldl (\<lambda>st m. ps_probe_mem ?c m k rs now st) (cand_of now best) (map (mem_run ops hash c) hs) =
      cand_of now (foldl newer best (map (\<lambda>h. ?x (mem_list c h)) hs))" if "set hs \<subseteq> set (os # oss)" for hs best
    using that
  proof (induction hs arbitrary: best)
    case (Cons h hs)
    have "h \<in> set (os # oss)" "set hs \<subseteq> set (os # oss)" using Cons.prems by simp_all
    with Cons.IH one show ?case by simp
  qed simp
  let ?best = "foldl newer None (map (\<lambda>h. ?x (mem_list c h)) (os # rev oss))"
  have mems: "foldl (\<lambda>st m. ps_probe_mem ?c m k rs now st) (ps_probe_mem ?c (src_mem s) k rs now pc_default) (rev (src_imms s))
      = cand_of now ?best"
  proof -
    have imms: "rev (src_imms s) = map (mem_run ops hash c) (rev oss)" by (simp add: mem(2) rev_map)
    have "set (os # rev oss) \<subseteq> set (os # oss)" by simp
    from many [OF this, of None] show ?thesis unfolding imms mem(1) cand_default by (simp only: list.map foldl.simps)
  qed
  have nt: "no_tie cover (first_of V)" if "V \<in> set (map (seen_at k rs) (map (mem_list c) (os # rev oss) @ map tab (src_tables s)))" for V
    unfolding no_tie_def by (intro allI impI) (rule bspec [OF bspec [OF tie that] first_of_in])
  have keeps: "no_tie cover (foldl newer best xs)" if "no_tie cover best" "\<forall>x \<in> set xs. no_tie cover x" for best xs
    using that by (induction xs arbitrary: best) (auto simp: newer_def no_tie_def split: option.splits)
  have mem_nt: "no_tie cover ?best"
  proof (rule keeps)
    show "no_tie cover None" by (simp add: no_tie_def)
    show "\<forall>x \<in> set (map (\<lambda>h. ?x (mem_list c h)) (os # rev oss)). no_tie cover x" using nt by auto
  qed
  have tab_nt: "\<forall>t \<in> set (src_tables s). no_tie cover (?x (tab t))" using nt by auto
  have "resolve_point ?c tops cf s k rs now early pc_default =
      consider_sstables ?c tops k rs now early (src_tables s) (masked now cover ?best)"
    unfolding resolve_point_def Let_def cf option.case mems cover sum.case by (simp add: masked_def candidate_sink_def)
  then show ?thesis unfolding table_probes [OF rows tab_nt mem_nt] by (simp add: comp_def)
qed

text \<open>Whether the winning version is an operand that no range delete hides.\<close>

definition folds :: "u64 option \<Rightarrow> entry list \<Rightarrow> bool" where
  "folds cover D \<longleftrightarrow> (case D of [] \<Rightarrow> False | e # _ \<Rightarrow> entry_is_merge e \<and> \<not> cut_by cover e)"

lemma masked_kind:
  assumes "\<forall>e \<in> set D. cover \<noteq> Some (e_seq e)"
  shows "pc_kind (masked now cover (first_of D)) = KIND_MERGE \<longleftrightarrow> folds cover D"
    and "pc_range_floor (masked now cover (first_of D)) = cover"
    and "\<not> folds cover D \<Longrightarrow> pc_finish (masked now cover (first_of D)) = answer (Inr (newest_value now cover D))"
  using assms
  by (cases D; cases cover; auto simp: masked_def cand_of_def point_of_def pc_mask_def folds_def cut_by_def Let_def
      entry_is_merge_def pc_finish_def answer_def newest_value_def kind_defs)+

lemma resolve_not_folding:
  assumes "newest_first D" and "\<forall>e \<in> set D. cover \<noteq> Some (e_seq e)" and "D = filter (\<lambda>e. e_seq e \<le> rs) vs"
    and "\<not> folds cover D"
  shows "resolve_versions mop rs now cover k vs = Inr (newest_value now cover D)"
proof (cases mop)
  case None
  then show ?thesis by (simp add: resolve_versions_def assms(3))
next
  case (Some f)
  let ?live = "filter (\<lambda>e. \<not> cut_by cover e) (takeWhile entry_is_merge D)" and ?base = "dropWhile entry_is_merge D"
  have "?live = [] \<and> newest_value now cover ?base = newest_value now cover D"
  proof (cases D)
    case (Cons e E)
    show ?thesis
    proof (cases "entry_is_merge e")
      case True
      then have "cut_by cover e" using assms(4) Cons by (simp add: folds_def)
      then have cut: "\<forall>x \<in> set D. cut_by cover x" using assms(1) Cons cut_down by auto
      have hidden: "newest_value now cover B = None" if "set B \<subseteq> set D" for B
        using that cut assms(2) by (cases B) (fastforce simp: newest_value_def cut_by_def split: option.splits)+
      have "?live = []" using cut set_takeWhileD by (fastforce simp: filter_empty_conv)
      moreover have "set ?base \<subseteq> set D" using set_dropWhileD by fastforce
      ultimately show ?thesis using hidden [of ?base] hidden [of D] by simp
    qed (simp add: Cons)
  qed simp
  then show ?thesis by (simp add: resolve_versions_def Some assms(3) Let_def)
qed

lemma resolve_folding:
  assumes "D = filter (\<lambda>e. e_seq e \<le> rs) vs" and "folds cover D"
    and gather: "gather_operands None [] (sort_by (\<lambda>a b. ord_cmp (cv_seq b) (cv_seq a)) ws) =
      (map e_value (filter (\<lambda>e. \<not> cut_by cover e) (takeWhile entry_is_merge D)), live_base now cover (dropWhile entry_is_merge D))"
  shows "fold_chain f k ws = answer (resolve_versions (Some f) rs now cover k vs)"
proof -
  have "filter (\<lambda>e. \<not> cut_by cover e) (takeWhile entry_is_merge D) \<noteq> []"
    using assms(2) by (cases D) (simp_all add: folds_def)
  then show ?thesis
    by (simp add: fold_chain_def gather resolve_versions_def Let_def answer_def flip: assms(1) split: sum.splits)
qed

lemma collect_mems:
  assumes c: "user_key_order (compare c)" and ops: "skip_map ops (ikey_cmp c)"
    and "\<forall>h \<in> set hs. kinds_ok (history h) \<and> length (history h) < 2 ^ 64"
  shows "foldl (\<lambda>vs m. mem_chain ops hash k rs now collect_chain m vs) vs (map (mem_run ops hash c) hs) =
    vs @ map (cv_of now) (concat (map (\<lambda>h. upto_base (seen_at k rs (mem_list c h))) hs))"
  using assms(3)
proof (induction hs arbitrary: vs)
  case (Cons h hs)
  have h: "kinds_ok (history h)" "length (history h) < 2 ^ 64" using Cons.prems by simp_all
  show ?case using Cons by (simp add: mem_source(1) [OF c ops h] feed_collect)
qed simp

context child_source
begin

lemma fold_point_exact:
  assumes quiet: "quiet_children ops" and sk: "skip_map sops (ikey_cmp c)"
    and mem: "src_mem s = mem_run sops hash c os" "src_imms s = map (mem_run sops hash c) oss"
    and cf: "cf_unified cf = None" "cf_cmp cf = c"
    and hist: "\<forall>h \<in> set (os # oss). kinds_ok (history h) \<and> length (history h) < 2 ^ 64"
    and rows: "\<forall>t \<in> set (src_tables s). table_rows tops c ok contents (tab t) t \<and> operands_alive now (set (tab t))"
  shows "\<exists>ws. fold_point_chain tops ops sops hash cf f s k rs now cover = Some (fold_chain f k ws)
    \<and> set ws = range_marker ` set_option cover \<union> cv_of now `
        set (concat (map upto_base (map (seen_at k rs) (map (mem_list c) (os # rev oss) @ map tab (src_tables s)))))"
proof -
  let ?v0 = "case cover of Some seq \<Rightarrow> [\<lparr>cv_seq = seq, cv_merge = False, cv_value = None\<rparr>] | None \<Rightarrow> []"
  let ?ms = "map (cv_of now) (concat (map (\<lambda>h. upto_base (seen_at k rs (mem_list c h))) (os # rev oss)))"
  let ?ts = "map (cv_of now) (concat (map (\<lambda>t. upto_base (seen_at k rs (tab t))) (src_tables s)))"
  have mems: "src_mem s # rev (src_imms s) = map (mem_run sops hash c) (os # rev oss)" by (simp add: mem rev_map)
  have "\<forall>h \<in> set (os # rev oss). kinds_ok (history h) \<and> length (history h) < 2 ^ 64" using hist by simp
  then have "fold_point_chain tops ops sops hash cf f s k rs now cover = Some (fold_chain f k ((?v0 @ ?ms) @ ?ts))"
    unfolding fold_point_chain_def Let_def cf option.case mems
    by (simp only: collect_mems [OF order sk] collect_all [OF quiet rows] option.map rbind_simps)
  moreover have "set ((?v0 @ ?ms) @ ?ts) = range_marker ` set_option cover \<union> cv_of now `
      set (concat (map upto_base (map (seen_at k rs) (map (mem_list c) (os # rev oss) @ map tab (src_tables s)))))"
    by (cases cover) (auto simp: range_marker_def)
  ultimately show ?thesis by blast
qed

end

text \<open>What the writers keep of the rows: a repeated version is an exact copy, operands carry no
  time to live and exist only in a family with an operator.\<close>

definition rows_ok :: "merge_operator option \<Rightarrow> entry list list \<Rightarrow> bool" where
  "rows_ok mop C \<longleftrightarrow> inj_on entry_ikey (set (concat C))
     \<and> (\<forall>e \<in> set (concat C). entry_is_merge e \<longrightarrow> e_ttl e = 0 \<and> mop \<noteq> None)"

lemma family_lists:
  assumes c: "user_key_order (compare c)" and sk: "skip_map ops (ikey_cmp c)"
    and mems: "cs_mem st = mem_run ops hash c os" "cs_imm st = map (mem_run ops hash c) oss"
    and hist: "\<forall>h \<in> set (os # oss). kinds_ok (history h) \<and> length (history h) < 2 ^ 64"
  shows "family_rows ops tab st = map (mem_list c) (os # oss) @ map tab (concat (cs_levels st))"
proof -
  have "mem_snapshot ops (mem_run ops hash c h) = mem_list c h" if "h \<in> set (os # oss)" for h
    using snapshot_puts [of "mem_run ops hash c h" ops hash "history h"] mem_run_holds [OF c sk, of hash h]
      bspec [OF hist that] c by simp
  then show ?thesis by (simp add: family_rows_def mems)
qed

lemma rows_alive: "rows_ok mop C \<Longrightarrow> operands_alive now (set (concat C))"
  by (auto simp: rows_ok_def operands_alive_def entry_dead_def expired_def entry_tombstone_def entry_is_merge_def kind_defs)

lemma picked_rows:
  assumes c: "user_key_order (compare c)" and s: "point_read_sources tops c k st = Inr s"
    and lv: "cs_levels st = l0 # rest" "\<forall>lvl \<in> set rest. level_ok c (map (t_meta tops) lvl)"
    and rows: "\<forall>t \<in> set (concat (cs_levels st)). table_rows tops c ok contents (tab t) t"
  shows "set (concat (map (seen_at k rs) (map tab (src_tables s)))) = set (concat (map (seen_at k rs) (map tab (concat (cs_levels st)))))"
proof -
  let ?g = "\<lambda>t. set (seen_at k rs (tab t))"
  have picked: "t \<in> set (src_tables s)" if "t \<in> set (concat (cs_levels st))" "e \<in> ?g t" for t e
    using sources_complete(1) [OF c s lv that(1)] bspec [OF rows that(1)] that(2) by (auto simp: seen_at_def table_rows_def)
  have sub: "set (src_tables s) \<subseteq> set (concat (cs_levels st))" using sources_in [OF s] by simp
  have UN: "set (concat (map (seen_at k rs) (map tab ts))) = (\<Union>t \<in> set ts. ?g t)" for ts by simp
  show ?thesis
    unfolding UN
  proof (intro equalityI subsetI)
    fix e assume "e \<in> (\<Union>t \<in> set (src_tables s). ?g t)"
    with sub show "e \<in> (\<Union>t \<in> set (concat (cs_levels st)). ?g t)" by (rule UN_mono [THEN subsetD, OF _ subset_refl])
  next
    fix e assume "e \<in> (\<Union>t \<in> set (concat (cs_levels st)). ?g t)"
    then show "e \<in> (\<Union>t \<in> set (src_tables s). ?g t)" by (elim UN_E) (rule UN_I, rule picked)
  qed
qed

abbreviation seen_lists :: "comparator \<Rightarrow> bytes \<Rightarrow> u64 \<Rightarrow> mem_op list list \<Rightarrow> ('t \<Rightarrow> entry list) \<Rightarrow> 't list \<Rightarrow> entry list list" where
  "seen_lists c k rs hs tab ts \<equiv> map (seen_at k rs) (map (mem_list c) hs @ map tab ts)"

text \<open>The lists a read visits hold exactly the visible versions of the key in the family.\<close>

lemma family_versions:
  fixes k :: bytes and rs :: u64
  assumes c: "user_key_order (compare c)" and sk: "skip_map ops (ikey_cmp c)"
    and mems: "cs_mem st = mem_run ops hash c os" "cs_imm st = map (mem_run ops hash c) oss"
    and hist: "\<forall>h \<in> set (os # oss). kinds_ok (history h) \<and> length (history h) < 2 ^ 64"
    and s: "point_read_sources tops c k st = Inr s"
    and lv: "cs_levels st = l0 # rest" "\<forall>lvl \<in> set rest. level_ok c (map (t_meta tops) lvl)"
    and rows: "\<forall>t \<in> set (concat (cs_levels st)). table_rows tops c ok contents (tab t) t"
    and inj: "inj_on entry_ikey (set (concat (family_rows ops tab st)))"
  defines "D \<equiv> filter (\<lambda>e. e_seq e \<le> rs) (versions c (family_rows ops tab st) k)"
    and "W \<equiv> seen_lists c k rs (os # rev oss) tab (src_tables s)"
  shows "newest_first D" and "\<forall>V \<in> set W. newest_first V" and "set (concat W) = set D"
    and "set D \<subseteq> set (concat (family_rows ops tab st))" and "\<forall>e \<in> set D. e_key e = k" and "inj_on e_seq (set D)"
proof -
  note lists = family_lists [OF c sk mems hist]
  have sub: "set (src_tables s) \<subseteq> set (concat (cs_levels st))" using sources_in [OF s] by simp
  have ordered: "\<forall>L \<in> set (map (mem_list c) (os # oss) @ map tab (concat (cs_levels st))). in_order c L"
    using mem_source(2) [OF c sk] hist rows by (auto simp: table_rows_def)
  then have C_ord: "\<forall>L \<in> set (family_rows ops tab st). in_order c L" by (simp only: lists)
  note D = versions_seen [OF c C_ord inj, where k = k and rs = rs, folded D_def]
  show "newest_first D" by (rule D(1))
  show "\<forall>V \<in> set W. newest_first V"
  proof
    fix V assume "V \<in> set W"
    then obtain L where "V = seen_at k rs L" "L \<in> set (map (mem_list c) (os # oss) @ map tab (concat (cs_levels st)))"
      using sub unfolding W_def by fastforce
    then show "newest_first V" using seen_at_newest [OF c] ordered by blast
  qed
  show "set (concat W) = set D"
    using picked_rows [OF c s lv rows, of rs] unfolding D(2) lists W_def by (simp add: Un_assoc comp_def)
  show sub': "set D \<subseteq> set (concat (family_rows ops tab st))" and key: "\<forall>e \<in> set D. e_key e = k"
    unfolding D(2) by (auto simp: seen_at_def)
  show "inj_on e_seq (set D)"
  proof (rule inj_onI)
    fix x y assume xy: "x \<in> set D" "y \<in> set D" "e_seq x = e_seq y"
    with key have "entry_ikey x = entry_ikey y" by (simp add: entry_ikey_def)
    then show "x = y" using inj_onD [OF inj] xy sub' by blast
  qed
qed


lemma memtable_table_rows:
  assumes "kinds_ok (history os)" "length (history os) < 2 ^ 64"
    and "\<forall>r \<in> set (history os). e_seq r \<le> sm_max_seq m \<and> key_in_range Bytewise (e_key r) m"
  shows "table_rows sample_tables Bytewise (mem_ok list_ops Bytewise) (mem_contents list_ops Bytewise)
    (mem_snapshot list_ops (sample_memtable os)) (m, sample_memtable os)"
proof -
  note c = bytewise.user_key_order_axioms and sk = list_map.skip_map_axioms and child = sample_child [OF assms(1)]
  have "row_point (mem_get list_ops (\<lambda>k. 0) k rs now (sample_memtable os)) =
      point_of now (first_of (seen_at k rs (mem_list Bytewise os)))" for k rs now
  proof -
    let ?y = "first_of (seen_at k rs (mem_list Bytewise os))"
    obtain x where x: "mem_get list_ops (\<lambda>k. 0) k rs now (sample_memtable os) = lookup_of x now"
      using mem_get_holds [of "sample_memtable os" list_ops "\<lambda>k. 0" "history os" k rs now]
        mem_run_holds [OF c sk, of "\<lambda>k. 0" os] assms c sk by auto
    have "row_point (lookup_of x now) = point_of now x"
      by (auto simp: row_point_def lookup_of_def lookup_default_def point_of_def entry_dead_def expired_def split: option.splits)
    moreover have "consider_point (point_of now x) pc_default = consider_point (point_of now ?y) pc_default"
      using mem_probe [OF c sk assms(1,2), of "\<lambda>k. 0" k rs now pc_default] by (simp add: x consider_lookup)
    then have "point_of now x = point_of now ?y"
      by (auto simp: consider_point_def point_of_def pc_consider_def pc_default_def split: option.splits if_splits)
    ultimately show ?thesis by (simp add: x)
  qed
  then show ?thesis
    using child mem_source(2) [OF c sk assms(1,2)] assms(3)
    by (auto simp: table_rows_def memtable_tables_def simp del: set_map)
qed

lemma memtable_table_ranges:
  assumes "range_history os \<noteq> [] \<longrightarrow> sm_has_ranges m \<and> (\<exists>lo hi. sm_range_min_key m = Some lo \<and> sm_range_max_key m = Some hi
    \<and> (\<forall>s \<in> set (range_history os). is_le (compare Bytewise lo (sp_start s)) \<and> is_le (compare Bytewise (sp_end s) hi)))"
  shows "table_ranges sample_tables Bytewise (range_history os) (m, sample_memtable os)"
  using assms mem_covering_run(1) [OF bytewise.user_key_order_axioms list_map.skip_map_axioms]
  by (simp add: table_ranges_def memtable_tables_def)

definition sample_ranges :: "sst_meta \<times> (ikey \<times> val) list memtable \<Rightarrow> span list" where
  "sample_ranges t = (if sm_has_ranges (fst t) then range_history sample_ops else [])"

lemma sample_families:
  "family_rows list_ops (\<lambda>t. mem_snapshot list_ops (snd t)) sample_state =
    map (mem_list Bytewise) [sample_late, sample_ops, low_ops]"
  using samples_ok(1,2) by (simp add: family_rows_def sample_state_def sample_child(4) low_ops_def history_def kinds_ok_def kind_defs)

lemma sample_meta:
  "sample_ranges (table_meta 6 [1] [2] (Some sp), m) = range_history sample_ops" "sample_ranges (table_meta 1 [4] [4] None, m) = []"
  "range_history sample_ops = [\<lparr>sp_start = [7], sp_end = [9], sp_seq = 6\<rparr>]" "range_history low_ops = []"
  by (simp_all add: sample_ranges_def sm_has_ranges_def table_meta_def range_history_def sample_ops_def low_ops_def)

lemma sample_contract:
  assumes "t \<in> set (concat (cs_levels sample_state))"
  shows "table_rows sample_tables Bytewise (mem_ok list_ops Bytewise) (mem_contents list_ops Bytewise) (mem_snapshot list_ops (snd t)) t
    \<and> table_ranges sample_tables Bytewise (sample_ranges t) t"
proof -
  let ?hi = "table_meta 6 [1] [2] (Some \<lparr>sp_start = [7], sp_end = [9], sp_seq = 6\<rparr>)" and ?lo = "table_meta 1 [4] [4] None"
  have "table_rows sample_tables Bytewise (mem_ok list_ops Bytewise) (mem_contents list_ops Bytewise)
      (mem_snapshot list_ops (sample_memtable sample_ops)) (?hi, sample_memtable sample_ops)"
    by (rule memtable_table_rows)
      (simp_all add: samples_ok(1), simp_all add: sample_ops_def history_def table_meta_def key_in_range_def ord_cmp_def)
  moreover have "table_rows sample_tables Bytewise (mem_ok list_ops Bytewise) (mem_contents list_ops Bytewise)
      (mem_snapshot list_ops (sample_memtable low_ops)) (?lo, sample_memtable low_ops)"
    by (rule memtable_table_rows)
      (simp_all add: low_ops_def history_def table_meta_def key_in_range_def ord_cmp_def kinds_ok_def kind_defs)
  moreover have "table_ranges sample_tables Bytewise (range_history sample_ops) (?hi, sample_memtable sample_ops)"
    by (rule memtable_table_ranges) (simp add: sample_meta(3) sm_has_ranges_def table_meta_def ord_cmp_def)
  moreover have "table_ranges sample_tables Bytewise (range_history low_ops) (?lo, sample_memtable low_ops)"
    by (rule memtable_table_ranges) (simp add: sample_meta(4))
  ultimately show ?thesis using assms by (auto simp: sample_state_def sample_meta(1,2,4))
qed


end
