(* ===== verification/Point_Gap.thy ===== *)
theory Point_Gap
  imports Point_Exact
begin

text \<open>
  The one hypothesis of the exactness of point reads that the writers do not keep: the range deletes
  of a table at level 1 or below start at its \<open>min_key\<close>. A compaction extends the first output of a
  job down to the job's lower edge (\<open>src/src/compaction.rs\<close>, \<open>CompactionOutputBuilder\<close>), so a table's
  range bounds may start left of its points, and the gap owner looks at the table on the left only.
\<close>

text \<open>A table at level 1 with a point at 5 and a range delete over \<open>[2, 9)\<close>, above a table at level 2
  with an older value of key 3.\<close>

definition edge_ops :: "mem_op list" where
  "edge_ops = [MPut \<lparr>e_key = [5], e_value = [55], e_seq = 12, e_ttl = 0, e_kind = KIND_PUT\<rparr>, MRange [2] [9] 10]"

definition deep_ops :: "mem_op list" where
  "deep_ops = [MPut \<lparr>e_key = [3], e_value = [33], e_seq = 4, e_ttl = 0, e_kind = KIND_PUT\<rparr>]"

definition edge_meta :: sst_meta where
  "edge_meta = table_meta 12 [5] [5] (Some \<lparr>sp_start = [2], sp_end = [9], sp_seq = 10\<rparr>)"

definition deep_meta :: sst_meta where
  "deep_meta = table_meta 4 [3] [3] None"

abbreviation edge_table :: "sst_meta \<times> (ikey \<times> val) list memtable" where
  "edge_table \<equiv> (edge_meta, sample_memtable edge_ops)"

abbreviation deep_table :: "sst_meta \<times> (ikey \<times> val) list memtable" where
  "deep_table \<equiv> (deep_meta, sample_memtable deep_ops)"

definition edge_state :: "((ikey \<times> val) list, sst_meta \<times> (ikey \<times> val) list memtable) cf_state" where
  "edge_state = \<lparr>cs_mem = sample_memtable [], cs_imm = [], cs_levels = [[], [edge_table], [deep_table]]\<rparr>"

lemma edge_contract:
  "table_rows sample_tables Bytewise (mem_ok list_ops Bytewise) (mem_contents list_ops Bytewise)
     (mem_snapshot list_ops (sample_memtable edge_ops)) edge_table"
  "table_ranges sample_tables Bytewise (range_history edge_ops) edge_table"
  "table_rows sample_tables Bytewise (mem_ok list_ops Bytewise) (mem_contents list_ops Bytewise)
     (mem_snapshot list_ops (sample_memtable deep_ops)) deep_table"
  "table_ranges sample_tables Bytewise (range_history deep_ops) deep_table"
proof -
  show "table_rows sample_tables Bytewise (mem_ok list_ops Bytewise) (mem_contents list_ops Bytewise)
      (mem_snapshot list_ops (sample_memtable edge_ops)) edge_table"
    by (rule memtable_table_rows)
      (simp_all add: edge_ops_def history_def edge_meta_def deep_meta_def table_meta_def key_in_range_def ord_cmp_def kinds_ok_def kind_defs)
  show "table_rows sample_tables Bytewise (mem_ok list_ops Bytewise) (mem_contents list_ops Bytewise)
      (mem_snapshot list_ops (sample_memtable deep_ops)) deep_table"
    by (rule memtable_table_rows)
      (simp_all add: deep_ops_def history_def edge_meta_def deep_meta_def table_meta_def key_in_range_def ord_cmp_def kinds_ok_def kind_defs)
  show "table_ranges sample_tables Bytewise (range_history edge_ops) edge_table"
    by (rule memtable_table_ranges) (simp add: edge_ops_def range_history_def sm_has_ranges_def edge_meta_def deep_meta_def table_meta_def ord_cmp_def)
  show "table_ranges sample_tables Bytewise (range_history deep_ops) deep_table"
    by (rule memtable_table_ranges) (simp add: deep_ops_def range_history_def)
qed

lemma edge_sources:
  "point_read_sources sample_tables Bytewise [3] edge_state =
    Inr \<lparr>src_mem = sample_memtable [], src_imms = [], src_tables = [deep_table], src_range_tables = []\<rparr>"
proof -
  have "find_overlapping_at Bytewise [3] [edge_meta] = (None, 0) \<and> gap_owner Bytewise [3] [edge_meta] None 0 = None"
    by code_simp
  then have 1: "level_sources sample_tables Bytewise [3] [edge_table] = ([], [])"
    by (simp add: level_sources_def memtable_tables_def)
  have "find_overlapping_at Bytewise [3] [deep_meta] = (Some 0, 0) \<and> gap_owner Bytewise [3] [deep_meta] (Some 0) 0 = None"
    by code_simp
  then have 2: "level_sources sample_tables Bytewise [3] [deep_table] = ([deep_table], [])"
    by (simp add: level_sources_def memtable_tables_def)
  show ?thesis by (simp add: point_read_sources_def edge_state_def 1 2)
qed


end
