(* ===== verification/Spec2Isabelle.thy ===== *)
theory Spec2Isabelle
  imports Prelude Errors Encoding Key_Comparator Format Block_Frame Bloom_Filter Span_Index Range_Lock Txn_Lock Range_Tombstone
    Index_Heap Internal_Order Memtable Mem_Merge Merging_Iter Scan_Iter Group_Resolve Scan_Walk Scan_View Scan_Quiet Unified
    Point_Read Point_Into Point_Exact Point_Gap
begin

text \<open>
  \<^bold>\<open>A verification of the ondadb storage engine.\<close>

  ondadb (crate sources under \<open>src/src/\<close>) is an embedded, ordered key-value store: writes go to a
  sharded memtable, memtables are flushed to sorted files, and reads merge the memtables with the
  files, newest version first, under range deletes, merge operators and expiry times. Transactions
  take point locks and check spans of committed keys; compaction holds key-range locks. This
  library models the parts listed below as functions over explicit state and proves what each
  part promises to the ones that use it.

  \<^bold>\<open>Conventions.\<close> Bytes and machine integers are words of their width, so wrap-around is as in the
  code; \<open>usize\<close> is \<open>nat\<close>, and a narrowing or an index out of range that the code would panic on is
  the value \<open>Panic\<close> of the error type. A \<open>Result\<close> is the sum type \<open>result\<close> of theory \<open>Prelude\<close>,
  every early return a branch. Loops over data are structural recursions or carry a termination
  proof; loops that read through an interface (\<open>child_seek_lt\<close>, \<open>group_loop\<close>, \<open>advance_loop\<close>,
  \<open>table_chain_loop\<close>) are \<open>while_option\<close> or \<open>partial_function (option)\<close>, and the theorems about them
  state that they return. The only fuel is that of \<open>chain_loop\<close> in \<open>Memtable\<close>: one more than the
  entries of the shard it walks, each step moving past one of them. Code from outside the crate is a parameter: the concurrent skip list
  (record \<open>skip_ops\<close>, laws in locale \<open>skip_map\<close>), hash and checksum functions, codecs, the
  positional file read, user comparators and merge operators.

  \<^bold>\<open>Foundations.\<close>
  \<^item> \<open>Prelude\<close>: types, the error and result types, orderings, the locale \<open>key_order\<close> of a total
    comparison with the facts every sorted structure uses.
  \<^item> \<open>Errors\<close> (\<open>error.rs\<close>): numeric codes and their inverse, kind names, \<open>duplicate\<close>.
  \<^item> \<open>Encoding\<close> (\<open>encoding.rs\<close>): varints, zigzag, little-endian accessors; both decoders agree, and
    decoding inverts encoding exactly on the well-formed prefixes.
  \<^item> \<open>Key_Comparator\<close> (\<open>comparator.rs\<close>): the built-in comparators are total orders (interpretations
    of \<open>user_key_order\<close>), and name resolution returns one of them.
  \<^item> \<open>Format\<close> (\<open>format.rs\<close>): entry flags, capabilities, kinds, internal keys and their order.

  \<^bold>\<open>Files.\<close>
  \<^item> \<open>Block_Frame\<close> (\<open>block.rs\<close>, codec ids of \<open>config.rs\<close>, \<open>compress.rs\<close>): a framed block reads back as
    written, and reading arbitrary bytes yields an error or a checked block, never a panic.
  \<^item> \<open>Bloom_Filter\<close> (\<open>bloom.rs\<close>): no false negatives through encode and decode; decoding is safe.

  \<^bold>\<open>Concurrency control.\<close>
  \<^item> \<open>Span_Index\<close> (\<open>span_index.rs\<close>): the bounded index of committed spans; conflict tests are exact
    while nothing was dropped and sound always.
  \<^item> \<open>Range_Lock\<close> (\<open>range_lock.rs\<close>): compaction range locks; a step relation over threads, mutual
    exclusion as an invariant.
  \<^item> \<open>Txn_Lock\<close> (\<open>txn_lock.rs\<close>): wait-die point locks; a step relation over the critical sections of
    all threads, exclusive grants, absence of deadlock, completeness of release.

  \<^bold>\<open>Reads and writes.\<close>
  \<^item> \<open>Range_Tombstone\<close> (\<open>range_tombstone.rs\<close>): live spans, fragmentation into disjoint stacks,
    cursors that walk with a scan, the codec of fragments; each representation gives the same
    newest covering sequence as the plain list of spans.
  \<^item> \<open>Index_Heap\<close>, \<open>Internal_Order\<close>: the binary heap of source indices that both merges use (locale
    \<open>heap_order\<close>), the order of internal keys (key ascending, sequence descending) and its
    eight-byte prefix shortcut (\<open>sst/iter.rs\<close>).
  \<^item> \<open>Memtable\<close> (\<open>memtable.rs\<close>): shards, key filter, single and batched inserts, point reads,
    version chains, snapshot. After any history of writes a point read returns the newest
    visible version, a batch equals its records one by one, and the snapshot is sorted.
  \<^item> \<open>Mem_Merge\<close> (\<open>memtable.rs\<close>): the lazy iterator over the shards, with its direction flips,
    refines a cursor over the sorted snapshot.
  \<^item> \<open>Merging_Iter\<close> (\<open>iterator.rs\<close>): the merge over the children of a scan. The children's contract is
    the locale \<open>child_source\<close>; the memtable iterator is shown to keep it (\<open>mem_child_source\<close>,
    interpretation \<open>mem_child\<close>), and so is the dispatch over the kinds of children. The merge
    walks the sorted union of the children from either end, and a child that fails is recorded.
  \<^item> \<open>Scan_Iter\<close> (\<open>iterator.rs\<close>): the public iterator itself. \<open>Group_Resolve\<close> shows what one key's
    versions resolve to, the same in both directions; \<open>Scan_Walk\<close> that every movement ends and
    where; \<open>Scan_View\<close> that any sequence of movements follows a cursor over the live keys within
    the declared bounds; \<open>Scan_Quiet\<close> that over memtables no error arises at all.
  \<^item> \<open>Unified\<close> (\<open>unified.rs\<close>): the memtable shared by all families, its prefixed keys, point reads,
    chains and range coverage, and the iterator over one family's slice, which keeps the contract
    \<open>child_source\<close>; a scan of one family sees its own rows only.
  \<^item> \<open>Point_Read\<close> (\<open>column_family.rs\<close>, \<open>SstMeta\<close> of \<open>manifest.rs\<close>): \<open>get\<close> and \<open>get_into\<close> of one family over
    its memtables and levels. Tables are reached through the record \<open>table_ops\<close>; what the reads
    rely on is stated as \<open>into_law\<close>, \<open>seqs_bounded\<close>, \<open>table_rows\<close> and \<open>table_ranges\<close>. \<open>Point_Into\<close> shows
    that the buffer variant appends what \<open>get\<close> returns and that the early exit changes no answer;
    \<open>Point_Exact\<close> that the answer is the resolution, the same as a scan's, of every version of the
    key in the family; \<open>Point_Gap\<close> that this needs each table of a sorted level to hold its range
    deletes from its \<open>min_key\<close> on, with a family where it does not and a deleted value is returned.

  \<^bold>\<open>Not modelled.\<close> The arena memtable is unsafe pointer code behind a feature that is off by default.
  Storage back ends are pure I/O. The write-ahead log, manifest, SSTable reader and writer,
  compaction, transactions and the database front end interleave file operations, threads and
  caches; the pure cores they share (blocks, filters, fragments, locks, span index, order of
  versions, iterators, point reads) are what is modelled. Exactness of point reads is for a family
  with its own memtables; of the unified mode, the scan, the buffer variant and the early exit are
  covered. The batched \<open>multi_get\<close> and the counters of the read path are left out. The importers of earlier formats, counters,
  profiling and command-line tools take no part in the guarantees above.
\<close>

end
